(* ===== verification/Prelude.thy ===== *)
theory Prelude
  imports Main "HOL-Library.Word"
begin

text \<open>
  Shared vocabulary of the development: names for the machine integers and byte
  strings of the sources, the fact collections the component theories feed, and the
  list lemmas they share.

  Conventions. A \<open>QByteArray\<close> / \<open>QByteArrayView\<close> is a list of bytes. A
  \<open>QString\<close> / \<open>QStringView\<close> is a \<open>string\<close>; characters are the first 256 code
  points. A \<open>qint64\<close> that the code never lets overflow is an \<open>int\<close>; where the code
  clamps or casts to a narrower width the clamp or cast is written out.
\<close>

unbundle bit_operations_syntax

type_synonym byte = "8 word"
type_synonym quint32 = "32 word"
type_synonym bytes = "byte list"

named_theorems wf_intros \<open>operations preserve a component's invariant\<close>
named_theorems frame \<open>what an operation leaves unchanged\<close>

text \<open>Numeric limits of the fixed-width types that occur in clamps.\<close>

definition quint32_max :: int where
  "quint32_max = 4294967295"

definition quint16_max :: int where
  "quint16_max = 65535"

definition qint64_min :: int where
  "qint64_min = - 9223372036854775808"

definition qint64_max :: int where
  "qint64_max = 9223372036854775807"

text \<open>A fold whose state is threaded while an output list is appended to: running it on
  a concatenation is running it twice. Scanners and protocol decoders are such folds.\<close>

fun run_out :: "('s \<Rightarrow> 'i \<Rightarrow> 's \<times> 'o list) \<Rightarrow> 's \<Rightarrow> 'i list \<Rightarrow> 's \<times> 'o list" where
  "run_out f s [] = (s, [])"
| "run_out f s (x # xs) =
     (let (s', o1) = f s x; (s'', o2) = run_out f s' xs in (s'', o1 @ o2))"

lemma run_out_Cons:
  "run_out f s (x # xs) =
     (fst (run_out f (fst (f s x)) xs), snd (f s x) @ snd (run_out f (fst (f s x)) xs))"
  by (simp add: Let_def split: prod.splits)

lemma run_out_append:
  "run_out f s (xs @ ys) =
     (let (s', o1) = run_out f s xs; (s'', o2) = run_out f s' ys in (s'', o1 @ o2))"
  by (induction xs arbitrary: s) (auto simp: Let_def split: prod.splits)

lemma run_out_invariant:
  assumes "P s" and "\<And>s x. P s \<Longrightarrow> P (fst (f s x))"
  shows "P (fst (run_out f s xs))"
  using assms(1)
proof (induction xs arbitrary: s)
  case Nil
  then show ?case by simp
next
  case (Cons x xs)
  from assms(2) [OF Cons.prems] have "P (fst (run_out f (fst (f s x)) xs))"
    by (rule Cons.IH)
  then show ?case by (simp only: run_out_Cons fst_conv)
qed

lemma run_out_all:
  assumes "P s" and "\<And>s x. P s \<Longrightarrow> P (fst (f s x))"
    and "\<And>s x. P s \<Longrightarrow> \<forall>y \<in> set (snd (f s x)). Q y"
  shows "\<forall>y \<in> set (snd (run_out f s xs)). Q y"
  using assms(1)
proof (induction xs arbitrary: s)
  case Nil
  then show ?case by simp
next
  case (Cons x xs)
  from Cons.IH [OF assms(2) [OF Cons.prems, of x]] assms(3) [OF Cons.prems, of x]
  show ?case by (auto simp only: run_out_Cons snd_conv set_append)
qed

text \<open>The character classes of \<open>QChar\<close> on the code points a \<open>char\<close> holds.\<close>

definition code :: "char \<Rightarrow> nat" where
  "code c = of_char c"

definition isSpace :: "char \<Rightarrow> bool" where
  "isSpace c = (9 \<le> code c \<and> code c \<le> 13 \<or> code c = 32 \<or> code c = 133 \<or> code c = 160)"

definition isDigit :: "char \<Rightarrow> bool" where
  "isDigit c = (48 \<le> code c \<and> code c \<le> 57)"

text \<open>\<open>QString::trimmed\<close>: white space off both ends.\<close>

definition trimmed :: "string \<Rightarrow> string" where
  "trimmed s = rev (dropWhile isSpace (rev (dropWhile isSpace s)))"

text \<open>\<open>QByteArray::trimmed\<close>, which knows ASCII white space only.\<close>

definition ascii_space :: "char \<Rightarrow> bool" where
  "ascii_space c = (9 \<le> code c \<and> code c \<le> 13 \<or> code c = 32)"

definition trimmed_bytes :: "string \<Rightarrow> string" where
  "trimmed_bytes s = rev (dropWhile ascii_space (rev (dropWhile ascii_space s)))"

lemma dropWhile_inner:
  "\<not> P x \<Longrightarrow> dropWhile P (a @ x # b) = dropWhile P a @ x # b"
proof (induction a)
  case (Cons y a)
  then show ?case by (cases "P y") auto
qed simp

lemma trimmed_inner:
  assumes "\<not> ascii_space x" and "\<not> ascii_space y"
  shows "\<exists>p q. trimmed_bytes (a @ x # b @ y # c) = p @ x # b @ y # q"
proof -
  have "rev (dropWhile ascii_space (a @ x # b @ y # c)) =
      rev c @ y # rev b @ x # rev (dropWhile ascii_space a)"
    by (simp add: dropWhile_inner [of ascii_space x, OF assms(1)])
  then have "trimmed_bytes (a @ x # b @ y # c) =
      dropWhile ascii_space a @ x # b @ y # rev (dropWhile ascii_space (rev c))"
    unfolding trimmed_bytes_def
    by (simp add: dropWhile_inner [of ascii_space y "rev c", OF assms(2)])
  then show ?thesis by blast
qed

text \<open>\<open>QVector::resize\<close>: cut, or pad with a default value.\<close>

definition resize :: "nat \<Rightarrow> 'a \<Rightarrow> 'a list \<Rightarrow> 'a list" where
  "resize n d xs = take n xs @ replicate (n - length xs) d"

lemma length_resize [simp]: "length (resize n d xs) = n"
  by (simp add: resize_def)

lemma resize_take: "n \<le> length xs \<Longrightarrow> resize n d xs = take n xs"
  by (simp add: resize_def)

text \<open>
  The binary search both geometries use: the largest index of \<open>[lo, hi]\<close> at which a
  predicate holds, when it holds at \<open>lo\<close> and is downward closed.
\<close>

function search_last :: "(nat \<Rightarrow> bool) \<Rightarrow> nat \<Rightarrow> nat \<Rightarrow> nat" where
  "search_last P lo hi =
     (if lo < hi then
        (let mid = (lo + hi + 1) div 2
         in if P mid then search_last P mid hi else search_last P lo (mid - 1))
      else lo)"
  by pat_completeness auto
termination
  by (relation "measure (\<lambda>(P, lo, hi). hi - lo)") auto

declare search_last.simps [simp del]

lemma search_last_correct:
  assumes "lo \<le> hi" and "P lo" and "\<And>i j. i \<le> j \<Longrightarrow> j \<le> hi \<Longrightarrow> P j \<Longrightarrow> P i"
  shows "lo \<le> search_last P lo hi \<and> search_last P lo hi \<le> hi \<and> P (search_last P lo hi) \<and>
         (\<forall>j. search_last P lo hi < j \<and> j \<le> hi \<longrightarrow> \<not> P j)"
  using assms
proof (induction P lo hi rule: search_last.induct)
  case (1 P lo hi)
  let ?mid = "(lo + hi + 1) div 2"
  show ?case
  proof (cases "lo < hi")
    case False
    then have "search_last P lo hi = lo" by (simp add: search_last.simps [of P lo hi])
    with False "1.prems" show ?thesis by auto
  next
    case lt: True
    then have mid: "lo < ?mid" "?mid \<le> hi" by auto
    show ?thesis
    proof (cases "P ?mid")
      case True
      from lt True have eq: "search_last P lo hi = search_last P ?mid hi"
        by (simp add: search_last.simps [of P lo hi])
      have "?mid \<le> search_last P ?mid hi \<and> search_last P ?mid hi \<le> hi \<and>
          P (search_last P ?mid hi) \<and> (\<forall>j. search_last P ?mid hi < j \<and> j \<le> hi \<longrightarrow> \<not> P j)"
        by (rule "1.IH"(1) [OF lt refl True mid(2) True]) (use "1.prems"(3) in blast)
      with mid(1) show ?thesis
        unfolding eq by (meson less_le_trans less_imp_le)
    next
      case False
      from lt False have eq: "search_last P lo hi = search_last P lo (?mid - 1)"
        by (simp add: search_last.simps [of P lo hi])
      have above: "\<not> P j" if "?mid \<le> j" "j \<le> hi" for j
        using False "1.prems"(3) [OF that] by blast
      have down: "P i" if "i \<le> j" "j \<le> ?mid - 1" "P j" for i j
        using "1.prems"(3) [of i j] that mid by auto
      have "lo \<le> ?mid - 1" using mid by simp
      then have IH: "lo \<le> search_last P lo (?mid - 1) \<and> search_last P lo (?mid - 1) \<le> ?mid - 1 \<and>
          P (search_last P lo (?mid - 1)) \<and>
          (\<forall>j. search_last P lo (?mid - 1) < j \<and> j \<le> ?mid - 1 \<longrightarrow> \<not> P j)"
        by (rule "1.IH"(2) [OF lt refl False _ "1.prems"(2)]) (rule down)
      have "\<not> P j" if "search_last P lo (?mid - 1) < j" "j \<le> hi" for j
        using IH above [OF _ that(2)] that mid by (cases "j \<le> ?mid - 1") auto
      with IH mid show ?thesis
        unfolding eq by (meson diff_le_self le_trans)
    qed
  qed
qed

text \<open>Prefix sums: the lines before record \<open>i\<close> of a list of heights.\<close>

definition lines_before :: "nat list \<Rightarrow> nat \<Rightarrow> nat" where
  "lines_before hs i = sum_list (take i hs)"

lemma lines_before_0 [simp]: "lines_before hs 0 = 0"
  by (simp add: lines_before_def)

lemma lines_before_Suc: "i < length hs \<Longrightarrow> lines_before hs (Suc i) = lines_before hs i + hs ! i"
  by (simp add: lines_before_def take_Suc_conv_app_nth)

lemma lines_before_all: "length hs \<le> i \<Longrightarrow> lines_before hs i = sum_list hs"
  by (simp add: lines_before_def)

lemma lines_before_mono: "i \<le> j \<Longrightarrow> lines_before hs i \<le> lines_before hs j"
  using take_add [of i "j - i" hs] by (simp add: lines_before_def)

lemma lines_before_split:
  "i \<le> j \<Longrightarrow> lines_before hs j = lines_before hs i + sum_list (take (j - i) (drop i hs))"
  using take_add [of i "j - i" hs] by (simp add: lines_before_def)

text \<open>The linear scan inside one block: the first record whose lines reach past \<open>line\<close>.\<close>

fun scan_lines :: "nat list \<Rightarrow> int \<Rightarrow> int \<Rightarrow> nat \<Rightarrow> nat option" where
  "scan_lines [] line acc i = None"
| "scan_lines (h # hs) line acc i =
     (if line < acc + int h then Some i else scan_lines hs line (acc + int h) (Suc i))"

lemma scan_lines_correct:
  assumes "acc \<le> line" and "line < acc + int (sum_list hs)"
  shows "\<exists>k < length hs. scan_lines hs line acc i = Some (i + k) \<and>
           acc + int (lines_before hs k) \<le> line \<and> line < acc + int (lines_before hs (Suc k))"
  using assms
proof (induction hs arbitrary: acc i)
  case Nil
  then show ?case by simp
next
  case (Cons h hs)
  show ?case
  proof (cases "line < acc + int h")
    case True
    with Cons.prems(1) show ?thesis
      by (intro exI [of _ 0]) (simp add: lines_before_def)
  next
    case False
    with Cons.prems obtain k where "k < length hs"
      "scan_lines hs line (acc + int h) (Suc i) = Some (Suc i + k)"
      "acc + int h + int (lines_before hs k) \<le> line"
      "line < acc + int h + int (lines_before hs (Suc k))"
      using Cons.IH [of "acc + int h" "Suc i"] by auto
    with False show ?thesis
      by (intro exI [of _ "Suc k"]) (simp add: lines_before_def)
  qed
qed

end
