(* ===== verification/Telnet.thy ===== *)
theory Telnet
  imports Prelude
begin

text \<open>
  \<open>src/core/TelnetProtocol.h/.cpp\<close>: the telnet layer (RFC 854/855) between a TCP socket
  and a login console. The class's fields are the record \<open>telnet\<close>; the decoder
  \<open>receive\<close> is one step function per arriving byte, run over the arriving chunk, and
  its two outputs (data for the console, bytes owed to the far end) are returned.
\<close>

section \<open>State\<close>

text \<open>The \<open>enum class State\<close> of the decoder.\<close>

datatype tstate = StData | StIac | StOption | StSub | StSubIac

definition kBinary :: byte where "kBinary = 0"
definition kEcho :: byte where "kEcho = 1"
definition kSuppressGoAhead :: byte where "kSuppressGoAhead = 3"
definition kIac :: byte where "kIac = 255"
definition kDont :: byte where "kDont = 254"
definition kDo :: byte where "kDo = 253"
definition kWont :: byte where "kWont = 252"
definition kWill :: byte where "kWill = 251"
definition kSb :: byte where "kSb = 250"
definition kSe :: byte where "kSe = 240"

lemmas codes = kBinary_def kEcho_def kSuppressGoAhead_def kIac_def kDont_def kDo_def
  kWont_def kWill_def kSb_def kSe_def

record telnet =
  m_state :: tstate
  m_verb :: byte
  m_pendingCr :: bool
  m_us :: "byte \<Rightarrow> bool"
  m_him :: "byte \<Rightarrow> bool"
  m_askedUs :: "byte \<Rightarrow> bool"
  m_askedHim :: "byte \<Rightarrow> bool"

definition telnet_init :: telnet where
  "telnet_init = \<lparr>m_state = StData, m_verb = 0, m_pendingCr = False, m_us = (\<lambda>_. False),
     m_him = (\<lambda>_. False), m_askedUs = (\<lambda>_. False), m_askedHim = (\<lambda>_. False)\<rparr>"

definition weSendBinary :: "telnet \<Rightarrow> bool" where
  "weSendBinary t = m_us t kBinary"

definition theySendBinary :: "telnet \<Rightarrow> bool" where
  "theySendBinary t = m_him t kBinary"

section \<open>Negotiation\<close>

definition weAccept :: "byte \<Rightarrow> bool" where
  "weAccept opt = (opt = kBinary \<or> opt = kSuppressGoAhead)"

definition theyMayDo :: "byte \<Rightarrow> bool" where
  "theyMayDo opt = (opt = kBinary \<or> opt = kEcho \<or> opt = kSuppressGoAhead)"

definition command :: "byte \<Rightarrow> byte \<Rightarrow> bytes" where
  "command verb opt = [kIac, verb, opt]"

definition openingNegotiation :: "telnet \<Rightarrow> telnet \<times> bytes" where
  "openingNegotiation t =
     (t\<lparr>m_askedHim := (m_askedHim t)(kBinary := True, kSuppressGoAhead := True),
        m_askedUs := (m_askedUs t)(kBinary := True)\<rparr>,
      command kDo kBinary @ command kWill kBinary @ command kDo kSuppressGoAhead)"

definition negotiate :: "telnet \<Rightarrow> byte \<Rightarrow> byte \<Rightarrow> telnet \<times> bytes" where
  "negotiate t verb opt =
     (if verb = kWill then
        (if \<not> theyMayDo opt then
           (t\<lparr>m_askedHim := (m_askedHim t)(opt := False)\<rparr>, command kDont opt)
         else if \<not> m_him t opt then
           (t\<lparr>m_him := (m_him t)(opt := True), m_askedHim := (m_askedHim t)(opt := False)\<rparr>,
            if \<not> m_askedHim t opt then command kDo opt else [])
         else (t\<lparr>m_askedHim := (m_askedHim t)(opt := False)\<rparr>, []))
      else if verb = kWont then
        (if m_him t opt then
           (t\<lparr>m_him := (m_him t)(opt := False), m_askedHim := (m_askedHim t)(opt := False)\<rparr>,
            if \<not> m_askedHim t opt then command kDont opt else [])
         else (t\<lparr>m_askedHim := (m_askedHim t)(opt := False)\<rparr>, []))
      else if verb = kDo then
        (if \<not> weAccept opt then
           (t\<lparr>m_askedUs := (m_askedUs t)(opt := False)\<rparr>, command kWont opt)
         else if \<not> m_us t opt then
           (t\<lparr>m_us := (m_us t)(opt := True), m_askedUs := (m_askedUs t)(opt := False)\<rparr>,
            if \<not> m_askedUs t opt then command kWill opt else [])
         else (t\<lparr>m_askedUs := (m_askedUs t)(opt := False)\<rparr>, []))
      else if verb = kDont then
        (if m_us t opt then
           (t\<lparr>m_us := (m_us t)(opt := False), m_askedUs := (m_askedUs t)(opt := False)\<rparr>,
            if \<not> m_askedUs t opt then command kWont opt else [])
         else (t\<lparr>m_askedUs := (m_askedUs t)(opt := False)\<rparr>, []))
      else (t, []))"

section \<open>Decoding and encoding\<close>

text \<open>An output byte is tagged with where the code appends it: the data returned to the
  console, or the reply buffer.\<close>

datatype sink = ToConsole byte | ToPeer byte

fun console :: "sink list \<Rightarrow> bytes" where
  "console [] = []"
| "console (ToConsole b # xs) = b # console xs"
| "console (ToPeer b # xs) = console xs"

fun peer :: "sink list \<Rightarrow> bytes" where
  "peer [] = []"
| "peer (ToConsole b # xs) = peer xs"
| "peer (ToPeer b # xs) = b # peer xs"

definition receive_byte :: "telnet \<Rightarrow> byte \<Rightarrow> telnet \<times> sink list" where
  "receive_byte t c =
     (case m_state t of
        StData \<Rightarrow>
          (if c = kIac then (t\<lparr>m_pendingCr := False, m_state := StIac\<rparr>, [])
           else if m_pendingCr t \<and> c = 0 then (t\<lparr>m_pendingCr := False\<rparr>, [])
           else (t\<lparr>m_pendingCr := (c = 13 \<and> \<not> theySendBinary t)\<rparr>, [ToConsole c]))
      | StIac \<Rightarrow>
          (if c = kIac then (t\<lparr>m_state := StData\<rparr>, [ToConsole c])
           else if c = kWill \<or> c = kWont \<or> c = kDo \<or> c = kDont then
             (t\<lparr>m_verb := c, m_state := StOption\<rparr>, [])
           else if c = kSb then (t\<lparr>m_state := StSub\<rparr>, [])
           else (t\<lparr>m_state := StData\<rparr>, []))
      | StOption \<Rightarrow>
          (let (t', r) = negotiate t (m_verb t) c
           in (t'\<lparr>m_state := StData\<rparr>, map ToPeer r))
      | StSub \<Rightarrow> (if c = kIac then (t\<lparr>m_state := StSubIac\<rparr>, []) else (t, []))
      | StSubIac \<Rightarrow> (t\<lparr>m_state := (if c = kSe then StData else StSub)\<rparr>, []))"

definition receive :: "telnet \<Rightarrow> bytes \<Rightarrow> telnet \<times> bytes \<times> bytes" where
  "receive t arrived =
     (let (t', outs) = run_out receive_byte t arrived in (t', console outs, peer outs))"

definition encode_byte :: "bool \<Rightarrow> byte \<Rightarrow> bytes" where
  "encode_byte binary c =
     (if c = kIac then [kIac, kIac]
      else if c = 13 \<and> \<not> binary then [13, 0]
      else [c])"

definition encode :: "telnet \<Rightarrow> bytes \<Rightarrow> bytes" where
  "encode t data = concat (map (encode_byte (weSendBinary t)) data)"


section \<open>Library lemmas\<close>

lemma verb_codes_distinct [simp]:
  "kWill \<noteq> kWont" "kWill \<noteq> kDo" "kWill \<noteq> kDont" "kWont \<noteq> kDo" "kWont \<noteq> kDont" "kDo \<noteq> kDont"
  "kWont \<noteq> kWill" "kDo \<noteq> kWill" "kDont \<noteq> kWill" "kDo \<noteq> kWont" "kDont \<noteq> kWont" "kDont \<noteq> kDo"
  "kWill \<noteq> kIac" "kWont \<noteq> kIac" "kDo \<noteq> kIac" "kDont \<noteq> kIac" "kSb \<noteq> kIac" "kSe \<noteq> kIac"
  "kSb \<noteq> kWill" "kSb \<noteq> kWont" "kSb \<noteq> kDo" "kSb \<noteq> kDont"
  by (simp_all add: codes)

lemma console_append [simp]: "console (xs @ ys) = console xs @ console ys"
  by (induction xs rule: console.induct) auto

lemma peer_append [simp]: "peer (xs @ ys) = peer xs @ peer ys"
  by (induction xs rule: peer.induct) auto

lemma console_map_ToPeer [simp]: "console (map ToPeer xs) = []"
  by (induction xs) auto

lemma peer_map_ToPeer [simp]: "peer (map ToPeer xs) = xs"
  by (induction xs) auto

lemma receive_Nil [simp]: "receive t [] = (t, [], [])"
  by (simp add: receive_def)

lemma receive_Cons:
  "receive t (c # cs) =
     (let (t', outs) = receive_byte t c; (t'', d, r) = receive t' cs
      in (t'', console outs @ d, peer outs @ r))"
  by (simp add: receive_def Let_def split: prod.splits)

lemma receive_cat:
  "receive t (xs @ ys) =
     (let (t', d, r) = receive t xs; (t'', d', r') = receive t' ys
      in (t'', d @ d', r @ r'))"
  by (simp add: receive_def run_out_append Let_def split: prod.splits)

text \<open>The negotiation state the class may be in: an option is only ever on, or asked
  for, when this side accepts it.\<close>

definition telnet_wf :: "telnet \<Rightarrow> bool" where
  "telnet_wf t =
     (\<forall>opt. (m_us t opt \<longrightarrow> weAccept opt) \<and> (m_askedUs t opt \<longrightarrow> weAccept opt) \<and>
            (m_him t opt \<longrightarrow> theyMayDo opt) \<and> (m_askedHim t opt \<longrightarrow> theyMayDo opt))"

lemma telnet_wf_init [wf_intros]: "telnet_wf telnet_init"
  by (simp add: telnet_wf_def telnet_init_def)

lemma telnet_wf_opening [wf_intros]:
  "telnet_wf t \<Longrightarrow> telnet_wf (fst (openingNegotiation t))"
  by (auto simp: telnet_wf_def openingNegotiation_def weAccept_def theyMayDo_def)

lemma telnet_wf_negotiate [wf_intros]:
  "telnet_wf t \<Longrightarrow> telnet_wf (fst (negotiate t verb opt))"
  unfolding negotiate_def
  by (simp only: if_distrib [of fst] fst_conv) (simp add: telnet_wf_def)

lemma telnet_wf_frame [simp]:
  "telnet_wf (t\<lparr>m_state := s\<rparr>) = telnet_wf t"
  "telnet_wf (t\<lparr>m_verb := v\<rparr>) = telnet_wf t"
  "telnet_wf (t\<lparr>m_pendingCr := b\<rparr>) = telnet_wf t"
  by (simp_all add: telnet_wf_def)

lemma telnet_wf_receive_byte [wf_intros]:
  "telnet_wf t \<Longrightarrow> telnet_wf (fst (receive_byte t c))"
  using telnet_wf_negotiate [of t "m_verb t" c]
  by (auto simp: receive_byte_def split: tstate.splits prod.splits)

lemma fst_receive: "fst (receive t cs) = fst (run_out receive_byte t cs)"
  by (simp add: receive_def split: prod.splits)

lemma telnet_wf_receive [wf_intros]: "telnet_wf t \<Longrightarrow> telnet_wf (fst (receive t cs))"
  unfolding fst_receive by (rule run_out_invariant) (auto intro: wf_intros)

section \<open>One option of the negotiation, abstractly\<close>

text \<open>
  What \<open>negotiate\<close> does to one option is a machine over four bits: whether we and they
  perform it, and whether our own request for either is outstanding. \<open>opt_step\<close> is that
  machine; \<open>negotiate_refines\<close> shows the code implements it for the option named and
  leaves every other option alone.
\<close>

datatype verb = Will | Wont | Do | Dont

fun verb_code :: "verb \<Rightarrow> byte" where
  "verb_code Will = kWill"
| "verb_code Wont = kWont"
| "verb_code Do = kDo"
| "verb_code Dont = kDont"

record opt_bits =
  us :: bool
  him :: bool
  askedUs :: bool
  askedHim :: bool

definition abs_opt :: "telnet \<Rightarrow> byte \<Rightarrow> opt_bits" where
  "abs_opt t opt = \<lparr>us = m_us t opt, him = m_him t opt,
     askedUs = m_askedUs t opt, askedHim = m_askedHim t opt\<rparr>"

definition opt_step :: "bool \<Rightarrow> bool \<Rightarrow> opt_bits \<Rightarrow> verb \<Rightarrow> opt_bits \<times> verb option" where
  "opt_step acc may b v =
     (case v of
        Will \<Rightarrow> (b\<lparr>him := him b \<or> may, askedHim := False\<rparr>,
                 if \<not> may then Some Dont
                 else if \<not> him b \<and> \<not> askedHim b then Some Do else None)
      | Wont \<Rightarrow> (b\<lparr>him := False, askedHim := False\<rparr>,
                 if him b \<and> \<not> askedHim b then Some Dont else None)
      | Do \<Rightarrow> (b\<lparr>us := us b \<or> acc, askedUs := False\<rparr>,
               if \<not> acc then Some Wont
               else if \<not> us b \<and> \<not> askedUs b then Some Will else None)
      | Dont \<Rightarrow> (b\<lparr>us := False, askedUs := False\<rparr>,
                 if us b \<and> \<not> askedUs b then Some Wont else None))"

definition reply_bytes :: "byte \<Rightarrow> verb option \<Rightarrow> bytes" where
  "reply_bytes opt r = (case r of None \<Rightarrow> [] | Some v \<Rightarrow> command (verb_code v) opt)"

lemma negotiate_refines:
  "abs_opt (fst (negotiate t (verb_code v) opt)) opt =
     fst (opt_step (weAccept opt) (theyMayDo opt) (abs_opt t opt) v)"
  "snd (negotiate t (verb_code v) opt) =
     reply_bytes opt (snd (opt_step (weAccept opt) (theyMayDo opt) (abs_opt t opt) v))"
  by (cases v; auto simp: negotiate_def abs_opt_def opt_step_def reply_bytes_def)+

lemma negotiate_other_options:
  "opt' \<noteq> opt \<Longrightarrow> abs_opt (fst (negotiate t v opt)) opt' = abs_opt t opt'"
  by (auto simp: negotiate_def abs_opt_def)

lemma negotiate_frame [frame]:
  "m_state (fst (negotiate t v opt)) = m_state t"
  "m_verb (fst (negotiate t v opt)) = m_verb t"
  "m_pendingCr (fst (negotiate t v opt)) = m_pendingCr t"
  by (auto simp: negotiate_def)

lemma abs_opt_frame [simp]:
  "abs_opt (t\<lparr>m_state := s\<rparr>) = abs_opt t"
  "abs_opt (t\<lparr>m_verb := v'\<rparr>) = abs_opt t"
  "abs_opt (t\<lparr>m_pendingCr := b\<rparr>) = abs_opt t"
  by (simp_all add: abs_opt_def fun_eq_iff)

text \<open>A whole command on the wire, received between two data bytes.\<close>

lemma verb_code_class [simp]:
  "verb_code v \<noteq> kIac"
  "verb_code v = kWill \<or> verb_code v = kWont \<or> verb_code v = kDo \<or> verb_code v = kDont"
  by (cases v; simp)+

lemma receive_command:
  assumes "m_state t = StData"
  shows "\<exists>t'. receive t (command (verb_code v) opt) =
           (t', [], reply_bytes opt (snd (opt_step (weAccept opt) (theyMayDo opt) (abs_opt t opt) v)))
         \<and> m_state t' = StData
         \<and> abs_opt t' opt = fst (opt_step (weAccept opt) (theyMayDo opt) (abs_opt t opt) v)"
proof -
  let ?t1 = "t\<lparr>m_pendingCr := False, m_verb := verb_code v, m_state := StOption\<rparr>"
  let ?n = "negotiate ?t1 (verb_code v) opt"
  have "receive t (command (verb_code v) opt) = ((fst ?n)\<lparr>m_state := StData\<rparr>, [], snd ?n)"
    using assms verb_code_class [of v]
    by (simp add: command_def receive_Cons receive_byte_def Let_def split: prod.splits)
  moreover have "abs_opt ?t1 opt = abs_opt t opt"
    by simp
  ultimately show ?thesis
    using negotiate_refines [of ?t1 v opt] by (auto simp: split_def)
qed

text \<open>
  Two endpoints of this class answering each other: \<open>converse n p q m\<close> is what is still on
  the wire after \<open>n\<close> deliveries, the first of them \<open>m\<close> to \<open>p\<close>.
\<close>

fun converse :: "nat \<Rightarrow> telnet \<Rightarrow> telnet \<Rightarrow> bytes \<Rightarrow> bytes" where
  "converse 0 p q m = m"
| "converse (Suc n) p q m = (let (p', d, r) = receive p m in converse n q p' r)"

fun opt_converse :: "nat \<Rightarrow> bool \<Rightarrow> bool \<Rightarrow> opt_bits \<Rightarrow> opt_bits \<Rightarrow> verb option \<Rightarrow> verb option" where
  "opt_converse n acc may a b None = None"
| "opt_converse 0 acc may a b (Some v) = Some v"
| "opt_converse (Suc n) acc may a b (Some v) =
     (let (a', r) = opt_step acc may a v in opt_converse n acc may b a' r)"

lemma converse_Nil: "converse n p q [] = []"
  by (induction n arbitrary: p q) auto

lemma converse_refines:
  assumes "m_state p = StData" and "m_state q = StData"
  shows "converse n p q (reply_bytes opt r) =
    reply_bytes opt (opt_converse n (weAccept opt) (theyMayDo opt) (abs_opt p opt) (abs_opt q opt) r)"
  using assms
proof (induction n arbitrary: p q r)
  case 0
  then show ?case by (cases r) auto
next
  case (Suc n)
  show ?case
  proof (cases r)
    case None
    then show ?thesis by (simp add: reply_bytes_def converse_Nil)
  next
    case (Some v)
    from receive_command [OF Suc.prems(1), of v opt] obtain p' where
      p': "receive p (command (verb_code v) opt) =
           (p', [], reply_bytes opt (snd (opt_step (weAccept opt) (theyMayDo opt) (abs_opt p opt) v)))"
      and "m_state p' = StData"
      and abs: "abs_opt p' opt = fst (opt_step (weAccept opt) (theyMayDo opt) (abs_opt p opt) v)"
      by blast
    with Suc.IH [OF Suc.prems(2), of p'] Some show ?thesis
      by (simp add: reply_bytes_def [of opt "Some v"] split_def Let_def)
  qed
qed

lemma opt_converse_ends: "opt_converse 5 acc may a b (Some v) = None"
  by (cases v; cases acc; cases may; cases "us a"; cases "him a"; cases "us b"; cases "him b")
     (auto simp: eval_nat_numeral opt_step_def)

lemma receive_Cons_StData:
  assumes "m_state t = StData" and "c \<noteq> kIac" and "\<not> (m_pendingCr t \<and> c = 0)"
  shows "receive t (c # cs) =
    (let (t', d, r) = receive (t\<lparr>m_pendingCr := (c = 13 \<and> \<not> theySendBinary t)\<rparr>) cs
     in (t', c # d, r))"
  using assms by (auto simp: receive_Cons receive_byte_def split: prod.splits)

lemma receive_encode_byte:
  assumes "m_state t = StData" and "\<not> m_pendingCr t" and "theySendBinary t = binary"
  shows "receive t (encode_byte binary c @ cs) =
    (let (t', d, r) = receive t cs in (t', c # d, r))"
proof -
  have same: "t\<lparr>m_pendingCr := False\<rparr> = t" "t\<lparr>m_state := StData\<rparr> = t"
    "t\<lparr>m_pendingCr := False, m_state := StData\<rparr> = t"
    using assms(1,2) by simp_all
  consider (iac) "c = kIac" | (cr) "c = 13" "\<not> binary" "c \<noteq> kIac"
    | (plain) "c \<noteq> kIac" "\<not> (c = 13 \<and> \<not> binary)" by blast
  then show ?thesis
  proof cases
    case iac
    then show ?thesis using assms(1,2)
      by (simp add: same assms(3) [symmetric] encode_byte_def receive_Cons receive_byte_def split_def Let_def)
  next
    case cr
    then show ?thesis using assms(1,2)
      by (simp add: same assms(3) [symmetric] encode_byte_def receive_Cons receive_byte_def
          theySendBinary_def split_def Let_def codes)
  next
    case plain
    then have eq: "(c = 13 \<and> \<not> theySendBinary t) = False" using assms(3) by simp
    show ?thesis using plain(1) assms(1,2)
      by (simp only: encode_byte_def assms(3) [symmetric] eq if_False append_Cons append_Nil
          receive_Cons_StData simp_thms same)
  qed
qed

lemma receive_sub_skip:
  assumes "m_state t = StSub" and "kIac \<notin> set xs"
  shows "receive t (xs @ [kIac, kSe]) = (t\<lparr>m_state := StData\<rparr>, [], [])"
  using assms(2)
proof (induction xs)
  case Nil
  then show ?case using assms(1) by (simp add: receive_Cons receive_byte_def)
next
  case (Cons x xs)
  then show ?case using assms(1) by (auto simp: receive_Cons receive_byte_def)
qed

text \<open>What may be on the wire from this side: whole commands, agreeing only to what the
  accept tables hold.\<close>

definition reply_ok :: "verb \<times> byte \<Rightarrow> bool" where
  "reply_ok vo = (case vo of (Will, opt) \<Rightarrow> weAccept opt | (Do, opt) \<Rightarrow> theyMayDo opt | _ \<Rightarrow> True)"

lemma negotiate_reply_ok:
  "\<exists>cmds. snd (negotiate t v opt) = concat (map (\<lambda>(v, opt). command (verb_code v) opt) cmds) \<and>
     list_all reply_ok cmds"
proof -
  have one: "\<exists>cmds. command (verb_code w) opt =
      concat (map (\<lambda>(v, opt). command (verb_code v) opt) cmds) \<and> list_all reply_ok cmds"
    if "reply_ok (w, opt)" for w
    by (rule exI [of _ "[(w, opt)]"]) (use that in simp)
  show ?thesis
    using one [of Will] one [of Wont] one [of Do] one [of Dont]
    by (auto simp: negotiate_def reply_ok_def intro: exI [of _ "[]"])
qed

lemma receive_reply_ok:
  "\<exists>cmds. snd (snd (receive t cs)) = concat (map (\<lambda>(v, opt). command (verb_code v) opt) cmds) \<and>
     list_all reply_ok cmds"
proof (induction cs arbitrary: t)
  case Nil
  show ?case by (auto intro: exI [of _ "[]"])
next
  case (Cons c cs)
  let ?wire = "\<lambda>cmds. concat (map (\<lambda>(v, opt). command (verb_code v) opt) cmds)"
  have "\<exists>cmds. peer (snd (receive_byte t c)) = ?wire cmds \<and> list_all reply_ok cmds"
  proof (cases "m_state t = StOption")
    case True
    then show ?thesis using negotiate_reply_ok [of t "m_verb t" c]
      by (simp add: receive_byte_def split_def Let_def)
  next
    case False
    then have "peer (snd (receive_byte t c)) = []"
      by (cases "m_state t") (auto simp: receive_byte_def)
    then show ?thesis by (auto intro: exI [of _ "[]"])
  qed
  then obtain c1 where c1: "peer (snd (receive_byte t c)) = ?wire c1" "list_all reply_ok c1"
    by blast
  obtain c2 where c2: "snd (snd (receive (fst (receive_byte t c)) cs)) = ?wire c2" "list_all reply_ok c2"
    using Cons.IH [of "fst (receive_byte t c)"] by blast
  have "snd (snd (receive t (c # cs))) = ?wire (c1 @ c2)"
    using c1(1) c2(1) by (simp add: receive_Cons split_def Let_def)
  with c1(2) c2(2) show ?case
    by (intro exI [of _ "c1 @ c2"]) simp
qed

section \<open>Properties\<close>

text \<open>C5: telnet_roundtrip. What one endpoint encodes the other decodes to the same bytes,
  0xFF and CR included, in either mode, as long as both agree on whether the sending
  direction is binary; the decoder is left as it was and owes no answer.\<close>

theorem telnet_roundtrip:
  assumes "m_state p = StData" and "\<not> m_pendingCr p" and "theySendBinary p = weSendBinary q"
  shows "receive p (encode q data) = (p, data, [])"
proof (induction data)
  case Nil
  show ?case by (simp add: encode_def)
next
  case (Cons c cs)
  then show ?case
    using receive_encode_byte [OF assms, of c "encode q cs"] by (simp add: encode_def)
qed

theorem telnet_roundtrip_witness:
  "receive telnet_init (encode telnet_init [255, 13, 0, 10, 65])
     = (telnet_init, [255, 13, 0, 10, 65], [])"
  by (rule telnet_roundtrip; simp only: telnet_init_def theySendBinary_def weSendBinary_def telnet.simps simp_thms)

text \<open>The decoder's answer does not depend on how the stream was cut
  into reads: feeding two chunks one after the other gives the data and the replies of
  feeding their concatenation, so an IAC sequence split across two TCP segments decodes as
  if it had arrived whole.\<close>

theorem telnet_chunking:
  "receive t (xs @ ys) =
     (let (t1, d1, r1) = receive t xs; (t2, d2, r2) = receive t1 ys
      in (t2, d1 @ d2, r1 @ r2))"
  by (rule receive_cat)

text \<open>C6: telnet_quiesces. Negotiation cannot loop: whatever option command is delivered to
  one of two endpoints of this class, in any negotiation state, after five deliveries of the
  answers nothing is left on the wire.\<close>

theorem telnet_quiesces:
  assumes "m_state p = StData" and "m_state q = StData"
  shows "converse 5 p q (command (verb_code v) opt) = []"
  using converse_refines [OF assms, of 5 opt "Some v"]
  by (simp only: opt_converse_ends) (simp add: reply_bytes_def)

theorem telnet_quiesces_witness:
  "converse 5 telnet_init (fst (openingNegotiation telnet_init)) (command (verb_code Will) 1) = []"
  by (rule telnet_quiesces; simp only: telnet_init_def openingNegotiation_def telnet.simps fst_conv)

text \<open>C7: telnet_never_overcommits. From its initial state through the opening negotiation
  and any bytes from the far end, the endpoint only ever has on, or asks for, the options of
  its accept tables (it never performs ECHO), and the bytes it answers are whole commands
  whose WILL and DO name accepted options only.\<close>

theorem telnet_never_overcommits:
  "telnet_wf (fst (receive (fst (openingNegotiation telnet_init)) cs)) \<and>
   (\<exists>cmds. snd (snd (receive (fst (openingNegotiation telnet_init)) cs)) =
        concat (map (\<lambda>(v, opt). command (verb_code v) opt) cmds) \<and> list_all reply_ok cmds)"
  by (rule conjI [OF telnet_wf_receive [OF telnet_wf_opening [OF telnet_wf_init]] receive_reply_ok])

end
