(* ===== verification/Records.thy ===== *)
theory Records
  imports Prelude
begin

text \<open>
  \<open>src/core/Priority.h\<close> and \<open>src/core/Record.h\<close>: the severity enum, declared in
  severity order so that a minimum-level filter is one comparison, and the 32-byte record.
  The narrow unsigned fields of \<open>Record\<close> are words; \<open>offset\<close> and \<open>timestamp\<close>
  (\<open>qint64\<close>) are integers, the absent timestamp being the least \<open>qint64\<close>.
\<close>

section \<open>Priority\<close>

datatype priority = Unknown | Trace | Debug | Info | Warn | Error | Fatal

fun severity :: "priority \<Rightarrow> nat" where
  "severity Unknown = 0"
| "severity Trace = 1"
| "severity Debug = 2"
| "severity Info = 3"
| "severity Warn = 4"
| "severity Error = 5"
| "severity Fatal = 6"

lemma severity_inject [simp]: "severity p = severity q \<longleftrightarrow> p = q"
  by (cases p; cases q) auto

instantiation priority :: linorder
begin

definition less_eq_priority :: "priority \<Rightarrow> priority \<Rightarrow> bool" where
  "less_eq_priority p q = (severity p \<le> severity q)"

definition less_priority :: "priority \<Rightarrow> priority \<Rightarrow> bool" where
  "less_priority p q = (severity p < severity q)"

instance
  by standard (auto simp: less_eq_priority_def less_priority_def)

end

lemma priority_order [simp]:
  "Unknown \<le> p"
  "Unknown < p \<longleftrightarrow> p \<noteq> Unknown"
  by (cases p; simp add: less_eq_priority_def less_priority_def)+

definition parsePriority :: "string \<Rightarrow> priority" where
  "parsePriority tok =
     (let token = trimmed tok in
      if length token = 4 then
        (if token = ''INFO'' then Info
         else if token = ''WARN'' then Warn
         else Unknown)
      else if length token = 5 then
        (if token = ''TRACE'' then Trace
         else if token = ''DEBUG'' then Debug
         else if token = ''ERROR'' then Error
         else if token = ''FATAL'' then Fatal
         else Unknown)
      else Unknown)"

definition priorityName :: "priority \<Rightarrow> string" where
  "priorityName p =
     (case p of Trace \<Rightarrow> ''TRACE'' | Debug \<Rightarrow> ''DEBUG'' | Info \<Rightarrow> ''INFO'' | Warn \<Rightarrow> ''WARN''
      | Error \<Rightarrow> ''ERROR'' | Fatal \<Rightarrow> ''FATAL'' | Unknown \<Rightarrow> '''')"

text \<open>White space around the token, as \<open>%-5p\<close> pads it, does not matter.\<close>

definition blanks :: "string \<Rightarrow> bool" where
  "blanks s = list_all isSpace s"

lemma dropWhile_blanks: "blanks b \<Longrightarrow> dropWhile isSpace (b @ s) = dropWhile isSpace s"
  by (induction b) (auto simp: blanks_def)

lemma trimmed_pad:
  assumes "blanks b" and "blanks c"
  shows "trimmed (b @ s @ c) = trimmed s"
proof -
  have revc: "blanks (rev c)" using assms(2) by (simp add: blanks_def list_all_iff)
  show ?thesis
  proof (cases "list_all isSpace s")
    case True
    then have "dropWhile isSpace (b @ s @ c) = []" "dropWhile isSpace s = []"
      using assms by (auto simp: blanks_def list_all_iff dropWhile_eq_Nil_conv)
    then show ?thesis by (simp only: trimmed_def)
  next
    case False
    then have "dropWhile isSpace (s @ c) = dropWhile isSpace s @ c"
      by (auto simp: list_all_iff dropWhile_append)
    then show ?thesis
      using assms(1) revc by (simp add: trimmed_def dropWhile_blanks)
  qed
qed

lemma trimmed_name: "trimmed (priorityName p) = priorityName p"
  by (cases p) (simp_all add: priorityName_def trimmed_def isSpace_def code_def)

lemma parsePriority_name:
  assumes "blanks b" and "blanks c"
  shows "parsePriority (b @ priorityName p @ c) = p"
  unfolding parsePriority_def trimmed_pad [OF assms] trimmed_name
  by (cases p) (simp_all add: priorityName_def)

section \<open>Record\<close>

record log_record =
  offset :: int
  timestamp :: int
  byteLength :: "32 word"
  loggerId :: "32 word"
  threadId :: "32 word"
  lineCount :: "16 word"
  prio :: priority

definition kNoTimestamp :: int where
  "kNoTimestamp = qint64_min"

definition kMaxLineCount :: "16 word" where
  "kMaxLineCount = 65535"

end
