(* ===== verification/InternTbl.thy ===== *)
theory InternTbl
  imports Prelude
begin

text \<open>
  \<open>src/core/InternTable.h\<close>: strings to dense \<open>quint32\<close> ids. The hash is the map
  \<open>m_ids\<close>, the reverse table the list \<open>m_names\<close>; the id of a new string is the cast
  \<open>static_cast<quint32>(m_names.size())\<close>, kept at its width. The dictionary contract the
  indexer and the filters rely on is the locale \<open>dictionary\<close>.
\<close>

section \<open>The interface\<close>

locale dictionary =
  fixes intern :: "'t \<Rightarrow> 's \<Rightarrow> 't \<times> 'i"
    and lookup :: "'t \<Rightarrow> 's \<Rightarrow> 'i option"
    and nameOf :: "'t \<Rightarrow> 'i \<Rightarrow> 's"
    and room :: "nat \<Rightarrow> 't \<Rightarrow> bool"
  assumes room_intern: "room (Suc n) t \<Longrightarrow> room n (fst (intern t s))"
    and room_weaken: "room (Suc n) t \<Longrightarrow> room n t"
    and lookup_intern: "room (Suc n) t \<Longrightarrow> lookup (fst (intern t s)) s = Some (snd (intern t s))"
    and lookup_stable: "room (Suc n) t \<Longrightarrow> lookup t x = Some i \<Longrightarrow> lookup (fst (intern t s)) x = Some i"
    and lookup_name: "room n t \<Longrightarrow> lookup t x = Some i \<Longrightarrow> nameOf t i = x"
begin

text \<open>Interning a whole sequence, left to right.\<close>

definition intern_seq :: "'t \<Rightarrow> 's list \<Rightarrow> 't" where
  "intern_seq t ss = fold (\<lambda>s t. fst (intern t s)) ss t"

lemma intern_seq_simps [simp]:
  "intern_seq t [] = t"
  "intern_seq t (s # ss) = intern_seq (fst (intern t s)) ss"
  by (simp_all add: intern_seq_def)

lemma room_seq: "room (n + length ss) t \<Longrightarrow> room n (intern_seq t ss)"
  by (induction ss arbitrary: t) (auto intro: room_intern)

lemma lookup_seq_stable:
  "room (n + length ss) t \<Longrightarrow> lookup t x = Some i \<Longrightarrow> lookup (intern_seq t ss) x = Some i"
  by (induction ss arbitrary: t) (auto intro: room_intern lookup_stable)

lemma lookup_seq:
  "room (n + length ss) t \<Longrightarrow> s \<in> set ss \<Longrightarrow> \<exists>i. lookup (intern_seq t ss) s = Some i"
proof (induction ss arbitrary: t)
  case Nil
  then show ?case by simp
next
  case (Cons x ss)
  have r: "room (n + length ss) (fst (intern t x))"
    using Cons.prems(1) by (auto intro: room_intern)
  show ?case
  proof (cases "s = x")
    case True
    have "lookup (fst (intern t x)) x = Some (snd (intern t x))"
      using Cons.prems(1) lookup_intern [of "n + length ss" t x] by simp
    from lookup_seq_stable [OF r this] True show ?thesis by auto
  next
    case False
    with Cons.prems(2) have "s \<in> set ss" by simp
    from Cons.IH [OF r this] show ?thesis by simp
  qed
qed

lemma lookup_inj:
  "room n t \<Longrightarrow> lookup t x = Some i \<Longrightarrow> lookup t y = Some i \<Longrightarrow> x = y"
  using lookup_name by metis

end

section \<open>The table\<close>

record intern_table =
  m_ids :: "string \<rightharpoonup> quint32"
  m_names :: "string list"

definition intern_empty :: intern_table where
  "intern_empty = \<lparr>m_ids = [[] \<mapsto> 0], m_names = [[]]\<rparr>"

definition intern :: "intern_table \<Rightarrow> string \<Rightarrow> intern_table \<times> quint32" where
  "intern t s =
     (case m_ids t s of
        Some i \<Rightarrow> (t, i)
      | None \<Rightarrow>
          (let i = of_nat (length (m_names t))
           in (t\<lparr>m_ids := (m_ids t)(s \<mapsto> i), m_names := m_names t @ [s]\<rparr>, i)))"

definition nameOf :: "intern_table \<Rightarrow> quint32 \<Rightarrow> string" where
  "nameOf t i = (if unat i < length (m_names t) then m_names t ! unat i else [])"

text \<open>\<open>idOf\<close> returns the id and sets \<open>*found\<close>; the pair is \<open>(id, found)\<close>.\<close>

definition idOf :: "intern_table \<Rightarrow> string \<Rightarrow> quint32 \<times> bool" where
  "idOf t s = (case m_ids t s of Some i \<Rightarrow> (i, True) | None \<Rightarrow> (0, False))"

definition intern_count :: "intern_table \<Rightarrow> nat" where
  "intern_count t = length (m_names t)"

text \<open>The two tables are inverse to each other and hold the reserved id 0.\<close>

definition intern_wf :: "intern_table \<Rightarrow> bool" where
  "intern_wf t \<longleftrightarrow>
     length (m_names t) \<le> 4294967296 \<and> m_ids t [] = Some 0 \<and>
     (\<forall>s i. m_ids t s = Some i \<longleftrightarrow> unat i < length (m_names t) \<and> m_names t ! unat i = s)"

text \<open>Room for \<open>n\<close> more distinct strings before the 32-bit cast would wrap.\<close>

definition intern_room :: "nat \<Rightarrow> intern_table \<Rightarrow> bool" where
  "intern_room n t \<longleftrightarrow> intern_wf t \<and> length (m_names t) + n \<le> 4294967296"

lemma intern_empty_wf [wf_intros]: "intern_wf intern_empty"
  by (auto simp: intern_wf_def intern_empty_def unat_eq_zero split: if_splits)

lemma unat_of_len: "n < 4294967296 \<Longrightarrow> unat (of_nat n :: quint32) = n"
  by (simp add: unat_of_nat take_bit_nat_eq_self)

lemma intern_wf_step [wf_intros]:
  assumes "intern_wf t" and "length (m_names t) < 4294967296"
  shows "intern_wf (fst (intern t s))"
proof (cases "m_ids t s")
  case (Some i)
  with assms show ?thesis by (simp add: intern_def)
next
  case None
  from assms(1) have iff: "\<And>x i. m_ids t x = Some i \<longleftrightarrow>
      unat i < length (m_names t) \<and> m_names t ! unat i = x"
    by (simp add: intern_wf_def)
  have nomem: "unat i < length (m_names t) \<Longrightarrow> m_names t ! unat i \<noteq> s" for i :: quint32
    using iff [of s i] None by auto
  have "(if x = s then Some (of_nat (length (m_names t))) else m_ids t x) = Some i \<longleftrightarrow>
     unat i < Suc (length (m_names t)) \<and> (m_names t @ [s]) ! unat i = x" for x and i :: quint32
  proof (cases "unat i = length (m_names t)")
    case True
    then have "of_nat (length (m_names t)) = i" by (metis word_of_nat_eq_iff word_unat_eq_iff unat_of_len assms(2))
    with True iff [of x i] show ?thesis by auto
  next
    case False
    then have "of_nat (length (m_names t)) \<noteq> i" using unat_of_len [OF assms(2)] by auto
    with False iff [of x i] nomem [of i] show ?thesis
      by (auto simp: nth_append less_Suc_eq)
  qed
  moreover from assms(1) None have "s \<noteq> []" by (auto simp: intern_wf_def)
  ultimately show ?thesis
    using assms None by (simp add: intern_def intern_wf_def Let_def)
qed

lemma intern_room_step:
  assumes "intern_room (Suc n) t"
  shows "intern_room n (fst (intern t s))"
proof -
  have "length (m_names (fst (intern t s))) \<le> Suc (length (m_names t))"
    by (simp add: intern_def Let_def split: option.split)
  with assms intern_wf_step [of t s] show ?thesis by (simp add: intern_room_def)
qed

lemma ids_stable: "m_ids t x = Some i \<Longrightarrow> m_ids (fst (intern t s)) x = Some i"
  by (auto simp: intern_def Let_def split: option.split)

lemma ids_intern: "m_ids (fst (intern t s)) s = Some (snd (intern t s))"
  by (simp add: intern_def Let_def split: option.split)

lemma ids_name: "intern_wf t \<Longrightarrow> m_ids t x = Some i \<Longrightarrow> nameOf t i = x"
  by (auto simp: intern_wf_def nameOf_def)

interpretation tbl: dictionary intern m_ids nameOf intern_room
proof
  show "intern_room n (fst (intern t s))" if "intern_room (Suc n) t" for n t s
    using that by (rule intern_room_step)
  show "intern_room n t" if "intern_room (Suc n) t" for n t
    using that by (simp add: intern_room_def)
  show "m_ids (fst (intern t s)) s = Some (snd (intern t s))" for t s
    by (rule ids_intern)
  show "m_ids (fst (intern t s)) x = Some i" if "m_ids t x = Some i" for t s x i
    using that by (rule ids_stable)
  show "nameOf t i = x" if "intern_room n t" "m_ids t x = Some i" for n t x i
    using that ids_name by (simp add: intern_room_def)
qed

lemma idOf_conv: "idOf t s = (i, True) \<longleftrightarrow> m_ids t s = Some i"
  by (auto simp: idOf_def split: option.splits)

lemma intern_idempotent: "m_ids t s = Some i \<Longrightarrow> intern t s = (t, i)"
  by (simp add: intern_def)

section \<open>Properties\<close>

definition intern_all :: "intern_table \<Rightarrow> string list \<Rightarrow> intern_table" where
  "intern_all t ss = fold (\<lambda>s t. fst (intern t s)) ss t"

lemma intern_all_seq: "intern_all = tbl.intern_seq"
  by (simp add: fun_eq_iff intern_all_def tbl.intern_seq_def)

text \<open>After any sequence of strings has been interned (fewer than
  the 32-bit id space holds), every one of them has an id, the id names it, and two of them
  share an id only when they are the same string, so comparing ids is comparing names.\<close>

theorem intern_ids_faithful:
  assumes "length ss < 4294967295" and "x \<in> set ss" and "y \<in> set ss"
  shows "\<exists>i j. idOf (intern_all intern_empty ss) x = (i, True) \<and>
               idOf (intern_all intern_empty ss) y = (j, True) \<and>
               nameOf (intern_all intern_empty ss) i = x \<and> (i = j \<longleftrightarrow> x = y)"
proof -
  have room: "intern_room (0 + length ss) intern_empty"
    using assms(1) intern_empty_wf by (simp add: intern_room_def) (simp add: intern_empty_def)
  note r = tbl.room_seq [OF room]
  obtain i j where "m_ids (tbl.intern_seq intern_empty ss) x = Some i"
    "m_ids (tbl.intern_seq intern_empty ss) y = Some j"
    using tbl.lookup_seq [OF room] assms(2,3) by blast
  with tbl.lookup_name [OF r] tbl.lookup_inj [OF r] show ?thesis
    unfolding intern_all_seq idOf_conv by fastforce
qed

theorem intern_ids_faithful_witness:
  "\<exists>i j. idOf (intern_all intern_empty [''db'', ''net'', ''db'']) ''db'' = (i, True) \<and>
         idOf (intern_all intern_empty [''db'', ''net'', ''db'']) ''net'' = (j, True) \<and>
         nameOf (intern_all intern_empty [''db'', ''net'', ''db'']) i = ''db'' \<and>
         (i = j \<longleftrightarrow> ''db'' = ''net'')"
  by (rule intern_ids_faithful) simp_all

text \<open>Id 0 is the empty string for ever: whatever is interned, a
  non-empty string never gets id 0, so "field absent" cannot be confused with a name.\<close>

theorem intern_reserves_zero:
  assumes "length ss < 4294967295" and "x \<in> set ss"
  shows "fst (idOf (intern_all intern_empty ss) x) = 0 \<longleftrightarrow> x = []"
proof -
  have room: "intern_room (0 + length ss) intern_empty"
    using assms(1) intern_empty_wf by (simp add: intern_room_def) (simp add: intern_empty_def)
  note r = tbl.room_seq [OF room]
  obtain i where i: "m_ids (tbl.intern_seq intern_empty ss) x = Some i"
    using tbl.lookup_seq [OF room assms(2)] by blast
  moreover have "m_ids (tbl.intern_seq intern_empty ss) [] = Some 0"
    using r by (simp add: intern_room_def intern_wf_def)
  ultimately show ?thesis
    using tbl.lookup_inj [OF r, of x 0 "[]"] unfolding intern_all_seq
    by (auto simp: idOf_def)
qed

theorem intern_reserves_zero_witness:
  "fst (idOf (intern_all intern_empty [''db'', []]) ''db'') = 0 \<longleftrightarrow> ''db'' = []"
  by (rule intern_reserves_zero) simp_all

end
