(* ===== verification/BlockIndex.thy ===== *)
theory BlockIndex
  imports Records InternTbl
begin

text \<open>
  \<open>src/core/RecordIndex.h\<close>: the record array with its intern tables and the two-level
  block prefix sums that let the view scroll in display lines. \<open>at()\<close> outside a vector
  is undefined behaviour in the code and \<open>!\<close> outside a list is unspecified here; every
  theorem stays inside.
\<close>

section \<open>State and operations\<close>

definition kBlockSize :: nat where
  "kBlockSize = 4096"

definition kDisplayLineCap :: nat where
  "kDisplayLineCap = 100"

record record_index =
  records :: "log_record list"
  loggers :: intern_table
  threads :: intern_table
  m_blockSums :: "nat list"

definition record_index_empty :: record_index where
  "record_index_empty =
     \<lparr>records = [], loggers = intern_empty, threads = intern_empty, m_blockSums = []\<rparr>"

definition displayLines :: "log_record \<Rightarrow> nat" where
  "displayLines r = min (unat (lineCount r)) kDisplayLineCap"

abbreviation heights :: "record_index \<Rightarrow> nat list" where
  "heights idx \<equiv> map displayLines (records idx)"

definition totalLines :: "record_index \<Rightarrow> nat" where
  "totalLines idx = (if m_blockSums idx = [] then 0 else last (m_blockSums idx))"

text \<open>The loop of both builders: from record \<open>i\<close> with \<open>acc\<close> lines before it, the
  entries appended, the sentinel last.\<close>

fun block_sums :: "nat list \<Rightarrow> nat \<Rightarrow> nat \<Rightarrow> nat list" where
  "block_sums [] i acc = [acc]"
| "block_sums (h # hs) i acc =
     (if i mod kBlockSize = 0 then [acc] else []) @ block_sums hs (Suc i) (acc + h)"

definition rebuildBlockSums :: "record_index \<Rightarrow> record_index" where
  "rebuildBlockSums idx = idx\<lparr>m_blockSums := block_sums (heights idx) 0 0\<rparr>"

definition extendBlockSums :: "record_index \<Rightarrow> int \<Rightarrow> record_index" where
  "extendBlockSums idx validCount =
     (let n = length (records idx);
          valid = nat (min (max validCount 0) (int n)) in
      if m_blockSums idx = [] then rebuildBlockSums idx
      else
        (let startBlock = valid div kBlockSize;
             startRec = startBlock * kBlockSize;
             acc = (if startBlock < length (m_blockSums idx) then m_blockSums idx ! startBlock else 0)
         in idx\<lparr>m_blockSums := resize startBlock 0 (m_blockSums idx)
                  @ block_sums (drop startRec (heights idx)) startRec acc\<rparr>))"

definition firstLineOfRecord :: "record_index \<Rightarrow> int \<Rightarrow> int" where
  "firstLineOfRecord idx r =
     (if r \<le> 0 \<or> records idx = [] then 0
      else
        (let block = nat r div kBlockSize
         in int (m_blockSums idx ! block) +
            int (sum_list (take (nat r - block * kBlockSize)
                             (drop (block * kBlockSize) (heights idx))))))"

definition recordAtLine :: "record_index \<Rightarrow> int \<Rightarrow> int" where
  "recordAtLine idx line =
     (let n = length (records idx) in
      if n = 0 then - 1
      else if line < 0 then 0
      else
        (let block = search_last (\<lambda>mid. int (m_blockSums idx ! mid) \<le> line)
                       0 (length (m_blockSums idx) - 1) in
         if (n + kBlockSize - 1) div kBlockSize \<le> block then int n - 1
         else
           (let i = block * kBlockSize; e = min (i + kBlockSize) n in
            case scan_lines (take (e - i) (drop i (heights idx))) line
                   (int (m_blockSums idx ! block)) i of
              Some r \<Rightarrow> int r
            | None \<Rightarrow> int n - 1)))"

definition blockCount :: "record_index \<Rightarrow> nat" where
  "blockCount idx = length (m_blockSums idx)"

section \<open>What the sums hold\<close>

definition nblocks :: "nat \<Rightarrow> nat" where
  "nblocks n = (n + kBlockSize - 1) div kBlockSize"

definition sums_spec :: "nat list \<Rightarrow> nat list" where
  "sums_spec hs =
     map (\<lambda>b. lines_before hs (b * kBlockSize)) [0..<nblocks (length hs)] @ [sum_list hs]"

text \<open>The invariant of an index whose sums are up to date.\<close>

definition sums_ok :: "record_index \<Rightarrow> bool" where
  "sums_ok idx \<longleftrightarrow> m_blockSums idx = sums_spec (heights idx)"

lemma kBlockSize_pos [simp]: "0 < kBlockSize" "kBlockSize \<noteq> 0"
  by (simp_all add: kBlockSize_def)

lemma nblocks_0 [simp]: "nblocks 0 = 0"
  by (simp add: nblocks_def kBlockSize_def)

lemma less_nblocks: "b < nblocks n \<longleftrightarrow> b * kBlockSize < n"
proof -
  have "b < nblocks n \<longleftrightarrow> Suc b * kBlockSize \<le> n + kBlockSize - 1"
    unfolding nblocks_def Suc_le_eq [symmetric]
    by (rule less_eq_div_iff_mult_less_eq) simp
  also have "\<dots> \<longleftrightarrow> b * kBlockSize < n"
    using kBlockSize_pos(1) by (simp add: less_eq_Suc_le algebra_simps) arith
  finally show ?thesis .
qed

lemma block_le_nblocks: "r \<le> n \<Longrightarrow> r div kBlockSize \<le> nblocks n"
  unfolding nblocks_def by (rule div_le_mono) (simp add: kBlockSize_def)

lemma length_sums_spec [simp]: "length (sums_spec hs) = Suc (nblocks (length hs))"
  by (simp add: sums_spec_def)

lemma sums_spec_nth:
  assumes "b \<le> nblocks (length hs)"
  shows "sums_spec hs ! b = lines_before hs (b * kBlockSize)"
proof (cases "b < nblocks (length hs)")
  case True
  then show ?thesis by (simp add: sums_spec_def nth_append)
next
  case False
  with assms have b: "b = nblocks (length hs)" by simp
  then have "length hs \<le> b * kBlockSize" using less_nblocks [of b "length hs"] by simp
  with b show ?thesis by (simp add: sums_spec_def nth_append lines_before_all)
qed

lemma nblocks_mult [simp]: "nblocks (b * kBlockSize) = b"
proof -
  have "b * kBlockSize + kBlockSize - 1 = (kBlockSize - 1) + b * kBlockSize"
    using kBlockSize_pos(1) by linarith
  moreover have "(kBlockSize - 1) div kBlockSize = 0"
    by (rule div_less) (use kBlockSize_pos(1) in linarith)
  ultimately show ?thesis
    unfolding nblocks_def by (simp only: div_mult_self1 kBlockSize_pos) simp
qed

lemma nblocks_Suc:
  "nblocks (Suc i) = (if i mod kBlockSize = 0 then Suc (nblocks i) else nblocks i)"
proof -
  have suc: "nblocks (Suc i) = Suc (i div kBlockSize)"
    by (simp add: nblocks_def div_add_self2)
  show ?thesis
  proof (cases "i mod kBlockSize = 0")
    case True
    then have "i = (i div kBlockSize) * kBlockSize" by auto
    then have "nblocks i = i div kBlockSize" by (metis nblocks_mult)
    with suc True show ?thesis by simp
  next
    case False
    have "i + kBlockSize - 1 = (i mod kBlockSize - 1) + (i div kBlockSize + 1) * kBlockSize"
      using False div_mult_mod_eq [of i kBlockSize] by (cases i) (simp_all add: algebra_simps)
    moreover have "(i mod kBlockSize - 1) div kBlockSize = 0"
      by (meson div_less kBlockSize_pos(1) less_imp_diff_less mod_less_divisor)
    ultimately have "nblocks i = Suc (i div kBlockSize)"
      unfolding nblocks_def by (simp only: div_mult_self1 kBlockSize_pos not_False_eq_True)
    with suc False show ?thesis by simp
  qed
qed

lemma block_sums_from:
  assumes "i \<le> length hs"
  shows "block_sums (drop i hs) i (lines_before hs i) =
    map (\<lambda>b. lines_before hs (b * kBlockSize)) [nblocks i..<nblocks (length hs)] @ [sum_list hs]"
  using assms
proof (induction "length hs - i" arbitrary: i)
  case 0
  then show ?case by (simp add: lines_before_all)
next
  case (Suc m)
  then have lt: "i < length hs" by simp
  have IH: "block_sums (drop (Suc i) hs) (Suc i) (lines_before hs (Suc i)) =
    map (\<lambda>b. lines_before hs (b * kBlockSize)) [nblocks (Suc i)..<nblocks (length hs)] @ [sum_list hs]"
    using Suc.hyps lt by (intro Suc.hyps(1)) auto
  have step: "block_sums (drop i hs) i (lines_before hs i) =
      (if i mod kBlockSize = 0 then [lines_before hs i] else [])
      @ block_sums (drop (Suc i) hs) (Suc i) (lines_before hs (Suc i))"
    using lt by (simp add: Cons_nth_drop_Suc [symmetric] lines_before_Suc)
  show ?case
  proof (cases "i mod kBlockSize = 0")
    case True
    then have i: "i = (i div kBlockSize) * kBlockSize" by auto
    then have ni: "nblocks i * kBlockSize = i" by (metis nblocks_mult)
    with lt have "nblocks i < nblocks (length hs)" by (simp add: less_nblocks)
    then have "[nblocks i..<nblocks (length hs)] = nblocks i # [Suc (nblocks i)..<nblocks (length hs)]"
      by (rule upt_conv_Cons)
    with True IH step ni show ?thesis by (simp add: nblocks_Suc)
  next
    case False
    with IH step show ?thesis by (simp add: nblocks_Suc)
  qed
qed

lemma block_sums_all: "block_sums hs 0 0 = sums_spec hs"
  using block_sums_from [of 0 hs] by (simp add: sums_spec_def)

lemma sums_ok_rebuild [wf_intros]: "sums_ok (rebuildBlockSums idx)"
  by (simp add: sums_ok_def rebuildBlockSums_def block_sums_all)

lemma take_agree_sum:
  "take v hs = take v hs0 \<Longrightarrow> i \<le> v \<Longrightarrow> lines_before hs i = lines_before hs0 i"
  unfolding lines_before_def by (metis min.absorb1 take_take)

lemma sums_ok_extend:
  assumes sums: "m_blockSums idx = sums_spec hs0"
    and v: "v = nat (min (max validCount 0) (int (length (records idx))))"
    and old: "v \<le> length hs0" and agree: "take v (heights idx) = take v hs0"
  shows "sums_ok (extendBlockSums idx validCount)"
proof -
  let ?b = "v div kBlockSize" and ?hs = "heights idx"
  let ?s = "?b * kBlockSize"
  have sv: "?s \<le> v" by simp
  have vn: "v \<le> length ?hs" using v by simp
  have bn: "?b \<le> nblocks (length hs0)" "?b \<le> nblocks (length ?hs)"
    using block_le_nblocks [OF old] block_le_nblocks [OF vn] by auto
  have nth: "sums_spec hs0 ! ?b = lines_before ?hs ?s"
    using sums_spec_nth [OF bn(1)] take_agree_sum [OF agree sv] by simp
  have keep: "resize ?b 0 (sums_spec hs0) = map (\<lambda>b. lines_before ?hs (b * kBlockSize)) [0..<?b]"
  proof (rule nth_equalityI)
    fix i assume "i < length (resize ?b 0 (sums_spec hs0))"
    then have i: "i < ?b" by simp
    then have "i * kBlockSize \<le> v" using sv by (meson le_trans less_imp_le mult_le_mono1)
    from take_agree_sum [OF agree this] i bn(1)
    show "resize ?b 0 (sums_spec hs0) ! i = map (\<lambda>b. lines_before ?hs (b * kBlockSize)) [0..<?b] ! i"
      by (simp add: resize_take sums_spec_nth)
  qed simp
  have "m_blockSums (extendBlockSums idx validCount) =
      resize ?b 0 (sums_spec hs0) @ block_sums (drop ?s ?hs) ?s (lines_before ?hs ?s)"
    using bn(1) nth
    by (simp add: extendBlockSums_def Let_def sums v [symmetric] less_Suc_eq_le) (simp add: sums_spec_def)
  also have "\<dots> = map (\<lambda>b. lines_before ?hs (b * kBlockSize))
      ([0..<?b] @ [?b..<nblocks (length ?hs)]) @ [sum_list ?hs]"
    using block_sums_from [OF le_trans [OF sv vn]] by (simp add: keep)
  also have "[0..<?b] @ [?b..<nblocks (length ?hs)] = [0..<nblocks (length ?hs)]"
    using bn(2) by (metis le_add_diff_inverse upt_add_eq_append zero_le)
  also have "map (\<lambda>b. lines_before ?hs (b * kBlockSize)) [0..<nblocks (length ?hs)] @ [sum_list ?hs]
      = sums_spec ?hs"
    by (simp add: sums_spec_def)
  finally show ?thesis
    by (simp add: sums_ok_def extendBlockSums_def rebuildBlockSums_def Let_def)
qed

section \<open>The interface of a line geometry\<close>

text \<open>
  What the view asks of an index it scrolls: a record's first display line, and the record
  under a display line. The laws say the two agree; the client lemmas are what scrolling
  relies on.
\<close>

locale line_geometry =
  fixes ok :: "'g \<Rightarrow> bool"
    and count :: "'g \<Rightarrow> int"
    and total :: "'g \<Rightarrow> int"
    and firstLine :: "'g \<Rightarrow> int \<Rightarrow> int"
    and recordAt :: "'g \<Rightarrow> int \<Rightarrow> int"
  assumes first_zero: "ok g \<Longrightarrow> firstLine g 0 = 0"
    and first_total: "ok g \<Longrightarrow> firstLine g (count g) = total g"
    and first_mono: "ok g \<Longrightarrow> 0 \<le> r \<Longrightarrow> r \<le> s \<Longrightarrow> s \<le> count g \<Longrightarrow> firstLine g r \<le> firstLine g s"
    and at_range: "ok g \<Longrightarrow> 0 \<le> line \<Longrightarrow> line < total g \<Longrightarrow> 0 \<le> recordAt g line \<and> recordAt g line < count g"
    and at_first: "ok g \<Longrightarrow> 0 \<le> line \<Longrightarrow> line < total g \<Longrightarrow>
        firstLine g (recordAt g line) \<le> line \<and> line < firstLine g (recordAt g line + 1)"
begin

lemma total_nonneg: "ok g \<Longrightarrow> 0 \<le> count g \<Longrightarrow> 0 \<le> total g"
  using first_mono [of g 0 "count g"] first_zero [of g] first_total [of g] by simp

text \<open>A line belongs to exactly one record.\<close>

lemma at_unique:
  assumes "ok g" and "0 \<le> r" and "r < count g"
    and "firstLine g r \<le> line" and "line < firstLine g (r + 1)"
  shows "recordAt g line = r"
proof -
  have lo: "0 \<le> line"
    using first_mono [of g 0 r] first_zero [of g] assms by simp
  have hi: "line < total g"
    using first_mono [of g "r + 1" "count g"] first_total [of g] assms by simp
  note at = at_range [OF assms(1) lo hi] at_first [OF assms(1) lo hi]
  show ?thesis
  proof (rule ccontr)
    assume "recordAt g line \<noteq> r"
    then consider "recordAt g line + 1 \<le> r" | "r + 1 \<le> recordAt g line" by linarith
    then show False
    proof cases
      case 1
      from first_mono [OF assms(1) _ this] at assms show False by linarith
    next
      case 2
      from first_mono [OF assms(1) _ this] at assms show False by linarith
    qed
  qed
qed

text \<open>Round trip: the record under the first line of a record that has a height.\<close>

lemma at_first_inverse:
  assumes "ok g" and "0 \<le> r" and "r < count g" and "firstLine g r < firstLine g (r + 1)"
  shows "recordAt g (firstLine g r) = r"
  by (rule at_unique [OF assms(1-3)]) (use assms(4) in auto)

lemma at_mono:
  assumes "ok g" and "0 \<le> l" and "l \<le> m" and "m < total g"
  shows "recordAt g l \<le> recordAt g m"
proof (rule ccontr)
  assume "\<not> recordAt g l \<le> recordAt g m"
  then have "recordAt g m + 1 \<le> recordAt g l" by simp
  moreover have "firstLine g (recordAt g l) \<le> l" "recordAt g l < count g"
    using at_first [of g l] at_range [of g l] assms by auto
  moreover have "m < firstLine g (recordAt g m + 1)" "0 \<le> recordAt g m"
    using at_first [of g m] at_range [of g m] assms by auto
  ultimately show False
    using first_mono [of g "recordAt g m + 1" "recordAt g l"] assms by linarith
qed

end

section \<open>The index implements it\<close>

lemma firstLine_spec:
  assumes "sums_ok idx" and "r \<le> int (length (records idx))"
  shows "firstLineOfRecord idx r = int (lines_before (heights idx) (nat r))"
proof (cases "r \<le> 0 \<or> records idx = []")
  case True
  then show ?thesis by (auto simp: firstLineOfRecord_def lines_before_def)
next
  case False
  let ?b = "nat r div kBlockSize"
  have r: "nat r \<le> length (heights idx)" using assms(2) by simp
  have "m_blockSums idx ! ?b = lines_before (heights idx) (?b * kBlockSize)"
    using assms(1) sums_spec_nth [OF block_le_nblocks [OF r]] by (simp add: sums_ok_def)
  moreover have "lines_before (heights idx) (nat r) = lines_before (heights idx) (?b * kBlockSize) +
      sum_list (take (nat r - ?b * kBlockSize) (drop (?b * kBlockSize) (heights idx)))"
    by (rule lines_before_split) simp
  ultimately show ?thesis
    using False by (simp add: firstLineOfRecord_def Let_def)
qed

lemma totalLines_spec: "sums_ok idx \<Longrightarrow> totalLines idx = sum_list (heights idx)"
  by (simp add: sums_ok_def totalLines_def sums_spec_def)

lemma scan_block_spec:
  assumes ie: "i \<le> e" "e \<le> length hs"
    and ge: "int (lines_before hs i) \<le> line" and lt: "line < int (lines_before hs e)"
  shows "\<exists>r < e. scan_lines (take (e - i) (drop i hs)) line (int (lines_before hs i)) i = Some r \<and>
     int (lines_before hs r) \<le> line \<and> line < int (lines_before hs (Suc r))"
proof -
  let ?blk = "take (e - i) (drop i hs)"
  have pre: "lines_before hs i + lines_before ?blk k = lines_before hs (i + k)" if "k \<le> e - i" for k
    using that lines_before_split [of i "i + k" hs] by (simp add: lines_before_def min_def)
  have "sum_list ?blk = lines_before ?blk (e - i)" by (simp add: lines_before_def)
  with pre [of "e - i"] ie lt have "line < int (lines_before hs i) + int (sum_list ?blk)" by simp
  from scan_lines_correct [OF ge this, of i] obtain k where k: "k < length ?blk"
    "scan_lines ?blk line (int (lines_before hs i)) i = Some (i + k)"
    "int (lines_before hs i) + int (lines_before ?blk k) \<le> line"
    "line < int (lines_before hs i) + int (lines_before ?blk (Suc k))" by blast
  have "k < e - i" using k(1) by simp
  with k pre [of k] pre [of "Suc k"] show ?thesis by (intro exI [of _ "i + k"]) auto
qed

lemma search_block_spec:
  assumes ok: "sums_ok idx" and lo: "0 \<le> line" and hi: "line < int (sum_list (heights idx))"
    and b: "b = search_last (\<lambda>mid. int (m_blockSums idx ! mid) \<le> line) 0 (length (m_blockSums idx) - 1)"
  shows "b < nblocks (length (records idx))"
    and "int (lines_before (heights idx) (b * kBlockSize)) \<le> line"
    and "line < int (lines_before (heights idx) (Suc b * kBlockSize))"
proof -
  let ?hs = "heights idx" and ?n = "length (records idx)"
  let ?P = "\<lambda>mid. int (m_blockSums idx ! mid) \<le> line"
  have top: "length (m_blockSums idx) - 1 = nblocks ?n" using ok by (simp add: sums_ok_def)
  have nth: "m_blockSums idx ! j = lines_before ?hs (j * kBlockSize)" if "j \<le> nblocks ?n" for j
    using ok sums_spec_nth [of j ?hs] that by (simp add: sums_ok_def)
  have down: "?P i" if "i \<le> j" "j \<le> nblocks ?n" "?P j" for i j
    using that nth [of i] nth [of j]
      lines_before_mono [of "i * kBlockSize" "j * kBlockSize" ?hs] by simp
  have b': "b \<le> nblocks ?n" "?P b" "\<And>j. b < j \<Longrightarrow> j \<le> nblocks ?n \<Longrightarrow> \<not> ?P j"
    using search_last_correct [of 0 "nblocks ?n" ?P, OF _ _ down] lo nth [of 0] b top by auto
  have full: "?n \<le> nblocks ?n * kBlockSize"
    using less_nblocks [of "nblocks ?n" ?n] by simp
  show blt: "b < nblocks ?n"
  proof (rule ccontr)
    assume "\<not> b < nblocks ?n"
    with b'(1) have "b = nblocks ?n" by simp
    with b'(2) nth [of "nblocks ?n"] hi full show False by (simp add: lines_before_all)
  qed
  show "int (lines_before ?hs (b * kBlockSize)) \<le> line"
    using b'(2) nth [OF b'(1)] by simp
  show "line < int (lines_before ?hs (Suc b * kBlockSize))"
    using b'(3) [of "Suc b"] nth [of "Suc b"] blt by (simp add: Suc_le_eq)
qed

lemma recordAtLine_spec:
  assumes ok: "sums_ok idx" and lo: "0 \<le> line" and hi: "line < int (sum_list (heights idx))"
  shows "\<exists>r < length (records idx). recordAtLine idx line = int r \<and>
     int (lines_before (heights idx) r) \<le> line \<and> line < int (lines_before (heights idx) (Suc r))"
proof -
  let ?hs = "heights idx" and ?n = "length (records idx)"
  define b where "b = search_last (\<lambda>mid. int (m_blockSums idx ! mid) \<le> line) 0 (length (m_blockSums idx) - 1)"
  note b = search_block_spec [OF ok lo hi b_def]
  have n: "?n \<noteq> 0" using hi lo by (cases "records idx") auto
  define e where "e = min (b * kBlockSize + kBlockSize) ?n"
  have ie: "b * kBlockSize \<le> e" "e \<le> length ?hs" using b(1) by (auto simp: e_def less_nblocks)
  have "line < int (lines_before ?hs e)"
  proof (cases "Suc b * kBlockSize \<le> ?n")
    case True
    then have "e = Suc b * kBlockSize" by (simp add: e_def)
    with b(3) show ?thesis by simp
  next
    case False
    then have "e = ?n" by (simp add: e_def)
    with hi show ?thesis by (simp add: lines_before_all)
  qed
  from scan_block_spec [OF ie b(2) this] obtain r where r: "r < e"
    "scan_lines (take (e - b * kBlockSize) (drop (b * kBlockSize) ?hs)) line
       (int (lines_before ?hs (b * kBlockSize))) (b * kBlockSize) = Some r"
    "int (lines_before ?hs r) \<le> line" "line < int (lines_before ?hs (Suc r))" by blast
  have "m_blockSums idx ! b = lines_before ?hs (b * kBlockSize)"
    using ok sums_spec_nth [of b ?hs] b(1) by (simp add: sums_ok_def)
  with n lo b(1) r(2) have "recordAtLine idx line = int r"
    unfolding recordAtLine_def Let_def b_def [symmetric] e_def [symmetric] nblocks_def [symmetric]
    by simp
  with r ie(2) show ?thesis by auto
qed

lemma recordAtLine_high:
  assumes "sums_ok idx" and "records idx \<noteq> []" and "int (sum_list (heights idx)) \<le> line"
  shows "recordAtLine idx line = int (length (records idx)) - 1"
proof -
  let ?n = "length (records idx)"
  let ?P = "\<lambda>mid. int (m_blockSums idx ! mid) \<le> line"
  have top: "length (m_blockSums idx) - 1 = nblocks ?n" using assms(1) by (simp add: sums_ok_def)
  have all: "?P j" if "j \<le> nblocks ?n" for j
    using assms(1,3) sums_spec_nth [of j "heights idx"] that
      lines_before_mono [of "j * kBlockSize" "max (j * kBlockSize) ?n" "heights idx"]
    by (simp add: sums_ok_def lines_before_all)
  have "search_last ?P 0 (nblocks ?n) = nblocks ?n"
  proof -
    have down: "?P i" if "i \<le> j" "j \<le> nblocks ?n" for i j using all that by simp
    have "search_last ?P 0 (nblocks ?n) \<le> nblocks ?n"
      "\<forall>j. search_last ?P 0 (nblocks ?n) < j \<and> j \<le> nblocks ?n \<longrightarrow> \<not> ?P j"
      using search_last_correct [of 0 "nblocks ?n" ?P, OF _ all down] by auto
    with all [OF le_refl] show ?thesis by (meson le_refl le_neq_implies_less)
  qed
  moreover have "0 \<le> line" using assms(3) by linarith
  ultimately show ?thesis
    using assms(2) unfolding recordAtLine_def Let_def nblocks_def [symmetric] top by simp
qed

interpretation rix: line_geometry sums_ok "\<lambda>idx. int (length (records idx))"
  "\<lambda>idx. int (totalLines idx)" firstLineOfRecord recordAtLine
proof
  fix idx :: record_index and r s line :: int
  assume ok: "sums_ok idx"
  show "firstLineOfRecord idx 0 = 0" by (simp add: firstLineOfRecord_def)
  show "firstLineOfRecord idx (int (length (records idx))) = int (totalLines idx)"
    using firstLine_spec [OF ok] by (simp add: totalLines_spec [OF ok] lines_before_all)
  show "firstLineOfRecord idx r \<le> firstLineOfRecord idx s"
    if "0 \<le> r" "r \<le> s" "s \<le> int (length (records idx))"
    using that firstLine_spec [OF ok, of r] firstLine_spec [OF ok, of s]
    by (simp add: lines_before_mono nat_mono)
  assume "0 \<le> line" "line < int (totalLines idx)"
  then obtain k where k: "k < length (records idx)" "recordAtLine idx line = int k"
    "int (lines_before (heights idx) k) \<le> line" "line < int (lines_before (heights idx) (Suc k))"
    using recordAtLine_spec [OF ok, of line] totalLines_spec [OF ok] by auto
  then show "0 \<le> recordAtLine idx line \<and> recordAtLine idx line < int (length (records idx))"
    by simp
  show "firstLineOfRecord idx (recordAtLine idx line) \<le> line \<and>
      line < firstLineOfRecord idx (recordAtLine idx line + 1)"
    using k firstLine_spec [OF ok, of "int k"] firstLine_spec [OF ok, of "int k + 1"]
    by (simp add: nat_add_distrib)
qed

section \<open>Properties\<close>

text \<open>With up-to-date sums, the record under a display line inside
  the log is the one whose span of display lines, by plain summation of the capped heights,
  holds that line; a line before the log gives record 0 and one past it the last record.\<close>

theorem blocks_line_lookup:
  assumes "sums_ok idx" and "records idx \<noteq> []"
  shows "(line < 0 \<longrightarrow> recordAtLine idx line = 0) \<and>
    (0 \<le> line \<and> line < int (sum_list (heights idx)) \<longrightarrow>
       (\<exists>r < length (records idx). recordAtLine idx line = int r \<and>
          int (sum_list (take r (heights idx))) \<le> line \<and>
          line < int (sum_list (take (Suc r) (heights idx))))) \<and>
    (int (sum_list (heights idx)) \<le> line \<longrightarrow>
       recordAtLine idx line = int (length (records idx)) - 1)"
  using recordAtLine_spec [OF assms(1), of line] recordAtLine_high [OF assms, of line] assms(2)
  by (auto simp: lines_before_def recordAtLine_def [of idx line])

definition sample_record :: "16 word \<Rightarrow> log_record" where
  "sample_record n = \<lparr>offset = 0, timestamp = kNoTimestamp, byteLength = 10, loggerId = 0,
     threadId = 0, lineCount = n, prio = Unknown\<rparr>"

definition sample_index :: record_index where
  "sample_index = rebuildBlockSums
     (record_index_empty\<lparr>records := [sample_record 1, sample_record 300, sample_record 2]\<rparr>)"

lemma sample_index_ok: "sums_ok sample_index" "records sample_index \<noteq> []"
  by (simp_all add: sample_index_def sums_ok_rebuild) (simp add: rebuildBlockSums_def)

theorem blocks_line_lookup_witness:
  "sums_ok sample_index \<and>
   (\<exists>r < length (records sample_index). recordAtLine sample_index 100 = int r \<and>
      int (sum_list (take r (heights sample_index))) \<le> 100 \<and>
      100 < int (sum_list (take (Suc r) (heights sample_index))))"
proof -
  have "(100 :: int) < int (sum_list (heights sample_index))"
    by (simp add: sample_index_def rebuildBlockSums_def record_index_empty_def sample_record_def
        displayLines_def kDisplayLineCap_def)
  with blocks_line_lookup [OF sample_index_ok, of 100] sample_index_ok(1) show ?thesis by simp
qed

text \<open>Repairing the sums in place after a live append gives
  exactly the index a full rebuild gives, when the sums described the first records before
  and the records in front of \<open>validCount\<close> are unchanged, however the tail moved.\<close>

theorem blocks_extend_is_rebuild:
  assumes "sums_ok old" and "m_blockSums idx = m_blockSums old"
    and "0 \<le> validCount" and "validCount \<le> int (length (records old))"
    and "validCount \<le> int (length (records idx))"
    and "take (nat validCount) (records idx) = take (nat validCount) (records old)"
  shows "extendBlockSums idx validCount = rebuildBlockSums idx"
proof -
  have "sums_ok (extendBlockSums idx validCount)"
  proof (rule sums_ok_extend)
    show "m_blockSums idx = sums_spec (heights old)"
      using assms(1,2) by (simp add: sums_ok_def)
    show "nat validCount = nat (min (max validCount 0) (int (length (records idx))))"
      using assms(3,5) by simp
    show "nat validCount \<le> length (heights old)" using assms(4) by simp
    show "take (nat validCount) (heights idx) = take (nat validCount) (heights old)"
      using assms(6) by (simp add: take_map)
  qed
  then have "m_blockSums (extendBlockSums idx validCount) = block_sums (heights idx) 0 0"
    unfolding sums_ok_def block_sums_all
    by (simp add: extendBlockSums_def rebuildBlockSums_def Let_def)
  moreover have "extendBlockSums idx validCount =
      idx\<lparr>m_blockSums := m_blockSums (extendBlockSums idx validCount)\<rparr>"
    by (simp add: extendBlockSums_def rebuildBlockSums_def Let_def)
  ultimately show ?thesis by (simp only: rebuildBlockSums_def)
qed

theorem blocks_extend_is_rebuild_witness:
  "extendBlockSums (sample_index\<lparr>records := records sample_index @ [sample_record 7]\<rparr>) 3 =
   rebuildBlockSums (sample_index\<lparr>records := records sample_index @ [sample_record 7]\<rparr>)"
  by (rule blocks_extend_is_rebuild [of sample_index])
     (simp_all add: sample_index_ok, simp_all add: sample_index_def rebuildBlockSums_def)

text \<open>Scrolling to a record and asking which record is there
  gives the record back, for every record that has at least one display line.\<close>

theorem blocks_navigation_roundtrip:
  assumes "sums_ok idx" and "r < length (records idx)" and "lineCount (records idx ! r) \<noteq> 0"
  shows "recordAtLine idx (firstLineOfRecord idx (int r)) = int r"
proof (rule rix.at_first_inverse [OF assms(1)])
  have "0 < displayLines (records idx ! r)"
    using assms(3) by (simp add: displayLines_def kDisplayLineCap_def unat_gt_0)
  then show "firstLineOfRecord idx (int r) < firstLineOfRecord idx (int r + 1)"
    using assms(2) firstLine_spec [OF assms(1), of "int r"] firstLine_spec [OF assms(1), of "int r + 1"]
    by (simp add: nat_add_distrib lines_before_Suc)
qed (use assms(2) in auto)

theorem blocks_navigation_roundtrip_witness:
  "recordAtLine sample_index (firstLineOfRecord sample_index (int 2)) = int 2"
  by (rule blocks_navigation_roundtrip)
     (simp_all add: sample_index_ok, simp_all add: sample_index_def rebuildBlockSums_def sample_record_def)

end
