(* ===== verification/Decode.thy ===== *)
theory Decode
  imports Prelude
begin

text \<open>
  \<open>src/core/Decoder.h/.cpp\<close> and \<open>Encoding.h\<close>: which encoding a file is in, where a
  line ends, and the text of a line. Qt's converters are parameters: \<open>utf8_error\<close> is
  \<open>QStringDecoder::hasError\<close> after a stateless UTF-8 decode of the bytes, and \<open>conv\<close>
  is the stateless decoder of an encoding.
\<close>

section \<open>Choosing the encoding\<close>

datatype encoding = Auto | Utf8 | Utf16LE | Utf16BE | System

text \<open>The \<open>Resolved\<close> triple: encoding, BOM length, unit size.\<close>

type_synonym resolved = "encoding \<times> nat \<times> nat"

definition resolveForced :: "encoding \<Rightarrow> bytes \<Rightarrow> resolved" where
  "resolveForced e p =
     (case e of
        Utf8 \<Rightarrow>
          (if 3 \<le> length p \<and> p ! 0 = 0xEF \<and> p ! 1 = 0xBB \<and> p ! 2 = 0xBF then (Utf8, 3, 1)
           else (Utf8, 0, 1))
      | Utf16LE \<Rightarrow>
          (if 2 \<le> length p \<and> p ! 0 = 0xFF \<and> p ! 1 = 0xFE then (Utf16LE, 2, 2)
           else (Utf16LE, 0, 2))
      | Utf16BE \<Rightarrow>
          (if 2 \<le> length p \<and> p ! 0 = 0xFE \<and> p ! 1 = 0xFF then (Utf16BE, 2, 2)
           else (Utf16BE, 0, 2))
      | System \<Rightarrow> (System, 0, 1)
      | Auto \<Rightarrow> (Utf8, 0, 1))"

text \<open>
  \<open>completeUtf8Prefix\<close>: the backward walk over continuation bytes is \<open>back_over\<close>,
  which returns \<open>i + 1\<close> (0 for the code's \<open>i < 0\<close>).
\<close>

definition is_continuation :: "byte \<Rightarrow> bool" where
  "is_continuation b = (b AND 0xC0 = 0x80)"

fun back_over :: "bytes \<Rightarrow> nat \<Rightarrow> nat \<Rightarrow> nat" where
  "back_over p n 0 = 0"
| "back_over p n (Suc i) =
     (if n - i \<le> 3 \<and> is_continuation (p ! i) then back_over p n i else Suc i)"

definition utf8_need :: "byte \<Rightarrow> nat" where
  "utf8_need b =
     (if b < 0x80 then 1
      else if b AND 0xE0 = 0xC0 then 2
      else if b AND 0xF0 = 0xE0 then 3
      else if b AND 0xF8 = 0xF0 then 4
      else 0)"

definition completeUtf8Prefix :: "bytes \<Rightarrow> nat" where
  "completeUtf8Prefix p =
     (let n = length p in
      case back_over p n n of
        0 \<Rightarrow> n
      | Suc i \<Rightarrow>
          (let need = utf8_need (p ! i) in
           if need = 0 then n else if n < i + need then i else n))"

fun count_nuls :: "bytes \<Rightarrow> nat \<Rightarrow> nat \<times> nat" where
  "count_nuls [] i = (0, 0)"
| "count_nuls (b # bs) i =
     (let (e, od) = count_nuls bs (Suc i) in
      if b = 0 then (if i mod 2 = 0 then (Suc e, od) else (e, Suc od)) else (e, od))"

text \<open>
  The share of NUL bytes is compared with 0.20 in double precision. Both are correctly
  rounded quotients of small integers, so for every sample shorter than \<open>2 ^ 50\<close> bytes
  the comparison is the exact one below.
\<close>

definition sniff :: "(bytes \<Rightarrow> bool) \<Rightarrow> bytes \<Rightarrow> resolved" where
  "sniff utf8_error p =
     (let n = length p; (nulEven, nulOdd) = count_nuls p 0 in
      if 3 \<le> n \<and> p ! 0 = 0xEF \<and> p ! 1 = 0xBB \<and> p ! 2 = 0xBF then (Utf8, 3, 1)
      else if 2 \<le> n \<and> p ! 0 = 0xFF \<and> p ! 1 = 0xFE then (Utf16LE, 2, 2)
      else if 2 \<le> n \<and> p ! 0 = 0xFE \<and> p ! 1 = 0xFF then (Utf16BE, 2, 2)
      else if 0 < n \<and> n < 5 * (nulEven + nulOdd) then
        (if nulEven \<le> nulOdd then (Utf16LE, 0, 2) else (Utf16BE, 0, 2))
      else if utf8_error (take (completeUtf8Prefix p) p) then (System, 0, 1)
      else (Utf8, 0, 1))"

record decoder =
  m_requested :: encoding
  m_resolved :: encoding
  m_bomLength :: nat
  m_unitSize :: nat

definition detect :: "(bytes \<Rightarrow> bool) \<Rightarrow> bytes \<Rightarrow> encoding \<Rightarrow> decoder" where
  "detect utf8_error sample requested =
     (let (e, bom, unit) =
        (if requested = Auto then sniff utf8_error sample else resolveForced requested sample)
      in \<lparr>m_requested = requested, m_resolved = e, m_bomLength = bom, m_unitSize = unit\<rparr>)"

section \<open>Lines\<close>

text \<open>The two scans. Each returns the index just past the newline unit, if there is one.\<close>

fun find_lf :: "bytes \<Rightarrow> nat \<Rightarrow> nat option" where
  "find_lf [] i = None"
| "find_lf (b # bs) i = (if b = 0x0A then Some (i + 1) else find_lf bs (i + 1))"

fun find_lf2 :: "byte \<Rightarrow> byte \<Rightarrow> bytes \<Rightarrow> nat \<Rightarrow> nat option" where
  "find_lf2 u v (a # b # bs) i =
     (if a = u \<and> b = v then Some (i + 2) else find_lf2 u v bs (i + 2))"
| "find_lf2 u v bs i = None"

definition find_newline :: "decoder \<Rightarrow> bytes \<Rightarrow> nat \<Rightarrow> nat option" where
  "find_newline d bs i =
     (if m_unitSize d = 1 then find_lf bs i
      else if m_resolved d = Utf16LE then find_lf2 0x0A 0x00 bs i
      else find_lf2 0x00 0x0A bs i)"

text \<open>\<open>lineEnd\<close> returns the index and sets \<open>*hadNewline\<close>: the pair.\<close>

definition lineEnd :: "decoder \<Rightarrow> bytes \<Rightarrow> nat \<Rightarrow> nat \<times> bool" where
  "lineEnd d buf from =
     (case find_newline d (drop from buf) from of
        Some e \<Rightarrow> (e, True)
      | None \<Rightarrow> (length buf, False))"

definition decode :: "(encoding \<Rightarrow> bytes \<Rightarrow> string) \<Rightarrow> decoder \<Rightarrow> bytes \<Rightarrow> string" where
  "decode conv d content =
     conv (case m_resolved d of Utf16LE \<Rightarrow> Utf16LE | Utf16BE \<Rightarrow> Utf16BE | System \<Rightarrow> System
           | Utf8 \<Rightarrow> Utf8 | Auto \<Rightarrow> Utf8) content"

definition decodeLine :: "(encoding \<Rightarrow> bytes \<Rightarrow> string) \<Rightarrow> decoder \<Rightarrow> bytes \<Rightarrow> string" where
  "decodeLine conv d content =
     (let text = decode conv d content in
      if text \<noteq> [] \<and> last text = CHR 0x0D then butlast text else text)"

section \<open>The interface of a line splitter\<close>

text \<open>
  What the indexer needs of \<open>lineEnd\<close> to read a file in windows: it makes progress,
  stops at the end of the buffer when there is no newline, depends only on the bytes from
  \<open>from\<close> on, and does not move a newline it has found when further bytes follow.
\<close>

locale line_splitter =
  fixes lend :: "bytes \<Rightarrow> nat \<Rightarrow> nat \<times> bool"
  assumes progress: "from < length buf \<Longrightarrow> from < fst (lend buf from) \<and> fst (lend buf from) \<le> length buf"
    and no_newline: "\<not> snd (lend buf from) \<Longrightarrow> fst (lend buf from) = length buf"
    and shift: "k \<le> length buf \<Longrightarrow>
      lend buf (k + from) = (k + fst (lend (drop k buf) from), snd (lend (drop k buf) from))"
    and extend: "snd (lend buf from) \<Longrightarrow> lend (buf @ ext) from = lend buf from"
begin

text \<open>A window that ends in a newline, or a whole buffer, is split as the file is.\<close>

lemma window:
  assumes "snd (lend (take n buf) from)"
  shows "lend buf from = lend (take n buf) from"
  using extend [OF assms, of "drop n buf"] by simp

end

lemma find_lf_bounds: "find_lf bs i = Some e \<Longrightarrow> i < e \<and> e \<le> i + length bs"
  by (induction bs arbitrary: i) (fastforce split: if_splits)+

lemma find_lf2_bounds: "find_lf2 u v bs i = Some e \<Longrightarrow> i < e \<and> e \<le> i + length bs"
  by (induction u v bs i rule: find_lf2.induct) (fastforce split: if_splits)+

lemma find_lf_shift: "find_lf bs (k + i) = map_option ((+) k) (find_lf bs i)"
proof (induction bs arbitrary: i)
  case (Cons b bs)
  then show ?case using Cons.IH [of "i + 1"] by (simp add: add.assoc)
qed simp

lemma find_lf2_shift: "find_lf2 u v bs (k + i) = map_option ((+) k) (find_lf2 u v bs i)"
  by (induction u v bs i rule: find_lf2.induct) (auto simp add: add.assoc)

lemma find_lf_extend: "find_lf bs i = Some e \<Longrightarrow> find_lf (bs @ ext) i = Some e"
  by (induction bs arbitrary: i) (auto split: if_splits)

lemma find_lf2_extend: "find_lf2 u v bs i = Some e \<Longrightarrow> find_lf2 u v (bs @ ext) i = Some e"
  by (induction u v bs i rule: find_lf2.induct) (auto split: if_splits)

lemma find_newline_bounds: "find_newline d bs i = Some e \<Longrightarrow> i < e \<and> e \<le> i + length bs"
  by (auto simp: find_newline_def split: if_splits dest: find_lf_bounds find_lf2_bounds)

lemma find_newline_shift: "find_newline d bs (k + i) = map_option ((+) k) (find_newline d bs i)"
  by (simp add: find_newline_def find_lf_shift find_lf2_shift)

lemma find_newline_extend:
  "find_newline d bs i = Some e \<Longrightarrow> find_newline d (bs @ ext) i = Some e"
  by (auto simp: find_newline_def find_lf_extend find_lf2_extend split: if_splits)

lemma find_newline_Nil [simp]: "find_newline d [] i = None"
  by (simp add: find_newline_def)

interpretation dec: line_splitter "lineEnd d" for d
proof
  fix buf ext :: bytes and "from" k :: nat
  show "from < length buf \<Longrightarrow> from < fst (lineEnd d buf from) \<and> fst (lineEnd d buf from) \<le> length buf"
    by (auto simp: lineEnd_def split: option.split dest!: find_newline_bounds)
  show "\<not> snd (lineEnd d buf from) \<Longrightarrow> fst (lineEnd d buf from) = length buf"
    by (auto simp: lineEnd_def split: option.splits)
  show "k \<le> length buf \<Longrightarrow> lineEnd d buf (k + from) =
      (k + fst (lineEnd d (drop k buf) from), snd (lineEnd d (drop k buf) from))"
    using find_newline_shift [of d "drop (k + from) buf" k "from"]
    by (simp add: lineEnd_def add.commute split: option.split)
  show "snd (lineEnd d buf from) \<Longrightarrow> lineEnd d (buf @ ext) from = lineEnd d buf from"
  proof -
    assume "snd (lineEnd d buf from)"
    then obtain e where e: "find_newline d (drop from buf) from = Some e"
      by (auto simp: lineEnd_def split: option.splits)
    then have "from \<le> length buf" by (cases "from \<le> length buf") auto
    with find_newline_extend [OF e, of ext] e show ?thesis by (simp add: lineEnd_def)
  qed
qed

section \<open>Where the newline is\<close>

text \<open>A newline code unit at index \<open>i\<close>, in the width and byte order of the decoder.\<close>

definition unit_width :: "decoder \<Rightarrow> nat" where
  "unit_width d = (if m_unitSize d = 1 then 1 else 2)"

definition newline_at :: "decoder \<Rightarrow> bytes \<Rightarrow> nat \<Rightarrow> bool" where
  "newline_at d buf i =
     (if m_unitSize d = 1 then i < length buf \<and> buf ! i = 0x0A
      else if m_resolved d = Utf16LE then
        Suc i < length buf \<and> buf ! i = 0x0A \<and> buf ! Suc i = 0x00
      else Suc i < length buf \<and> buf ! i = 0x00 \<and> buf ! Suc i = 0x0A)"

lemma find_lf_Some:
  "find_lf bs i = Some e \<Longrightarrow>
     \<exists>k < length bs. e = i + Suc k \<and> bs ! k = 0x0A \<and> (\<forall>j < k. bs ! j \<noteq> 0x0A)"
proof (induction bs arbitrary: i)
  case (Cons b bs)
  show ?case
  proof (cases "b = 0x0A")
    case False
    with Cons.prems Cons.IH [of "i + 1"] obtain k where
      "k < length bs" "e = i + 1 + Suc k" "bs ! k = 0x0A" "\<forall>j < k. bs ! j \<noteq> 0x0A" by auto
    with False show ?thesis by (intro exI [of _ "Suc k"]) (simp add: All_less_Suc2)
  qed (use Cons.prems in auto)
qed simp

lemma find_lf_None: "find_lf bs i = None \<Longrightarrow> j < length bs \<Longrightarrow> bs ! j \<noteq> 0x0A"
  by (induction bs arbitrary: i j) (auto simp: nth_Cons split: if_splits nat.splits)

lemma find_lf2_Some:
  "find_lf2 u v bs i = Some e \<Longrightarrow>
     \<exists>k. Suc (k * 2) < length bs \<and> e = i + Suc k * 2 \<and> bs ! (k * 2) = u \<and> bs ! Suc (k * 2) = v \<and>
       (\<forall>j < k. \<not> (bs ! (j * 2) = u \<and> bs ! Suc (j * 2) = v))"
proof (induction u v bs i rule: find_lf2.induct)
  case (1 u v a b bs i)
  show ?case
  proof (cases "a = u \<and> b = v")
    case no: False
    with "1.prems" "1.IH" [OF no] obtain k where "Suc (k * 2) < length bs" "e = i + 2 + Suc k * 2"
      "bs ! (k * 2) = u" "bs ! Suc (k * 2) = v"
      "\<forall>j < k. \<not> (bs ! (j * 2) = u \<and> bs ! Suc (j * 2) = v)" by auto
    with no show ?thesis by (intro exI [of _ "Suc k"]) (simp add: All_less_Suc2)
  next
    case yes: True
    with "1.prems" show ?thesis by (intro exI [of _ 0]) simp
  qed
qed simp_all

lemma find_lf2_None:
  "find_lf2 u v bs i = None \<Longrightarrow> Suc (j * 2) < length bs \<Longrightarrow> \<not> (bs ! (j * 2) = u \<and> bs ! Suc (j * 2) = v)"
proof (induction u v bs i arbitrary: j rule: find_lf2.induct)
  case (1 u v a b bs i)
  then have no: "\<not> (a = u \<and> b = v)" and rest: "find_lf2 u v bs (i + 2) = None"
    by (auto split: if_splits)
  show ?case
  proof (cases j)
    case 0
    with no show ?thesis by simp
  next
    case (Suc k)
    with "1.IH" [OF no rest, of k] "1.prems"(2) show ?thesis by simp
  qed
qed simp_all

lemma find_newline_Some:
  assumes "find_newline d bs i = Some e"
  shows "\<exists>k. e = i + Suc k * unit_width d \<and> newline_at d bs (k * unit_width d) \<and>
     (\<forall>j < k. \<not> newline_at d bs (j * unit_width d))"
proof (cases "m_unitSize d = 1")
  case True
  with assms find_lf_Some [of bs i e] show ?thesis
    by (auto simp: find_newline_def unit_width_def newline_at_def)
next
  case False
  then have w: "unit_width d = 2" by (simp add: unit_width_def)
  show ?thesis
  proof (cases "m_resolved d = Utf16LE")
    case True
    with assms False have "find_lf2 0x0A 0 bs i = Some e" by (simp add: find_newline_def)
    from find_lf2_Some [OF this] True False show ?thesis
      unfolding w by (auto simp: newline_at_def)
  next
    case be: False
    with assms False have "find_lf2 0 0x0A bs i = Some e" by (simp add: find_newline_def)
    from find_lf2_Some [OF this] be False show ?thesis
      unfolding w by (auto simp: newline_at_def)
  qed
qed

lemma find_newline_None:
  assumes "find_newline d bs i = None"
  shows "\<not> newline_at d bs (j * unit_width d)"
proof (cases "m_unitSize d = 1")
  case True
  with assms find_lf_None [of bs i j] show ?thesis
    by (auto simp: find_newline_def unit_width_def newline_at_def)
next
  case False
  then have w: "unit_width d = 2" by (simp add: unit_width_def)
  show ?thesis
    using assms False find_lf2_None [of "0x0A" 0 bs i j] find_lf2_None [of 0 "0x0A" bs i j]
    unfolding w by (auto simp: find_newline_def newline_at_def split: if_splits)
qed

lemma newline_at_drop:
  "from \<le> length buf \<Longrightarrow> newline_at d (drop from buf) i = newline_at d buf (from + i)"
  by (auto simp: newline_at_def less_diff_conv add.commute)

lemma completeUtf8Prefix_le: "completeUtf8Prefix p \<le> length p"
proof (cases "back_over p (length p) (length p)")
  case (Suc i)
  have "back_over p n m \<le> m" for n m by (induction m) auto
  from this [of "length p" "length p"] Suc show ?thesis
    by (simp add: completeUtf8Prefix_def Let_def)
qed (simp add: completeUtf8Prefix_def)

lemma lead_not_continuation: "utf8_need b \<noteq> 0 \<Longrightarrow> \<not> is_continuation b"
proof
  assume need: "utf8_need b \<noteq> 0" and "is_continuation b"
  then have c: "b AND 0xC0 = 0x80" by (simp add: is_continuation_def)
  have bit6: "\<not> bit b 6" and bit7: "bit b 7"
    using arg_cong [OF c, of "\<lambda>w. bit w 6"] arg_cong [OF c, of "\<lambda>w. bit w 7"]
    by (simp_all add: bit_simps bit_numeral_rec)
  have "\<not> b < 0x80"
  proof
    assume "b < 0x80"
    then have "uint b < 128" by (simp add: word_less_def)
    then have "\<not> bit (uint b) 7" by (simp add: bit_iff_odd)
    with bit7 show False by (simp add: bit_simps)
  qed
  moreover have "b AND m \<noteq> v" if "bit m 6" "bit v 6" for m v
    using that bit6 by (metis bit_and_iff)
  then have "b AND 0xE0 \<noteq> 0xC0" "b AND 0xF0 \<noteq> 0xE0" "b AND 0xF8 \<noteq> 0xF0"
    by (simp_all add: bit_numeral_rec)
  ultimately show False using need by (simp add: utf8_need_def)
qed

lemma back_over_continuations:
  assumes "list_all is_continuation cs" and "length cs \<le> 3" and "\<not> is_continuation lead"
    and "k \<le> length cs"
  shows "back_over (q @ lead # cs) (length (q @ lead # cs)) (Suc (length q) + k) = Suc (length q)"
  using assms(4)
proof (induction k)
  case 0
  with assms(3) show ?case by (simp add: nth_append)
next
  case (Suc k)
  then have "is_continuation (cs ! k)" using assms(1) by (simp add: list_all_length)
  with Suc assms(2) show ?case by (simp add: nth_append)
qed

section \<open>Properties\<close>

text \<open>The end of a line is the first newline code unit at a
  code-unit boundary counted from the start of the line, never a 0x0A byte inside an
  unrelated UTF-16 unit; without one it is the end of the buffer.\<close>

theorem line_end_first_newline:
  assumes "from \<le> length buf"
  shows "case lineEnd d buf from of
      (e, True) \<Rightarrow> (\<exists>k. e = from + Suc k * unit_width d \<and>
          newline_at d buf (from + k * unit_width d) \<and>
          (\<forall>j < k. \<not> newline_at d buf (from + j * unit_width d)))
    | (e, False) \<Rightarrow> e = length buf \<and> (\<forall>j. \<not> newline_at d buf (from + j * unit_width d))"
proof (cases "find_newline d (drop from buf) from")
  case None
  with find_newline_None [OF None] newline_at_drop [OF assms] show ?thesis
    by (simp add: lineEnd_def)
next
  case (Some e)
  with find_newline_Some [OF Some] newline_at_drop [OF assms] show ?thesis
    by (simp add: lineEnd_def)
qed

definition utf16le_decoder :: decoder where
  "utf16le_decoder = \<lparr>m_requested = Auto, m_resolved = Utf16LE, m_bomLength = 0, m_unitSize = 2\<rparr>"

theorem line_end_first_newline_witness:
  "lineEnd utf16le_decoder [65, 0, 10, 10, 10, 0] 0 = (6, True) \<and>
   (\<exists>k. 6 = 0 + Suc k * unit_width utf16le_decoder \<and>
      newline_at utf16le_decoder [65, 0, 10, 10, 10, 0] (0 + k * unit_width utf16le_decoder))"
proof -
  have "lineEnd utf16le_decoder [65, 0, 10, 10, 10, 0] 0 = (6, True)"
    by (simp add: lineEnd_def find_newline_def utf16le_decoder_def)
  with line_end_first_newline [of 0 "[65, 0, 10, 10, 10, 0]" utf16le_decoder] show ?thesis
    by auto
qed

text \<open>Of a sample that ends inside a multi-byte UTF-8
  character exactly the dangling head of that character is dropped before validation, and
  of one that ends on a complete character nothing is, whatever precedes it.\<close>

theorem utf8_cut_trimmed_exactly:
  assumes "utf8_need lead \<noteq> 0" and "list_all is_continuation cs" and "length cs < utf8_need lead"
  shows "completeUtf8Prefix (q @ lead # cs) =
    (if Suc (length cs) < utf8_need lead then length q else length (q @ lead # cs))"
proof -
  have "length cs \<le> 3" using assms(3) by (auto simp: utf8_need_def split: if_splits)
  from back_over_continuations [OF assms(2) this lead_not_continuation [OF assms(1)] le_refl, of q]
  have "back_over (q @ lead # cs) (length (q @ lead # cs)) (length (q @ lead # cs)) = Suc (length q)"
    by simp
  with assms(1) show ?thesis
    unfolding completeUtf8Prefix_def Let_def by (simp add: nth_append)
qed

theorem utf8_cut_trimmed_exactly_witness:
  "completeUtf8Prefix ([65] @ 0xE2 # [0x82]) =
     (if Suc (length [0x82 :: byte]) < utf8_need 0xE2 then length [65 :: byte]
      else length ([65] @ 0xE2 # [0x82 :: byte]))"
  by (rule utf8_cut_trimmed_exactly) (simp_all add: utf8_need_def is_continuation_def)

definition resolved_ok :: "bytes \<Rightarrow> resolved \<Rightarrow> bool" where
  "resolved_ok p r = (case r of (e, bom, unit) \<Rightarrow> e \<noteq> Auto \<and>
     unit = (if e = Utf16LE \<or> e = Utf16BE then 2 else 1) \<and> bom \<le> length p \<and> unit dvd bom)"

lemma sniff_ok: "resolved_ok p (sniff utf8_error p)"
  by (simp add: resolved_ok_def sniff_def Let_def split: prod.split)

lemma resolveForced_ok: "resolved_ok p (resolveForced e p) \<and> (e = Auto \<or> fst (resolveForced e p) = e)"
  by (cases e) (simp_all add: resolved_ok_def resolveForced_def)

text \<open>C33: detect_resolves. Detection always ends in a concrete encoding whose unit size fits
  it, with a BOM length that lies inside the sample and is a whole number of units; a forced
  encoding is never overruled.\<close>

theorem detect_resolves:
  "m_resolved (detect utf8_error sample e) \<noteq> Auto \<and>
   (e = Auto \<or> m_resolved (detect utf8_error sample e) = e) \<and>
   m_unitSize (detect utf8_error sample e) =
     (if m_resolved (detect utf8_error sample e) = Utf16LE \<or>
         m_resolved (detect utf8_error sample e) = Utf16BE then 2 else 1) \<and>
   m_bomLength (detect utf8_error sample e) \<le> length sample \<and>
   m_unitSize (detect utf8_error sample e) dvd m_bomLength (detect utf8_error sample e)"
  using sniff_ok [of sample utf8_error] resolveForced_ok [of sample e]
  by (auto simp: detect_def resolved_ok_def split: prod.splits if_splits)

lemma count_nuls_le:
  "0 \<notin> set cs \<Longrightarrow> i mod 2 = 0 \<Longrightarrow>
     count_nuls (concat (map (\<lambda>c. [c, 0]) cs)) i = (0, length cs)"
proof (induction cs arbitrary: i)
  case (Cons c cs)
  from Cons.prems(2) have "Suc (Suc i) mod 2 = 0" "Suc i mod 2 = 1" by presburger+
  with Cons show ?case by simp
qed simp

lemma count_nuls_be:
  "0 \<notin> set cs \<Longrightarrow> i mod 2 = 0 \<Longrightarrow>
     count_nuls (concat (map (\<lambda>c. [0, c]) cs)) i = (length cs, 0)"
proof (induction cs arbitrary: i)
  case (Cons c cs)
  from Cons.prems(2) have "Suc (Suc i) mod 2 = 0" "Suc i mod 2 = 1" by presburger+
  with Cons show ?case by simp
qed simp

text \<open>Text of one-byte characters written as UTF-16 with no BOM
  is recognised by the parity of its NUL bytes, in both byte orders.\<close>

theorem sniff_utf16_without_bom:
  assumes "cs \<noteq> []" and "0 \<notin> set cs"
  shows "m_resolved (detect utf8_error (concat (map (\<lambda>c. [c, 0]) cs)) Auto) = Utf16LE \<and>
         m_resolved (detect utf8_error (concat (map (\<lambda>c. [0, c]) cs)) Auto) = Utf16BE"
proof -
  have len: "length (concat (map (\<lambda>c. [c, 0]) cs)) = 2 * length cs"
    "length (concat (map (\<lambda>c. [0, c]) cs)) = 2 * length cs" by (induction cs) auto
  obtain c cs' where cs: "cs = c # cs'" using assms(1) by (cases cs) auto
  have head: "concat (map (\<lambda>c. [c, 0]) cs) ! 1 = 0" "concat (map (\<lambda>c. [0, c]) cs) ! 0 = 0"
    by (simp_all add: cs)
  show ?thesis
    using assms len head count_nuls_le [OF assms(2), of 0] count_nuls_be [OF assms(2), of 0]
    by (simp add: detect_def sniff_def)
qed

theorem sniff_utf16_without_bom_witness:
  "m_resolved (detect (\<lambda>_. False) (concat (map (\<lambda>c. [c, 0]) [73, 78, 70, 79])) Auto) = Utf16LE \<and>
   m_resolved (detect (\<lambda>_. False) (concat (map (\<lambda>c. [0, c]) [73, 78, 70, 79])) Auto) = Utf16BE"
  by (rule sniff_utf16_without_bom) simp_all

end
