(* ===== verification/Index.thy ===== *)
theory Index
  imports BlockIndex Decode
begin

text \<open>
  \<open>src/core/Indexer.h/.cpp\<close>: the single forward pass that turns a byte source into
  records. Parameters of the model, code that is not under \<open>src/\<close> or is another
  component's: the two regular expressions of the format (a match is the function from
  group numbers to captured text, \<open>[]\<close> for a group out of range, as Qt answers), the
  timestamp parser and the text converter. The source is a read function and a size.
\<close>

section \<open>The record-start rule\<close>

record scan_format =
  startPatternEmpty :: bool
  startIsValid :: bool
  startRe :: "string \<Rightarrow> (int \<Rightarrow> string) option"
  startCaptureCount :: int
  fullUsable :: bool
  fullRe :: "string \<Rightarrow> (int \<Rightarrow> string) option"
  dateGroup :: int
  prioGroup :: int
  loggerGroup :: int
  threadGroup :: int

definition haveFormat :: "scan_format \<Rightarrow> bool" where
  "haveFormat f = (\<not> startPatternEmpty f \<and> startIsValid f)"

definition startCaptures :: "scan_format \<Rightarrow> int" where
  "startCaptures f = (if haveFormat f then startCaptureCount f else 0)"

definition needsTailMatch :: "scan_format \<Rightarrow> bool" where
  "needsTailMatch f =
     (haveFormat f \<and> fullUsable f \<and>
      (startCaptures f < dateGroup f \<or> startCaptures f < prioGroup f \<or>
       startCaptures f < loggerGroup f \<or> startCaptures f < threadGroup f))"

text \<open>The match a group is read from: the full expression's for a group past the start
  expression's captures, when there is one.\<close>

definition captured :: "scan_format \<Rightarrow> string \<Rightarrow> (int \<Rightarrow> string) \<Rightarrow> int \<Rightarrow> string" where
  "captured f text m g =
     (case (if needsTailMatch f then fullRe f text else None) of
        Some tailm \<Rightarrow> (if startCaptures f < g then tailm g else m g)
      | None \<Rightarrow> m g)"

record scan_state =
  s_records :: "log_record list"
  s_loggers :: intern_table
  s_threads :: intern_table
  currentRecord :: int
  currentIsParsed :: bool

definition scan_start :: "log_record list \<Rightarrow> intern_table \<Rightarrow> intern_table \<Rightarrow> scan_state" where
  "scan_start recs lg th = \<lparr>s_records = recs, s_loggers = lg, s_threads = th,
     currentRecord = - 1, currentIsParsed = False\<rparr>"

definition clamp32 :: "nat \<Rightarrow> quint32" where
  "clamp32 n = of_nat (min n 4294967295)"

definition start_record ::
  "scan_format \<Rightarrow> (string \<Rightarrow> int) \<Rightarrow> scan_state \<Rightarrow> nat \<Rightarrow> nat \<Rightarrow> string \<Rightarrow> (int \<Rightarrow> string) \<Rightarrow> scan_state" where
  "start_record f parse st fileOffset byteLen text m =
     (let p = (if 0 < prioGroup f then parsePriority (captured f text m (prioGroup f)) else Unknown);
          (lg, lid) = (if 0 < loggerGroup f
                       then intern (s_loggers st) (captured f text m (loggerGroup f))
                       else (s_loggers st, 0));
          (th, tid) = (if 0 < threadGroup f
                       then intern (s_threads st) (captured f text m (threadGroup f))
                       else (s_threads st, 0));
          ts = (if 0 < dateGroup f then parse (captured f text m (dateGroup f)) else kNoTimestamp)
      in st\<lparr>s_records := s_records st @
               [\<lparr>offset = int fileOffset, timestamp = ts, byteLength = clamp32 byteLen,
                 loggerId = lid, threadId = tid, lineCount = 1, prio = p\<rparr>],
             s_loggers := lg, s_threads := th,
             currentRecord := int (length (s_records st)), currentIsParsed := True\<rparr>)"

definition continue_record :: "log_record \<Rightarrow> nat \<Rightarrow> log_record" where
  "continue_record r byteLen =
     r\<lparr>byteLength := clamp32 (unat (byteLength r) + byteLen),
       lineCount := (if lineCount r < kMaxLineCount then lineCount r + 1 else lineCount r)\<rparr>"

definition plain_record :: "nat \<Rightarrow> nat \<Rightarrow> log_record" where
  "plain_record fileOffset byteLen =
     \<lparr>offset = int fileOffset, timestamp = kNoTimestamp, byteLength = clamp32 byteLen,
      loggerId = 0, threadId = 0, lineCount = 1, prio = Unknown\<rparr>"

definition processLine ::
  "scan_format \<Rightarrow> (string \<Rightarrow> int) \<Rightarrow> scan_state \<Rightarrow> nat \<times> nat \<times> string \<Rightarrow> scan_state" where
  "processLine f parse st ln =
     (case ln of (fileOffset, byteLen, text) \<Rightarrow>
       (case (if haveFormat f then startRe f text else None) of
          Some m \<Rightarrow> start_record f parse st fileOffset byteLen text m
        | None \<Rightarrow>
            (if 0 \<le> currentRecord st \<and> currentIsParsed st then
               (let i = nat (currentRecord st)
                in st\<lparr>s_records := (s_records st)[i := continue_record (s_records st ! i) byteLen]\<rparr>)
             else
               st\<lparr>s_records := s_records st @ [plain_record fileOffset byteLen],
                  currentRecord := int (length (s_records st)), currentIsParsed := False\<rparr>)))"

section \<open>Reading in windows\<close>

text \<open>The line walk over one window: the spans \<open>(scan, end, hadNl)\<close> processed and where
  it stopped.\<close>

function line_walk :: "decoder \<Rightarrow> bytes \<Rightarrow> bool \<Rightarrow> nat \<Rightarrow> (nat \<times> nat \<times> bool) list \<times> nat" where
  "line_walk d buf atEof scan =
     (if scan < length buf then
        (let e = fst (lineEnd d buf scan); hadNl = snd (lineEnd d buf scan) in
         if \<not> hadNl \<and> \<not> atEof then ([], scan)
         else (let (ls, s) = line_walk d buf atEof e in ((scan, e, hadNl) # ls, s)))
      else ([], scan))"
  by pat_completeness auto
termination
  by (relation "measure (\<lambda>(d, buf, atEof, scan). length buf - scan)")
     (use dec.progress in \<open>auto simp: diff_less_mono2\<close>)

declare line_walk.simps [simp del]

text \<open>A span of the buffer at file position \<open>pos\<close> as the line handed to
  \<open>processLine\<close>: offset, byte length, and the text of the content without its newline.\<close>

definition line_of ::
  "(encoding \<Rightarrow> bytes \<Rightarrow> string) \<Rightarrow> decoder \<Rightarrow> bytes \<Rightarrow> nat \<Rightarrow> nat \<times> nat \<times> bool \<Rightarrow> nat \<times> nat \<times> string" where
  "line_of conv d buf pos sp =
     (case sp of (scan, e, hadNl) \<Rightarrow>
        (pos + scan, e - scan,
         decodeLine conv d
           (take ((e - scan) - (if hadNl then m_unitSize d else 0)) (drop scan buf))))"

text \<open>
  The inner loop: read at \<open>pos\<close>, walk, and double the request while the first line does
  not terminate in it. A request of no bytes is answered with an empty view.
\<close>

function read_window ::
  "(nat \<Rightarrow> nat \<Rightarrow> bytes) \<Rightarrow> nat \<Rightarrow> decoder \<Rightarrow> nat \<Rightarrow> nat \<Rightarrow> bytes \<times> (nat \<times> nat \<times> bool) list \<times> nat" where
  "read_window rd sz d pos want =
     (let buf = rd pos want in
      if buf = [] \<or> want = 0 then ([], [], 0)
      else
        (let atEof = (sz \<le> pos + length buf); (ls, scan) = line_walk d buf atEof 0 in
         if 0 < scan \<or> atEof \<or> sz - pos \<le> want then (buf, ls, scan)
         else read_window rd sz d pos (min (sz - pos) (want * 2))))"
  by pat_completeness auto
termination
  by (relation "measure (\<lambda>(rd, sz, d, pos, want). (sz - pos) - want)") auto

declare read_window.simps [simp del]

text \<open>
  The outer loop. The result is whether it ran to completion, the final state and the
  states at the chunk boundaries at which \<open>onChunk\<close> (given the position) let it go on.
\<close>

function forwardScan ::
  "scan_format \<Rightarrow> (string \<Rightarrow> int) \<Rightarrow> (encoding \<Rightarrow> bytes \<Rightarrow> string) \<Rightarrow> decoder \<Rightarrow>
   (nat \<Rightarrow> nat \<Rightarrow> bytes) \<Rightarrow> nat \<Rightarrow> nat \<Rightarrow> (nat \<Rightarrow> bool) \<Rightarrow> nat \<Rightarrow> scan_state \<Rightarrow>
   bool \<times> scan_state \<times> scan_state list" where
  "forwardScan f parse conv d rd sz chunk onChunk pos st =
     (if pos < sz then
        (let (buf, ls, scan) = read_window rd sz d pos (min chunk (sz - pos));
             st' = fold (\<lambda>ln st. processLine f parse st ln) (map (line_of conv d buf pos) ls) st in
         if buf = [] \<or> scan = 0 then (True, st', [])
         else if \<not> onChunk (pos + scan) then (False, st', [])
         else (let (completed, st'', snaps) =
                 forwardScan f parse conv d rd sz chunk onChunk (pos + scan) st'
               in (completed, st'', st' # snaps)))
      else (True, st, []))"
  by pat_completeness auto
termination
  by (relation "measure (\<lambda>(f, parse, conv, d, rd, sz, chunk, onChunk, pos, st). sz - pos)") auto

declare forwardScan.simps [simp del]

definition kChunkBytes :: nat where
  "kChunkBytes = 4 * 1024 * 1024"

text \<open>
  \<open>index\<close>: the result, the \<open>cancelled\<close> flag, and the batches delivered, each with its
  \<open>final\<close> flag.
\<close>

definition as_index :: "scan_state \<Rightarrow> record_index" where
  "as_index st = \<lparr>records = s_records st, loggers = s_loggers st, threads = s_threads st,
     m_blockSums = []\<rparr>"

definition index ::
  "scan_format \<Rightarrow> (string \<Rightarrow> int) \<Rightarrow> (encoding \<Rightarrow> bytes \<Rightarrow> string) \<Rightarrow> decoder \<Rightarrow>
   (nat \<Rightarrow> nat \<Rightarrow> bytes) \<Rightarrow> nat \<Rightarrow> (nat \<Rightarrow> nat \<Rightarrow> bool) \<Rightarrow> record_index \<times> bool \<times> (record_index \<times> bool) list" where
  "index f parse conv d rd sz progress =
     (let (completed, st, snaps) =
        forwardScan f parse conv d rd sz kChunkBytes (\<lambda>pos. progress pos sz) (m_bomLength d)
          (scan_start [] intern_empty intern_empty)
      in (rebuildBlockSums (as_index st), \<not> completed,
          map (\<lambda>s. (as_index s, False)) snaps @ [(as_index st, True)]))"

definition scanAppendedTail ::
  "scan_format \<Rightarrow> (string \<Rightarrow> int) \<Rightarrow> (encoding \<Rightarrow> bytes \<Rightarrow> string) \<Rightarrow> decoder \<Rightarrow>
   (nat \<Rightarrow> nat \<Rightarrow> bytes) \<Rightarrow> nat \<Rightarrow> nat \<Rightarrow> intern_table \<Rightarrow> intern_table \<Rightarrow>
   log_record list \<times> intern_table \<times> intern_table" where
  "scanAppendedTail f parse conv d rd sz startOffset lg th =
     (let (completed, st, snaps) =
        forwardScan f parse conv d rd sz kChunkBytes (\<lambda>_. True) startOffset (scan_start [] lg th)
      in (s_records st, s_loggers st, s_threads st))"

section \<open>The lines of a file, and windows that read them\<close>

text \<open>The reference: the lines of the file walked in one piece from \<open>pos\<close>.\<close>

definition file_lines ::
  "(encoding \<Rightarrow> bytes \<Rightarrow> string) \<Rightarrow> decoder \<Rightarrow> bytes \<Rightarrow> nat \<Rightarrow> (nat \<times> nat \<times> string) list" where
  "file_lines conv d file pos = map (line_of conv d file 0) (fst (line_walk d file True pos))"

lemma file_lines_step:
  "pos < length file \<Longrightarrow> file_lines conv d file pos =
     line_of conv d file 0 (pos, fst (lineEnd d file pos), snd (lineEnd d file pos))
     # file_lines conv d file (fst (lineEnd d file pos))"
  by (simp add: file_lines_def line_walk.simps [of d "file" True pos] Let_def split_def)

lemma file_lines_end: "length file \<le> pos \<Longrightarrow> file_lines conv d file pos = []"
  by (simp add: file_lines_def line_walk.simps [of d "file" True pos])

lemma line_of_window:
  assumes "buf = take w (drop pos file)" and "e \<le> length buf"
  shows "line_of conv d buf pos (scan, e, nl) = line_of conv d file 0 (pos + scan, pos + e, nl)"
proof -
  have "e \<le> w" using assms by simp
  then have "min (e - scan - k) (w - scan) = e - scan - k" for k by simp
  then have "take (e - scan - k) (drop scan buf) = take (e - scan - k) (drop (pos + scan) file)" for k
    unfolding assms(1) by (simp add: drop_take add.commute del: diff_diff_left)
  then show ?thesis by (simp add: line_of_def)
qed

lemma line_walk_window:
  assumes "buf = take w (drop pos file)" and "atEof \<longleftrightarrow> length file \<le> pos + length buf"
    and "pos \<le> length file" and "scan \<le> length buf"
  shows "scan \<le> snd (line_walk d buf atEof scan) \<and> snd (line_walk d buf atEof scan) \<le> length buf \<and>
    (atEof \<longrightarrow> snd (line_walk d buf atEof scan) = length buf) \<and>
    map (line_of conv d buf pos) (fst (line_walk d buf atEof scan))
      @ file_lines conv d file (pos + snd (line_walk d buf atEof scan)) =
    file_lines conv d file (pos + scan)"
  using assms
proof (induction d buf atEof scan rule: line_walk.induct)
  case (1 d buf atEof scan)
  let ?e = "fst (lineEnd d buf scan)" and ?nl = "snd (lineEnd d buf scan)"
  show ?case
  proof (cases "scan < length buf \<and> (?nl \<or> atEof)")
    case False
    then have w: "line_walk d buf atEof scan = ([], scan)"
      by (auto simp: line_walk.simps [of d buf atEof scan] Let_def)
    have "scan = length buf" if atEof using False that "1.prems"(4) by simp
    then show ?thesis unfolding w using "1.prems"(4) by simp
  next
    case go: True
    then have lt: "scan < length buf" and c: "\<not> (\<not> ?nl \<and> \<not> atEof)" by auto
    note pr = dec.progress [OF lt, of d]
    have step: "line_walk d buf atEof scan =
        ((scan, ?e, ?nl) # fst (line_walk d buf atEof ?e), snd (line_walk d buf atEof ?e))"
      using lt c by (auto simp: line_walk.simps [of d buf atEof scan] Let_def split_def)
    have posl: "pos + scan < length file" using lt "1.prems"(1) by auto
    have end_eq: "lineEnd d file (pos + scan) = (pos + ?e, ?nl)"
    proof (cases ?nl)
      case True
      have "lineEnd d (drop pos file) scan = lineEnd d buf scan"
        using dec.window [of d w "drop pos file" scan] True "1.prems"(1) by simp
      with dec.shift [OF "1.prems"(3), of d scan] True show ?thesis by simp
    next
      case False
      with c have "atEof" by simp
      then have "buf = drop pos file" using "1.prems"(1,2) by simp
      with dec.shift [OF "1.prems"(3), of d scan] show ?thesis by simp
    qed
    have IH: "?e \<le> snd (line_walk d buf atEof ?e) \<and> snd (line_walk d buf atEof ?e) \<le> length buf \<and>
        (atEof \<longrightarrow> snd (line_walk d buf atEof ?e) = length buf) \<and>
        map (line_of conv d buf pos) (fst (line_walk d buf atEof ?e))
          @ file_lines conv d file (pos + snd (line_walk d buf atEof ?e)) =
        file_lines conv d file (pos + ?e)"
      by (rule "1.IH" [OF lt refl refl c "1.prems"(1-3)]) (use pr in simp)
    have "file_lines conv d file (pos + scan) =
        line_of conv d buf pos (scan, ?e, ?nl) # file_lines conv d file (pos + ?e)"
      using file_lines_step [OF posl, of conv d] end_eq line_of_window [OF "1.prems"(1), of ?e conv d scan ?nl] pr
      by simp
    with IH pr step show ?thesis by auto
  qed
qed

text \<open>What a byte source promises the indexer: a read is the requested window of the
  content, cut at its end.\<close>

locale byte_source =
  fixes rd :: "nat \<Rightarrow> nat \<Rightarrow> bytes"
    and content :: bytes
  assumes rd_window: "rd pos want = take want (drop pos content)"
begin

lemma read_window_lines:
  assumes "pos < length content" and "0 < want"
  shows "\<exists>buf ls s. read_window rd (length content) d pos want = (buf, ls, s) \<and> buf \<noteq> [] \<and> 0 < s \<and>
    pos + s \<le> length content \<and>
    map (line_of conv d buf pos) ls @ file_lines conv d content (pos + s) = file_lines conv d content pos"
  using assms
proof (induction "(length content - pos) - want" arbitrary: want rule: less_induct)
  case less
  let ?buf = "rd pos want"
  let ?atEof = "length content \<le> pos + length ?buf"
  let ?w = "line_walk d ?buf ?atEof 0"
  have buf: "?buf = take want (drop pos content)" by (rule rd_window)
  have ne: "?buf \<noteq> []" using less.prems buf by simp
  have W: "0 \<le> snd ?w \<and> snd ?w \<le> length ?buf \<and> (?atEof \<longrightarrow> snd ?w = length ?buf) \<and>
      map (line_of conv d ?buf pos) (fst ?w) @ file_lines conv d content (pos + snd ?w) =
      file_lines conv d content (pos + 0)"
    by (rule line_walk_window [OF buf refl]) (use less.prems in auto)
  show ?case
  proof (cases "0 < snd ?w \<or> ?atEof \<or> length content - pos \<le> want")
    case True
    then have "0 < snd ?w"
      using W ne buf by auto
    moreover have "read_window rd (length content) d pos want = (?buf, fst ?w, snd ?w)"
      using True ne less.prems(2)
      by (simp add: read_window.simps [of rd "length content" d pos want] Let_def split_def)
    moreover have "pos + length ?buf \<le> length content" using less.prems buf by simp
    ultimately show ?thesis using W ne
      by (intro exI [of _ ?buf] exI [of _ "fst ?w"] exI [of _ "snd ?w"]) simp
  next
    case False
    have dec: "(length content - pos) - min (length content - pos) (want * 2) < (length content - pos) - want"
      using False less.prems(2) by auto
    have pos': "0 < min (length content - pos) (want * 2)" using less.prems by simp
    have at: "?atEof = False" using False by simp
    have none: "snd (line_walk d ?buf False 0) = 0" using False unfolding at by simp
    have "read_window rd (length content) d pos want =
        read_window rd (length content) d pos (min (length content - pos) (want * 2))"
      using False ne less.prems(2) at none
      by (simp add: read_window.simps [of rd "length content" d pos want] Let_def split_def)
    with less.hyps [OF dec less.prems(1) pos'] show ?thesis by simp
  qed
qed

text \<open>A scan processes a prefix of the file's lines, all of them when it completes, and
  completes when no chunk boundary cancels it.\<close>

lemma forwardScan_prefix:
  assumes "0 < chunk"
  shows "\<exists>k. fst (snd (forwardScan f parse conv d rd (length content) chunk onChunk pos st)) =
      fold (\<lambda>ln st. processLine f parse st ln) (take k (file_lines conv d content pos)) st \<and>
    (fst (forwardScan f parse conv d rd (length content) chunk onChunk pos st) \<longrightarrow>
      length (file_lines conv d content pos) \<le> k) \<and>
    ((\<forall>p. onChunk p) \<longrightarrow> fst (forwardScan f parse conv d rd (length content) chunk onChunk pos st))"
proof (induction "length content - pos" arbitrary: pos st rule: less_induct)
  case less
  let ?F = "\<lambda>ls st. fold (\<lambda>ln st. processLine f parse st ln) ls st"
  let ?L = "file_lines conv d content"
  let ?S = "forwardScan f parse conv d rd (length content) chunk onChunk"
  show ?case
  proof (cases "pos < length content")
    case False
    then show ?thesis
      by (auto simp: forwardScan.simps [of f parse conv d rd "length content" chunk onChunk pos st]
          file_lines_end)
  next
    case True
    with assms obtain buf ls s where w:
      "read_window rd (length content) d pos (min chunk (length content - pos)) = (buf, ls, s)"
      "buf \<noteq> []" "0 < s" "pos + s \<le> length content"
      "map (line_of conv d buf pos) ls @ ?L (pos + s) = ?L pos"
      using read_window_lines [OF True, of "min chunk (length content - pos)" d conv] by auto
    define st' where "st' = ?F (map (line_of conv d buf pos) ls) st"
    have step: "?S pos st = (if \<not> onChunk (pos + s) then (False, st', [])
        else (fst (?S (pos + s) st'), fst (snd (?S (pos + s) st')), st' # snd (snd (?S (pos + s) st'))))"
      using True w(1-3)
      by (simp add: forwardScan.simps [of f parse conv d rd "length content" chunk onChunk pos st]
          st'_def Let_def split_def)
    have pre: "?F (take (length ls + k) (?L pos)) st = ?F (take k (?L (pos + s))) st'" for k
      by (simp add: w(5) [symmetric] st'_def)
    show ?thesis
    proof (cases "onChunk (pos + s)")
      case False
      then have "fst (snd (?S pos st)) = ?F (take (length ls + 0) (?L pos)) st"
        by (simp only: step pre) simp
      with False show ?thesis by (auto simp: step)
    next
      case go: True
      have "length content - (pos + s) < length content - pos" using w(3,4) True by simp
      from less.hyps [OF this, of st'] obtain k where k:
        "fst (snd (?S (pos + s) st')) = ?F (take k (?L (pos + s))) st'"
        "fst (?S (pos + s) st') \<longrightarrow> length (?L (pos + s)) \<le> k"
        "(\<forall>p. onChunk p) \<longrightarrow> fst (?S (pos + s) st')" by blast
      have len: "length (?L pos) = length ls + length (?L (pos + s))"
        using arg_cong [OF w(5), of length] by simp
      have "fst (?S pos st) = fst (?S (pos + s) st')"
        "fst (snd (?S pos st)) = ?F (take (length ls + k) (?L pos)) st"
        using go k(1) by (simp_all only: step pre) simp_all
      with k(2,3) len show ?thesis by (intro exI [of _ "length ls + k"]) auto
    qed
  qed
qed

lemma forwardScan_complete:
  assumes "0 < chunk" and "\<And>p. onChunk p"
  shows "fst (forwardScan f parse conv d rd (length content) chunk onChunk pos st) \<and>
    fst (snd (forwardScan f parse conv d rd (length content) chunk onChunk pos st)) =
      fold (\<lambda>ln st. processLine f parse st ln) (file_lines conv d content pos) st"
  using forwardScan_prefix [OF assms(1), of f parse conv d onChunk pos st] assms(2) by auto

end

interpretation slice: byte_source "\<lambda>pos want. take want (drop pos content)" content for content
  by unfold_locales (rule refl)

section \<open>Records are groups of lines\<close>

text \<open>
  The abstract specification of the pass: the file's lines are cut into groups, a start line
  with the non-start lines after it, and each leading non-start line on its own.
\<close>

definition is_start :: "scan_format \<Rightarrow> nat \<times> nat \<times> string \<Rightarrow> bool" where
  "is_start f ln = (haveFormat f \<and> startRe f (snd (snd ln)) \<noteq> None)"

function group_lines :: "('l \<Rightarrow> bool) \<Rightarrow> 'l list \<Rightarrow> 'l list list" where
  "group_lines st [] = []"
| "group_lines st (l # ls) =
     (if st l then (l # takeWhile (\<lambda>x. \<not> st x) ls) # group_lines st (dropWhile (\<lambda>x. \<not> st x) ls)
      else [l] # group_lines st ls)"
  by pat_completeness auto
termination
  by (relation "measure (\<lambda>(st, ls). length ls)") (auto simp: le_imp_less_Suc length_dropWhile_le)

lemma concat_group_lines: "concat (group_lines st ls) = ls"
  by (induction st ls rule: group_lines.induct) auto

text \<open>What a record says of its group: where it starts, its bytes and lines (each clamped to
  the width of its field), and the time and priority of its first line.\<close>

type_synonym summary = "int \<times> nat \<times> nat \<times> int \<times> priority"

definition summary :: "log_record \<Rightarrow> summary" where
  "summary r = (offset r, unat (byteLength r), unat (lineCount r), timestamp r, prio r)"

definition line_time :: "scan_format \<Rightarrow> (string \<Rightarrow> int) \<Rightarrow> string \<Rightarrow> int" where
  "line_time f parse text =
     (case (if haveFormat f then startRe f text else None) of
        Some m \<Rightarrow> (if 0 < dateGroup f then parse (captured f text m (dateGroup f)) else kNoTimestamp)
      | None \<Rightarrow> kNoTimestamp)"

definition line_priority :: "scan_format \<Rightarrow> string \<Rightarrow> priority" where
  "line_priority f text =
     (case (if haveFormat f then startRe f text else None) of
        Some m \<Rightarrow> (if 0 < prioGroup f then parsePriority (captured f text m (prioGroup f)) else Unknown)
      | None \<Rightarrow> Unknown)"

definition group_summary :: "scan_format \<Rightarrow> (string \<Rightarrow> int) \<Rightarrow> (nat \<times> nat \<times> string) list \<Rightarrow> summary" where
  "group_summary f parse g =
     (case hd g of (off, len, text) \<Rightarrow>
        (int off, min (sum_list (map (\<lambda>l. fst (snd l)) g)) 4294967295, min (length g) 65535,
         line_time f parse text, line_priority f text))"

lemma unat_clamp32 [simp]: "unat (clamp32 n) = min n 4294967295"
  by (simp add: clamp32_def unat_of_nat take_bit_nat_eq_self)

lemma summary_continue:
  "summary r = (off, min b 4294967295, min n 65535, t, p) \<Longrightarrow>
     summary (continue_record r len) = (off, min (b + len) 4294967295, min (Suc n) 65535, t, p)"
proof -
  assume s: "summary r = (off, min b 4294967295, min n 65535, t, p)"
  then have n: "unat (lineCount r) = min n 65535" by (simp add: summary_def)
  have "unat (if lineCount r < kMaxLineCount then lineCount r + 1 else lineCount r) = min (Suc n) 65535"
  proof (cases "n < 65535")
    case True
    then have "unat (lineCount r) = n" using n by simp
    moreover have "lineCount r < kMaxLineCount"
      using True n by (simp add: kMaxLineCount_def word_less_nat_alt)
    moreover have "unat (lineCount r + 1) = Suc n"
      using True n by (simp add: unat_word_ariths)
    ultimately show ?thesis using True by simp
  next
    case False
    with n have "\<not> lineCount r < kMaxLineCount" by (simp add: kMaxLineCount_def word_less_nat_alt)
    with False n show ?thesis by simp
  qed
  moreover have "unat (clamp32 (unat (byteLength r) + len)) = min (b + len) 4294967295"
    using s by (simp add: summary_def)
  ultimately show ?thesis using s by (simp add: summary_def continue_record_def)
qed

lemma fold_continue_summary:
  "summary r = (off, min b 4294967295, min n 65535, t, p) \<Longrightarrow>
     summary (fold (\<lambda>ln r. continue_record r (fst (snd ln))) ls r) =
       (off, min (b + sum_list (map (\<lambda>l. fst (snd l)) ls)) 4294967295, min (n + length ls) 65535, t, p)"
proof (induction ls arbitrary: r b n)
  case (Cons l ls)
  from Cons.IH [OF summary_continue [OF Cons.prems, of "fst (snd l)"]] show ?case
    by (simp add: add.assoc)
qed simp

definition open_at :: "scan_state \<Rightarrow> bool" where
  "open_at st \<longleftrightarrow> currentIsParsed st \<and> s_records st \<noteq> [] \<and>
     currentRecord st = int (length (s_records st)) - 1"

lemma process_start:
  assumes "is_start f ln"
  shows "\<exists>r. s_records (processLine f parse st ln) = s_records st @ [r] \<and>
     summary r = group_summary f parse [ln] \<and> open_at (processLine f parse st ln)"
proof -
  obtain off len body where ln: "ln = (off, len, body)" by (cases ln)
  from assms obtain m where "haveFormat f" "startRe f body = Some m"
    by (auto simp: is_start_def ln)
  then show ?thesis
    by (auto simp: ln processLine_def start_record_def Let_def summary_def group_summary_def
        line_time_def line_priority_def open_at_def split: prod.split)
qed

lemma process_plain:
  assumes "\<not> is_start f ln" and "\<not> currentIsParsed st"
  shows "\<exists>r. s_records (processLine f parse st ln) = s_records st @ [r] \<and>
     summary r = group_summary f parse [ln] \<and> \<not> currentIsParsed (processLine f parse st ln)"
proof -
  obtain off len body where ln: "ln = (off, len, body)" by (cases ln)
  from assms have "(if haveFormat f then startRe f body else None) = None"
    by (auto simp: is_start_def ln)
  with assms(2) show ?thesis
    by (auto simp: ln processLine_def summary_def group_summary_def plain_record_def
        line_time_def line_priority_def split: if_splits)
qed

lemma process_continue:
  assumes "\<not> is_start f ln" and "open_at st"
  shows "s_records (processLine f parse st ln) =
       butlast (s_records st) @ [continue_record (last (s_records st)) (fst (snd ln))] \<and>
     open_at (processLine f parse st ln) \<and> s_loggers (processLine f parse st ln) = s_loggers st \<and>
     s_threads (processLine f parse st ln) = s_threads st"
proof -
  obtain off len body where ln: "ln = (off, len, body)" by (cases ln)
  obtain rs r where rs: "s_records st = rs @ [r]"
    using assms(2) by (cases "s_records st" rule: rev_exhaust) (auto simp: open_at_def)
  from assms(1) have none: "(if haveFormat f then startRe f body else None) = None"
    by (auto simp: is_start_def ln)
  from assms(2) rs have "nat (currentRecord st) = length rs" "0 \<le> currentRecord st"
    "currentIsParsed st" by (auto simp: open_at_def)
  with none rs assms(2) show ?thesis
    by (auto simp: ln processLine_def Let_def open_at_def split: if_splits)
qed

lemma fold_continue:
  assumes "list_all (\<lambda>l. \<not> is_start f l) ls" and "open_at st"
  shows "s_records (fold (\<lambda>ln st. processLine f parse st ln) ls st) =
       butlast (s_records st) @ [fold (\<lambda>ln r. continue_record r (fst (snd ln))) ls (last (s_records st))] \<and>
     open_at (fold (\<lambda>ln st. processLine f parse st ln) ls st)"
  using assms
proof (induction ls arbitrary: st)
  case Nil
  then show ?case by (simp add: open_at_def)
next
  case (Cons l ls)
  from process_continue [of f l st parse] Cons.prems
  have p: "s_records (processLine f parse st l) =
      butlast (s_records st) @ [continue_record (last (s_records st)) (fst (snd l))]"
    "open_at (processLine f parse st l)" by auto
  from Cons.IH [OF _ p(2)] Cons.prems(1) p(1) show ?case by simp
qed

lemma list_all_takeWhile: "list_all P (takeWhile P xs)"
  by (induction xs) auto

lemma scan_groups:
  assumes "currentIsParsed st \<longrightarrow> ls = [] \<or> is_start f (hd ls)"
  shows "map summary (s_records (fold (\<lambda>ln st. processLine f parse st ln) ls st)) =
    map summary (s_records st) @ map (group_summary f parse) (group_lines (is_start f) ls)"
  using assms
proof (induction "is_start f" ls arbitrary: st rule: group_lines.induct)
  case 1
  then show ?case by simp
next
  case (2 l ls)
  let ?P = "\<lambda>ln st. processLine f parse st ln"
  show ?case
  proof (cases "is_start f l")
    case True
    let ?tk = "takeWhile (\<lambda>x. \<not> is_start f x) ls" and ?dr = "dropWhile (\<lambda>x. \<not> is_start f x) ls"
    obtain r where r: "s_records (processLine f parse st l) = s_records st @ [r]"
      "summary r = group_summary f parse [l]" and op: "open_at (processLine f parse st l)"
      using process_start [OF True] by blast
    define st' where "st' = fold ?P ?tk (processLine f parse st l)"
    from fold_continue [OF list_all_takeWhile op] r(1)
    have st': "s_records st' = s_records st @ [fold (\<lambda>ln r. continue_record r (fst (snd ln))) ?tk r]"
      by (simp add: st'_def)
    obtain off len body where l: "l = (off, len, body)" by (cases l)
    from r(2) have "summary r = (int off, min len 4294967295, min 1 65535,
        line_time f parse body, line_priority f body)" by (simp add: l group_summary_def)
    from fold_continue_summary [OF this, of ?tk] st'
    have sum: "map summary (s_records st') = map summary (s_records st) @ [group_summary f parse (l # ?tk)]"
      by (simp add: l group_summary_def)
    have "fold ?P ls (processLine f parse st l) = fold ?P ?dr st'"
      unfolding st'_def by (metis comp_apply fold_append takeWhile_dropWhile_id)
    moreover have "currentIsParsed st' \<longrightarrow> ?dr = [] \<or> is_start f (hd ?dr)"
      using hd_dropWhile [of "\<lambda>x. \<not> is_start f x" ls] by auto
    from "2.hyps"(1) [OF True this] sum True
    have "map summary (s_records (fold ?P ?dr st')) =
        map summary (s_records st) @ map (group_summary f parse) (group_lines (is_start f) (l # ls))"
      by simp
    ultimately show ?thesis by simp
  next
    case False
    with "2.prems" have np: "\<not> currentIsParsed st" by auto
    obtain r where r: "s_records (processLine f parse st l) = s_records st @ [r]"
      "summary r = group_summary f parse [l]" "\<not> currentIsParsed (processLine f parse st l)"
      using process_plain [OF False np] by blast
    from "2.hyps"(2) [OF False, of "processLine f parse st l"] r False show ?thesis by simp
  qed
qed

text \<open>The whole pass, at whatever chunk size, on any source that reads as its content.\<close>

lemma forward_groups:
  assumes "0 < chunk" and "\<And>p. onChunk p" and "st = scan_start [] lg th"
  shows "fst (forwardScan f parse conv d (\<lambda>pos want. take want (drop pos content)) (length content)
      chunk onChunk pos st) \<and>
    map summary (s_records (fst (snd (forwardScan f parse conv d
        (\<lambda>pos want. take want (drop pos content)) (length content) chunk onChunk pos st)))) =
      map (group_summary f parse) (group_lines (is_start f) (file_lines conv d content pos))"
  using slice.forwardScan_complete [OF assms(1), of onChunk f parse conv d content pos st] assms(2,3)
    scan_groups [of st "file_lines conv d content pos" f parse]
  by (simp add: scan_start_def)

lemma kChunkBytes_pos [simp]: "0 < kChunkBytes"
  by (simp add: kChunkBytes_def)

lemma records_index:
  "records (fst (index f parse conv d rd sz progress)) =
     s_records (fst (snd (forwardScan f parse conv d rd sz kChunkBytes (\<lambda>pos. progress pos sz)
       (m_bomLength d) (scan_start [] intern_empty intern_empty))))"
  "fst (snd (index f parse conv d rd sz progress)) =
     (\<not> fst (forwardScan f parse conv d rd sz kChunkBytes (\<lambda>pos. progress pos sz)
       (m_bomLength d) (scan_start [] intern_empty intern_empty)))"
  by (simp_all add: index_def split_def Let_def rebuildBlockSums_def as_index_def)

lemma index_summaries:
  assumes "\<And>p t. progress p t"
  shows "map summary (records (fst (index f parse conv d (\<lambda>pos want. take want (drop pos content))
      (length content) progress))) =
    map (group_summary f parse) (group_lines (is_start f) (file_lines conv d content (m_bomLength d)))"
  using forward_groups [OF kChunkBytes_pos, of "\<lambda>pos. progress pos (length content)"
      "scan_start [] intern_empty intern_empty" intern_empty intern_empty f parse conv d content "m_bomLength d"]
  by (simp add: records_index assms)

text \<open>A small format and log the witnesses use: a record starts with a hash sign.\<close>

definition hash_format :: scan_format where
  "hash_format = \<lparr>startPatternEmpty = False, startIsValid = True,
     startRe = (\<lambda>t. if take 1 t = ''#'' then Some (\<lambda>g. if g = 1 then drop 1 t else []) else None),
     startCaptureCount = 1, fullUsable = False, fullRe = (\<lambda>_. None),
     dateGroup = - 1, prioGroup = - 1, loggerGroup = 1, threadGroup = - 1\<rparr>"

definition ascii_conv :: "encoding \<Rightarrow> bytes \<Rightarrow> string" where
  "ascii_conv e bs = map (\<lambda>b. char_of (unat b)) bs"

definition utf8_decoder :: decoder where
  "utf8_decoder = \<lparr>m_requested = Auto, m_resolved = Utf8, m_bomLength = 0, m_unitSize = 1\<rparr>"

lemma utf8_decoder_bom [simp]: "m_bomLength utf8_decoder = 0"
  by (simp add: utf8_decoder_def)

lemma hash_format_facts [simp]:
  "is_start hash_format (off, len, body) = (take 1 body = ''#'')"
  "line_time hash_format parse body = kNoTimestamp"
  "line_priority hash_format body = Unknown"
  by (simp_all add: is_start_def line_time_def line_priority_def hash_format_def haveFormat_def
      split: option.split)

definition sample_log :: bytes where
  "sample_log = [0x61, 0x0A, 0x23, 0x62, 0x0A, 0x63, 0x0A, 0x23]"

lemma sample_lines:
  "file_lines ascii_conv utf8_decoder sample_log 0 =
     [(0, 2, ''a''), (2, 3, ''#b''), (5, 2, ''c''), (7, 1, ''#'')]"
  by (simp add: sample_log_def file_lines_def line_walk.simps line_of_def lineEnd_def find_newline_def
      utf8_decoder_def decodeLine_def decode_def ascii_conv_def Let_def char_of_def bit_Suc_0_iff)

text \<open>C4: indexer_groups. An uncancelled pass, whatever the chunk size it reads by, gives one
  record per group of lines: a line the start pattern matches with the lines after it up to
  the next such line, and every line before the first one on its own. A record's offset,
  byte length and line count (clamped to their widths), time and priority are its group's,
  and the result is not marked cancelled.\<close>

theorem indexer_groups:
  assumes "0 < chunk" and "\<And>p. onChunk p"
  shows "map summary (s_records (fst (snd (forwardScan f parse conv d
        (\<lambda>pos want. take want (drop pos content)) (length content) chunk onChunk (m_bomLength d)
        (scan_start [] intern_empty intern_empty))))) =
      map (group_summary f parse) (group_lines (is_start f) (file_lines conv d content (m_bomLength d))) \<and>
    fst (forwardScan f parse conv d (\<lambda>pos want. take want (drop pos content)) (length content)
        chunk onChunk (m_bomLength d) (scan_start [] intern_empty intern_empty))"
  using forward_groups [OF assms(1), of onChunk _ intern_empty intern_empty f parse conv d content "m_bomLength d"] assms(2)
  by simp

theorem indexer_groups_witness:
  "map summary (s_records (fst (snd (forwardScan hash_format (\<lambda>_. 0) ascii_conv utf8_decoder
      (\<lambda>pos want. take want (drop pos sample_log)) (length sample_log) 3 (\<lambda>_. True)
      (m_bomLength utf8_decoder) (scan_start [] intern_empty intern_empty))))) =
    [(0, 2, 1, kNoTimestamp, Unknown), (2, 5, 2, kNoTimestamp, Unknown), (7, 1, 1, kNoTimestamp, Unknown)]"
  using indexer_groups [of 3 "\<lambda>_. True" hash_format "\<lambda>_. 0" ascii_conv utf8_decoder sample_log]
  by (simp add: sample_lines group_summary_def)

text \<open>Whatever the progress callback answers, the index holds
  exactly what processing some prefix of the file's lines gives, every line when it is not
  marked cancelled; and its block sums are those of its records.\<close>

theorem indexer_cancel_prefix:
  "\<exists>k. records (fst (index f parse conv d (\<lambda>pos want. take want (drop pos content))
         (length content) progress)) =
       s_records (fold (\<lambda>ln st. processLine f parse st ln)
         (take k (file_lines conv d content (m_bomLength d))) (scan_start [] intern_empty intern_empty)) \<and>
     (fst (snd (index f parse conv d (\<lambda>pos want. take want (drop pos content)) (length content) progress)) \<or>
      length (file_lines conv d content (m_bomLength d)) \<le> k) \<and>
     sums_ok (fst (index f parse conv d (\<lambda>pos want. take want (drop pos content)) (length content) progress))"
proof -
  have "sums_ok (fst (index f parse conv d (\<lambda>pos want. take want (drop pos content)) (length content) progress))"
    by (simp add: index_def split_def Let_def sums_ok_rebuild)
  with slice.forwardScan_prefix [OF kChunkBytes_pos, of f parse conv d content
      "\<lambda>pos. progress pos (length content)" "m_bomLength d" "scan_start [] intern_empty intern_empty"]
  show ?thesis unfolding records_index by (metis (no_types, lifting))
qed

end
