(* ===== verification/LiveAppend.thy ===== *)
theory LiveAppend
  imports Index
begin

text \<open>
  \<open>src/core/LiveController.cpp\<close>, the part that decides what an appended region does to the
  index: what is re-read, what it replaces, and what is repaired.
\<close>

section \<open>Appending to a live log\<close>

text \<open>
  \<open>LiveController::ingestAppended\<close> with no filter active: the tail is scanned again from
  the last record's offset, its first record replaces that record when it differs, the rest
  is appended, and the block sums are extended from the first row that changed.
\<close>

definition ingest_offset :: "record_index \<Rightarrow> decoder \<Rightarrow> nat" where
  "ingest_offset idx d = (if records idx \<noteq> [] then nat (offset (last (records idx))) else m_bomLength d)"

definition ingestAppended ::
  "scan_format \<Rightarrow> (string \<Rightarrow> int) \<Rightarrow> (encoding \<Rightarrow> bytes \<Rightarrow> string) \<Rightarrow> decoder \<Rightarrow>
   (nat \<Rightarrow> nat \<Rightarrow> bytes) \<Rightarrow> nat \<Rightarrow> record_index \<Rightarrow> record_index" where
  "ingestAppended f parse conv d rd sz idx =
     (let oldCount = length (records idx);
          (tail, lg, th) = scanAppendedTail f parse conv d rd sz (ingest_offset idx d)
                             (loggers idx) (threads idx);
          idx1 = idx\<lparr>loggers := lg, threads := th\<rparr>
      in if tail = [] then idx1
         else
           (let provisionalChanged = (0 < oldCount \<and> hd tail \<noteq> last (records idx));
                base = (if 0 < oldCount then oldCount - 1 else 0);
                firstTailNew = (if 0 < oldCount then 1 else 0);
                idx2 = (if provisionalChanged
                        then idx1\<lparr>records := (records idx1)[base := hd tail]\<rparr> else idx1);
                newCount = length tail - firstTailNew
            in if 0 < newCount then
                 extendBlockSums (idx2\<lparr>records := records idx2 @ drop firstTailNew tail\<rparr>)
                   (int (if provisionalChanged then base else oldCount))
               else if provisionalChanged then extendBlockSums idx2 (int base)
               else idx2))"

section \<open>What the re-read replaces\<close>

lemma group_lines_nonempty [simp]: "(group_lines P ls = []) = (ls = [])"
  by (cases ls) auto

lemma hd_hd_group_lines: "ls \<noteq> [] \<Longrightarrow> hd (hd (group_lines P ls)) = hd ls"
  by (cases ls) auto

lemma group_ne: "g \<in> set (group_lines P ls) \<Longrightarrow> g \<noteq> []"
  by (induction P ls rule: group_lines.induct) (auto split: if_splits)

text \<open>The last group can be cut off and the lines after it grouped on their own, as long as
  a group that began with a start line is replaced by lines that begin with one.\<close>

lemma regroup_last:
  "group_lines P ls = gs @ [g] \<Longrightarrow> (P (hd g) \<Longrightarrow> P (hd B)) \<Longrightarrow>
     group_lines P (concat gs @ B) = gs @ group_lines P B"
proof (induction P ls arbitrary: gs rule: group_lines.induct)
  case (1 P)
  then show ?case by simp
next
  case (2 P l ls)
  show ?case
  proof (cases gs)
    case Nil
    then show ?thesis by simp
  next
    case (Cons h gs')
    show ?thesis
    proof (cases "P l")
      case False
      with "2.prems"(1) Cons have "h = [l]" "group_lines P ls = gs' @ [g]" by auto
      with "2.IH"(2) [OF False] "2.prems"(2) False Cons show ?thesis by simp
    next
      case True
      let ?tk = "takeWhile (\<lambda>x. \<not> P x) ls" and ?dr = "dropWhile (\<lambda>x. \<not> P x) ls"
      from True "2.prems"(1) Cons have h: "h = l # ?tk" and rest: "group_lines P ?dr = gs' @ [g]" by auto
      have ne: "?dr \<noteq> []" using rest by (metis append_is_Nil_conv group_lines.simps(1) list.distinct(1))
      then have P: "P (hd ?dr)" using hd_dropWhile [of "\<lambda>x. \<not> P x" ls] by simp
      have hd1: "hd (hd (gs' @ [g])) = hd ?dr" using hd_hd_group_lines [OF ne, of P] rest by simp
      have st: "concat gs' @ B = [] \<or> P (hd (concat gs' @ B))"
      proof (cases gs')
        case Nil
        then have "P (hd g)" using P hd1 by simp
        with "2.prems"(2) Nil show ?thesis by simp
      next
        case (Cons h' gs'')
        then have "h' \<noteq> []" using group_ne [of h' P ?dr] rest by simp
        then have "hd (concat gs' @ B) = hd h'" using Cons by simp
        then show ?thesis using P hd1 Cons by simp
      qed
      have tk: "\<And>x. x \<in> set ?tk \<Longrightarrow> \<not> P x" by (auto dest: set_takeWhileD)
      obtain R where R: "R = concat gs' @ B" by simp
      have "takeWhile (\<lambda>x. \<not> P x) (?tk @ R) = ?tk @ takeWhile (\<lambda>x. \<not> P x) (R)"
        by (rule takeWhile_append2) (rule tk)
      then have 1: "takeWhile (\<lambda>x. \<not> P x) (?tk @ R) = ?tk"
        using st unfolding R [symmetric] by (cases R) simp_all
      have "dropWhile (\<lambda>x. \<not> P x) (?tk @ R) = dropWhile (\<lambda>x. \<not> P x) (R)"
        by (rule dropWhile_append2) (rule tk)
      then have 2: "dropWhile (\<lambda>x. \<not> P x) (?tk @ R) = R"
        using st unfolding R [symmetric] by (cases R) simp_all
      have "concat gs @ B = l # (?tk @ concat gs' @ B)" using Cons h by simp
      then have "group_lines P (concat gs @ B) = (l # ?tk) # group_lines P (concat gs' @ B)"
        using 1 2 True unfolding R by simp
      with "2.IH"(1) [OF True rest "2.prems"(2)] Cons h show ?thesis by simp
    qed
  qed
qed

text \<open>The lines in front of a line that starts inside the file are not changed by growth.\<close>

lemma line_of_offset [simp]: "fst (line_of conv d buf pos sp) = pos + fst sp"
  by (cases sp) (simp add: line_of_def)

lemma file_lines_grow:
  "file_lines conv d old pos = A @ g \<Longrightarrow> g \<noteq> [] \<Longrightarrow>
     file_lines conv d (old @ extra) pos = A @ file_lines conv d (old @ extra) (fst (hd g)) \<and>
     fst (hd g) < length old"
proof (induction A arbitrary: pos)
  case Nil
  then have "pos < length old" by (metis append_Nil file_lines_end not_less)
  with Nil file_lines_step [OF this, of conv d] show ?case by auto
next
  case (Cons a A)
  have lt: "pos < length old"
    using Cons.prems(1) file_lines_end [of old pos conv d] by (cases "pos < length old") auto
  let ?e = "fst (lineEnd d old pos)"
  from file_lines_step [OF lt, of conv d] Cons.prems(1)
  have a: "a = line_of conv d old 0 (pos, ?e, snd (lineEnd d old pos))"
    and rest: "file_lines conv d old ?e = A @ g" by auto
  have "?e < length old"
    using rest Cons.prems(2) file_lines_end [of old ?e conv d] by (cases "?e < length old") auto
  then have nl: "snd (lineEnd d old pos)" using dec.no_newline [of d old pos] by fastforce
  from dec.extend [OF nl, of extra] have e': "lineEnd d (old @ extra) pos = lineEnd d old pos" .
  have "take (?e - pos - k) (drop pos (old @ extra)) = take (?e - pos - k) (drop pos old)" for k
    using dec.progress [OF lt, of d] lt by simp
  then have "line_of conv d (old @ extra) 0 (pos, ?e, snd (lineEnd d old pos)) = a"
    unfolding a line_of_def by (simp add: split_def del: take_append drop_append diff_diff_left)
  with file_lines_step [of pos "old @ extra" conv d] lt e' Cons.IH [OF rest Cons.prems(2)]
  show ?case by simp
qed

lemma file_lines_suffix:
  "file_lines conv d old pos = A @ g \<Longrightarrow> g \<noteq> [] \<Longrightarrow> file_lines conv d old (fst (hd g)) = g"
  using file_lines_grow [of conv d old pos A g "[]"] by simp

lemma grown_summaries:
  assumes idx: "map summary rs = map (group_summary f parse) (group_lines (is_start f) (file_lines conv d old pos))"
    and ne: "rs \<noteq> []" and off: "off = nat (offset (last rs))"
    and keep: "is_start f (hd (file_lines conv d old off)) \<Longrightarrow> is_start f (hd (file_lines conv d (old @ extra) off))"
  shows "map (group_summary f parse) (group_lines (is_start f) (file_lines conv d (old @ extra) pos)) =
      map summary (butlast rs) @
      map (group_summary f parse) (group_lines (is_start f) (file_lines conv d (old @ extra) off)) \<and>
    off < length old"
proof -
  let ?G = "group_lines (is_start f) (file_lines conv d old pos)"
  from ne idx have "?G \<noteq> []" by auto
  then obtain gs g where G: "?G = gs @ [g]" by (metis append_butlast_last_id)
  have gne: "g \<noteq> []" using group_ne [of g "is_start f" "file_lines conv d old pos"] G by simp
  have lines: "file_lines conv d old pos = concat gs @ g"
    using concat_group_lines [of "is_start f" "file_lines conv d old pos"] G by simp
  from ne obtain bs r where rs: "rs = bs @ [r]" by (metis append_butlast_last_id)
  from idx G rs have bs: "map summary bs = map (group_summary f parse) gs"
    and r: "summary r = group_summary f parse g" by simp_all
  from r have offg: "fst (hd g) = off" unfolding off rs
    by (simp add: summary_def group_summary_def split: prod.splits)
  note grow = file_lines_grow [OF lines gne, of extra]
  from lines have "file_lines conv d old off = g"
    using file_lines_suffix [OF lines gne] offg by simp
  with regroup_last [OF G, of "file_lines conv d (old @ extra) off"] keep
  have "group_lines (is_start f) (concat gs @ file_lines conv d (old @ extra) off) =
      gs @ group_lines (is_start f) (file_lines conv d (old @ extra) off)" by simp
  with grow offg bs rs show ?thesis by simp
qed

section \<open>The index after an append\<close>

lemma records_extend [simp]: "records (extendBlockSums idx v) = records idx"
  by (simp add: extendBlockSums_def rebuildBlockSums_def Let_def)

lemma nth_replace_last: "rs \<noteq> [] \<Longrightarrow> rs[length rs - Suc 0 := x] = butlast rs @ [x]"
  by (metis One_nat_def append_butlast_last_id length_butlast list_update_length)

lemma ingest_records:
  assumes "fst (scanAppendedTail f parse conv d rd sz (ingest_offset idx d) (loggers idx) (threads idx)) = t # ts"
  shows "records (ingestAppended f parse conv d rd sz idx) = butlast (records idx) @ t # ts"
proof -
  obtain lg th where s: "scanAppendedTail f parse conv d rd sz (ingest_offset idx d) (loggers idx) (threads idx)
      = (t # ts, lg, th)" using assms by (metis prod.collapse)
  show ?thesis
  proof (cases "records idx = []")
    case True
    then show ?thesis by (simp add: ingestAppended_def s)
  next
    case False
    have keep: "butlast (records idx) @ last (records idx) # xs = records idx @ xs" for xs
      using False by (metis append.assoc append_Cons append_Nil append_butlast_last_id)
    show ?thesis
      using False keep [of "[]"] keep [of ts] nth_replace_last [OF False, of t]
      by (simp add: ingestAppended_def s Let_def)
  qed
qed

lemma ingest_sums:
  assumes ok: "sums_ok idx"
  shows "sums_ok (ingestAppended f parse conv d rd sz idx)"
proof -
  obtain tail lg th where s: "scanAppendedTail f parse conv d rd sz (ingest_offset idx d) (loggers idx) (threads idx)
      = (tail, lg, th)" by (metis prod.collapse)
  let ?n = "length (records idx)"
  have same: "sums_ok (idx\<lparr>loggers := lg, threads := th\<rparr>)" using ok by (simp add: sums_ok_def)
  have ext: "sums_ok (extendBlockSums (idx\<lparr>loggers := lg, threads := th, records := rs\<rparr>) (int v))"
    if "v \<le> ?n" "v \<le> length rs" "take v rs = take v (records idx)" for v rs
    by (rule sums_ok_extend [where v = v and ?hs0.0 = "heights idx"])
      (use ok that in \<open>auto simp: sums_ok_def take_map\<close>)
  have last: "records idx \<noteq> [] \<Longrightarrow> take (?n - Suc 0) ((records idx)[?n - Suc 0 := x]) = take (?n - Suc 0) (records idx)" for x
    by simp
  show ?thesis
  proof (cases "tail = []")
    case True
    then show ?thesis using same by (simp add: ingestAppended_def s Let_def)
  next
    case False
    have 1: "sums_ok (extendBlockSums (idx\<lparr>loggers := lg, threads := th,
        records := (records idx)[?n - Suc 0 := x] @ ys\<rparr>) (int (?n - Suc 0)))" for x ys
      by (rule ext) simp_all
    have 2: "sums_ok (extendBlockSums (idx\<lparr>loggers := lg, threads := th, records := records idx @ ys\<rparr>) (int ?n))" for ys
      by (rule ext) simp_all
    show ?thesis
      using False same 1 [of "hd tail"] 1 [of "hd tail" "[]"] 2
      by (auto simp: ingestAppended_def s Let_def)
  qed
qed

lemma summary_height: "summary r = summary r' \<Longrightarrow> displayLines r = displayLines r'"
proof -
  assume "summary r = summary r'"
  then have "unat (lineCount r) = unat (lineCount r')" by (simp add: summary_def)
  then show ?thesis by (simp add: displayLines_def)
qed

lemma same_summaries_heights:
  "map summary rs = map summary rs' \<Longrightarrow> map displayLines rs = map displayLines rs'"
proof (induction rs arbitrary: rs')
  case (Cons r rs)
  then obtain r' rs'' where "rs' = r' # rs''" "summary r = summary r'" "map summary rs = map summary rs''"
    by auto
  with Cons.IH [of rs''] summary_height [of r r'] show ?case by simp
qed simp

lemma ingest_summaries:
  assumes sum: "map summary (records idx) =
      map (group_summary f parse) (group_lines (is_start f) (file_lines conv d old (m_bomLength d)))"
    and keep: "is_start f (hd (file_lines conv d old (ingest_offset idx d))) \<Longrightarrow>
      is_start f (hd (file_lines conv d (old @ extra) (ingest_offset idx d)))"
  shows "map summary (records (ingestAppended f parse conv d (\<lambda>pos want. take want (drop pos (old @ extra)))
      (length (old @ extra)) idx)) =
    map (group_summary f parse) (group_lines (is_start f) (file_lines conv d (old @ extra) (m_bomLength d)))"
proof -
  let ?rd = "\<lambda>pos want. take want (drop pos (old @ extra))" and ?off = "ingest_offset idx d"
  let ?t = "fst (scanAppendedTail f parse conv d ?rd (length (old @ extra)) ?off (loggers idx) (threads idx))"
  have t: "map summary ?t =
      map (group_summary f parse) (group_lines (is_start f) (file_lines conv d (old @ extra) ?off))"
    using forward_groups [OF kChunkBytes_pos, of "\<lambda>_. True" _ "loggers idx" "threads idx" f parse conv d
        "old @ extra" ?off]
    by (simp add: scanAppendedTail_def split_def Let_def)
  show ?thesis
  proof (cases ?t)
    case (Cons t ts)
    have "records idx = [] \<Longrightarrow> ?off = m_bomLength d" by (simp add: ingest_offset_def)
    moreover have "records idx \<noteq> [] \<Longrightarrow> ?off = nat (offset (last (records idx)))"
      by (simp add: ingest_offset_def)
    ultimately show ?thesis
      using grown_summaries [OF sum, of ?off extra] keep t Cons ingest_records [OF Cons]
      by (cases "records idx = []") auto
  next
    case Nil
    have nil: "records (ingestAppended f parse conv d ?rd (length (old @ extra)) idx) = records idx"
      using Nil by (simp add: ingestAppended_def split_def Let_def)
    have B: "file_lines conv d (old @ extra) ?off = []" using t Nil by simp
    have "records idx = []"
    proof (rule ccontr)
      assume ne: "records idx \<noteq> []"
      then have "?off < length old" using grown_summaries [OF sum ne _ keep] by (simp add: ingest_offset_def)
      then show False using B file_lines_step [of ?off "old @ extra" conv d] by simp
    qed
    then show ?thesis using nil B by (simp add: ingest_offset_def)
  qed
qed

text \<open>C1: live_append_is_reindex. Following a growing file gives the index a fresh pass over
  the grown file gives: when the index describes the old bytes and the line the last record
  starts with still starts a record once more bytes have arrived, re-reading from the last
  record and splicing gives the same offsets, lengths, line counts, times and priorities as
  re-indexing everything, and the same block sums.\<close>

theorem live_append_is_reindex:
  assumes "sums_ok idx"
    and "map summary (records idx) =
      map (group_summary f parse) (group_lines (is_start f) (file_lines conv d old (m_bomLength d)))"
    and "is_start f (hd (file_lines conv d old (ingest_offset idx d))) \<Longrightarrow>
      is_start f (hd (file_lines conv d (old @ extra) (ingest_offset idx d)))"
  shows "map summary (records (ingestAppended f parse conv d (\<lambda>pos want. take want (drop pos (old @ extra)))
      (length (old @ extra)) idx)) =
    map summary (records (fst (index f parse conv d (\<lambda>pos want. take want (drop pos (old @ extra)))
      (length (old @ extra)) (\<lambda>_ _. True)))) \<and>
    m_blockSums (ingestAppended f parse conv d (\<lambda>pos want. take want (drop pos (old @ extra)))
      (length (old @ extra)) idx) =
    m_blockSums (fst (index f parse conv d (\<lambda>pos want. take want (drop pos (old @ extra)))
      (length (old @ extra)) (\<lambda>_ _. True)))"
proof -
  let ?rd = "\<lambda>pos want. take want (drop pos (old @ extra))" and ?n = "length (old @ extra)"
  have "map summary (records (ingestAppended f parse conv d ?rd ?n idx)) =
      map summary (records (fst (index f parse conv d ?rd ?n (\<lambda>_ _. True))))"
    using ingest_summaries [OF assms(2,3)] index_summaries [of "\<lambda>_ _. True" f parse conv d "old @ extra"] by simp
  moreover have "sums_ok (fst (index f parse conv d ?rd ?n (\<lambda>_ _. True)))"
    by (simp add: index_def split_def Let_def sums_ok_rebuild)
  ultimately show ?thesis
    using ingest_sums [OF assms(1), of f parse conv d ?rd ?n] same_summaries_heights
    by (metis sums_ok_def)
qed

text \<open>A live log: the witness starts with a hash line and an unterminated one.\<close>

definition first_bytes :: bytes where
  "first_bytes = [0x23, 0x61, 0x0A, 0x23]"

lemma first_lines:
  "file_lines ascii_conv utf8_decoder first_bytes 0 = [(0, 3, ''#a''), (3, 1, ''#'')]"
  "file_lines ascii_conv utf8_decoder first_bytes 3 = [(3, 1, ''#'')]"
  "file_lines ascii_conv utf8_decoder (first_bytes @ [0x62, 0x0A, 0x63]) 3 = [(3, 3, ''#b''), (6, 1, ''c'')]"
  by (simp_all add: first_bytes_def file_lines_def line_walk.simps line_of_def lineEnd_def find_newline_def
      utf8_decoder_def decodeLine_def decode_def ascii_conv_def Let_def char_of_def bit_Suc_0_iff)

definition first_index :: record_index where
  "first_index = fst (index hash_format (\<lambda>_. 0) ascii_conv utf8_decoder
     (\<lambda>pos want. take want (drop pos first_bytes)) (length first_bytes) (\<lambda>_ _. True))"

lemma first_index_ok:
  "sums_ok first_index"
  "map summary (records first_index) = map (group_summary hash_format (\<lambda>_. 0))
     (group_lines (is_start hash_format) (file_lines ascii_conv utf8_decoder first_bytes (m_bomLength utf8_decoder)))"
  using index_summaries [of "\<lambda>_ _. True" hash_format "\<lambda>_. 0" ascii_conv utf8_decoder first_bytes]
  by (simp_all add: first_index_def) (simp add: index_def split_def Let_def sums_ok_rebuild)

lemma first_index_offset: "ingest_offset first_index utf8_decoder = 3"
proof -
  have s: "map summary (records first_index) =
      [(0, 3, 1, kNoTimestamp, Unknown), (3, 1, 1, kNoTimestamp, Unknown)]"
    unfolding first_index_ok(2) by (simp add: first_lines group_summary_def)
  then have ne: "records first_index \<noteq> []" by auto
  then have "summary (last (records first_index)) = (3, 1, 1, kNoTimestamp, Unknown)"
    using s last_map [OF ne, of summary] by simp
  with ne show ?thesis by (simp add: ingest_offset_def summary_def)
qed

theorem live_append_is_reindex_witness:
  "map summary (records (ingestAppended hash_format (\<lambda>_. 0) ascii_conv utf8_decoder
      (\<lambda>pos want. take want (drop pos (first_bytes @ [0x62, 0x0A, 0x63]))) (length (first_bytes @ [0x62, 0x0A, 0x63]))
      first_index)) =
    map summary (records (fst (index hash_format (\<lambda>_. 0) ascii_conv utf8_decoder
      (\<lambda>pos want. take want (drop pos (first_bytes @ [0x62, 0x0A, 0x63]))) (length (first_bytes @ [0x62, 0x0A, 0x63]))
      (\<lambda>_ _. True))))"
  using live_append_is_reindex [OF first_index_ok, of "[0x62, 0x0A, 0x63]"]
  by (simp add: first_index_offset first_lines)

end
