(* ===== verification/Visible.thy ===== *)
theory Visible
  imports BlockIndex
begin

text \<open>
  \<open>src/core/FilteredIndex.h\<close>: the visible subset of the records. The source index it is
  bound to is an argument \<open>src\<close> (the code keeps a pointer to it); rows and ordinals are
  \<open>int\<close>, the context flags booleans.
\<close>

record filtered_index =
  m_active :: bool
  m_ascending :: bool
  m_visible :: "int list"
  m_context :: "bool list"
  m_contextCount :: int
  m_compact :: record_index

definition filtered_empty :: filtered_index where
  "filtered_empty = \<lparr>m_active = False, m_ascending = True, m_visible = [], m_context = [],
     m_contextCount = 0, m_compact = record_index_empty\<rparr>"

fun ascending :: "int list \<Rightarrow> bool" where
  "ascending [] = True"
| "ascending [x] = True"
| "ascending (x # y # ys) = (if y \<le> x then False else ascending (y # ys))"

fun count_set :: "bool list \<Rightarrow> int \<Rightarrow> int" where
  "count_set [] n = n"
| "count_set (c # cs) n = count_set cs (n + (if c then 1 else 0))"

definition setVisible :: "record_index \<Rightarrow> int list \<Rightarrow> bool list \<Rightarrow> filtered_index \<Rightarrow> filtered_index" where
  "setVisible src visible context fi =
     (let ctx = resize (length visible) False context
      in \<lparr>m_active = True, m_ascending = ascending visible, m_visible = visible, m_context = ctx,
          m_contextCount = count_set ctx 0,
          m_compact = rebuildBlockSums ((m_compact fi)\<lparr>records := map (\<lambda>s. records src ! nat s) visible\<rparr>)\<rparr>)"

definition filtered_clear :: "filtered_index \<Rightarrow> filtered_index" where
  "filtered_clear fi = fi\<lparr>m_active := False, m_visible := [], m_context := [], m_contextCount := 0,
     m_ascending := True, m_compact := record_index_empty\<rparr>"

definition geometry :: "record_index \<Rightarrow> filtered_index \<Rightarrow> record_index" where
  "geometry src fi = (if m_active fi then m_compact fi else src)"

definition recordCount :: "record_index \<Rightarrow> filtered_index \<Rightarrow> int" where
  "recordCount src fi =
     (if m_active fi then int (length (records (m_compact fi))) else int (length (records src)))"

definition sourceRow :: "record_index \<Rightarrow> filtered_index \<Rightarrow> int \<Rightarrow> int" where
  "sourceRow src fi viewRow =
     (if \<not> m_active fi then
        (if 0 \<le> viewRow \<and> viewRow < int (length (records src)) then viewRow else - 1)
      else (if 0 \<le> viewRow \<and> viewRow < int (length (m_visible fi))
            then m_visible fi ! nat viewRow else - 1))"

text \<open>\<open>std::ranges::lower_bound\<close> over the ascending ordinals, and the scan for the others.\<close>

definition lowerBound :: "filtered_index \<Rightarrow> int \<Rightarrow> int" where
  "lowerBound fi s = int (length (takeWhile (\<lambda>v. v < s) (m_visible fi)))"

fun scan_row :: "int list \<Rightarrow> int \<Rightarrow> int \<Rightarrow> int" where
  "scan_row [] i s = - 1"
| "scan_row (v # vs) i s = (if v = s then i else scan_row vs (i + 1) s)"

definition viewRowOf :: "record_index \<Rightarrow> filtered_index \<Rightarrow> int \<Rightarrow> int" where
  "viewRowOf src fi s =
     (let n = recordCount src fi in
      if \<not> m_active fi then (if 0 \<le> s \<and> s < n then s else - 1)
      else if m_ascending fi then
        (let r = lowerBound fi s in if r < n \<and> m_visible fi ! nat r = s then r else - 1)
      else scan_row (m_visible fi) 0 s)"

definition viewRowAtOrAfter :: "record_index \<Rightarrow> filtered_index \<Rightarrow> int \<Rightarrow> int" where
  "viewRowAtOrAfter src fi s =
     (let n = recordCount src fi in
      if \<not> m_active fi then max 0 (min s n)
      else if \<not> m_ascending fi then
        (let exact = viewRowOf src fi s in if 0 \<le> exact then exact else n)
      else lowerBound fi s)"

definition isContext :: "filtered_index \<Rightarrow> int \<Rightarrow> bool" where
  "isContext fi viewRow =
     (m_active fi \<and> 0 \<le> viewRow \<and> viewRow < int (length (m_context fi)) \<and> m_context fi ! nat viewRow)"

definition contextCount :: "filtered_index \<Rightarrow> int" where
  "contextCount fi = (if m_active fi then m_contextCount fi else 0)"

text \<open>The scans from the end of the list, over the rows reversed.\<close>

fun last_match :: "(int \<times> bool) list \<Rightarrow> int" where
  "last_match [] = - 1"
| "last_match ((v, c) # rows) = (if \<not> c then v else last_match rows)"

definition lastMatchSource :: "filtered_index \<Rightarrow> int" where
  "lastMatchSource fi = last_match (rev (zip (m_visible fi) (m_context fi)))"

definition trailingCountFrom :: "filtered_index \<Rightarrow> int \<Rightarrow> int" where
  "trailingCountFrom fi minSourceRow =
     int (length (takeWhile (\<lambda>v. minSourceRow \<le> v) (rev (m_visible fi))))"

definition lastVisibleSource :: "filtered_index \<Rightarrow> int" where
  "lastVisibleSource fi = (if m_visible fi = [] then - 1 else last (m_visible fi))"

definition popLastVisible :: "filtered_index \<Rightarrow> filtered_index" where
  "popLastVisible fi =
     (if m_visible fi \<noteq> [] then
        fi\<lparr>m_contextCount := m_contextCount fi - (if last (m_context fi) then 1 else 0),
           m_context := butlast (m_context fi), m_visible := butlast (m_visible fi),
           m_compact := (m_compact fi)\<lparr>records := butlast (records (m_compact fi))\<rparr>\<rparr>
      else fi)"

definition appendVisible :: "int \<Rightarrow> log_record \<Rightarrow> bool \<Rightarrow> filtered_index \<Rightarrow> filtered_index" where
  "appendVisible s rec context fi =
     fi\<lparr>m_ascending := (m_ascending fi \<and> (m_visible fi = [] \<or> last (m_visible fi) < s)),
        m_visible := m_visible fi @ [s], m_context := m_context fi @ [context],
        m_contextCount := m_contextCount fi + (if context then 1 else 0),
        m_compact := (m_compact fi)\<lparr>records := records (m_compact fi) @ [rec]\<rparr>\<rparr>"

definition extendCompactSums :: "int \<Rightarrow> filtered_index \<Rightarrow> filtered_index" where
  "extendCompactSums validCount fi = fi\<lparr>m_compact := extendBlockSums (m_compact fi) validCount\<rparr>"

section \<open>The invariant\<close>

text \<open>The vectors are parallel, the counter counts, the flag tells the truth, and the compact
  records are the source's at the visible ordinals. \<open>shown\<close> is the abstract value.\<close>

definition shown :: "filtered_index \<Rightarrow> (int \<times> bool) list" where
  "shown fi = zip (m_visible fi) (m_context fi)"

definition filtered_wf :: "record_index \<Rightarrow> filtered_index \<Rightarrow> bool" where
  "filtered_wf src fi \<longleftrightarrow>
     length (m_context fi) = length (m_visible fi) \<and>
     m_contextCount fi = int (length (filter id (m_context fi))) \<and>
     (m_ascending fi \<longrightarrow> sorted_wrt (<) (m_visible fi)) \<and>
     (if m_active fi then
        (\<forall>v \<in> set (m_visible fi). 0 \<le> v \<and> v < int (length (records src))) \<and>
        records (m_compact fi) = map (\<lambda>s. records src ! nat s) (m_visible fi)
      else m_visible fi = [])"

lemma ascending_sorted: "ascending xs \<longleftrightarrow> sorted_wrt (<) xs"
  by (induction xs rule: ascending.induct) auto

lemma count_set_filter: "count_set cs n = n + int (length (filter id cs))"
  by (induction cs n rule: count_set.induct) auto

lemma wf_setVisible [wf_intros]:
  assumes "\<And>v. v \<in> set visible \<Longrightarrow> 0 \<le> v \<and> v < int (length (records src))"
  shows "filtered_wf src (setVisible src visible context fi)"
  using assms by (simp add: filtered_wf_def setVisible_def Let_def count_set_filter ascending_sorted
      rebuildBlockSums_def)

lemma wf_clear [wf_intros]: "filtered_wf src (filtered_clear fi)"
  by (simp add: filtered_wf_def filtered_clear_def)

lemma wf_pop [wf_intros]: "filtered_wf src fi \<Longrightarrow> filtered_wf src (popLastVisible fi)"
proof (cases "m_visible fi = []")
  case False
  assume wf: "filtered_wf src fi"
  from False wf obtain vs v cs c where v: "m_visible fi = vs @ [v]" "m_context fi = cs @ [c]"
    by (cases "m_visible fi" rule: rev_exhaust; cases "m_context fi" rule: rev_exhaust) (auto simp: filtered_wf_def)
  with wf show ?thesis
    by (auto simp: filtered_wf_def popLastVisible_def sorted_wrt_append)
qed (simp add: popLastVisible_def)

lemma wf_append [wf_intros]:
  assumes "filtered_wf src fi" and "m_active fi" and "0 \<le> s" and "s < int (length (records src))"
  shows "filtered_wf src (appendVisible s (records src ! nat s) context fi)"
proof -
  have "sorted_wrt (<) (m_visible fi @ [s])"
    if "m_ascending fi" "m_visible fi = [] \<or> last (m_visible fi) < s"
  proof -
    from assms(1) that(1) have so: "sorted_wrt (<) (m_visible fi)" by (simp add: filtered_wf_def)
    have "v < s" if v: "v \<in> set (m_visible fi)" for v
    proof -
      from v have ne: "m_visible fi \<noteq> []" by auto
      then obtain vs w where vw: "m_visible fi = vs @ [w]" by (metis append_butlast_last_id)
      have "v \<le> w" using v so unfolding vw by (auto simp: sorted_wrt_append)
      then show ?thesis using \<open>m_visible fi = [] \<or> last (m_visible fi) < s\<close> vw ne by simp
    qed
    then show ?thesis using so by (auto simp: sorted_wrt_append)
  qed
  then show ?thesis using assms by (auto simp: filtered_wf_def appendVisible_def)
qed

lemma wf_extend [wf_intros]: "filtered_wf src fi \<Longrightarrow> filtered_wf src (extendCompactSums n fi)"
  by (auto simp: filtered_wf_def extendCompactSums_def extendBlockSums_def rebuildBlockSums_def Let_def)

section \<open>Rows and ordinals\<close>

lemma takeWhile_less_nth:
  assumes "sorted_wrt (<) vs" and "j < length vs"
  shows "j < length (takeWhile (\<lambda>v. v < (s::int)) vs) \<longleftrightarrow> vs ! j < s"
  using assms
proof (induction vs arbitrary: j)
  case (Cons v vs)
  show ?case
  proof (cases j)
    case (Suc i)
    with Cons.prems have "v < vs ! i" by simp
    then have "vs ! i < s \<Longrightarrow> v < s" by (rule less_trans)
    moreover have "i < length (takeWhile (\<lambda>v. v < s) vs) \<longleftrightarrow> vs ! i < s"
      using Cons.IH [of i] Cons.prems Suc by simp
    ultimately show ?thesis using Suc by (cases "v < s") auto
  qed auto
qed simp

lemma lowerBound_nth:
  assumes "sorted_wrt (<) (m_visible fi)" and "j < length (m_visible fi)"
  shows "int j < lowerBound fi s \<longleftrightarrow> m_visible fi ! j < s"
  using takeWhile_less_nth [OF assms, of s] by (simp add: lowerBound_def)

lemma lowerBound_le: "0 \<le> lowerBound fi s \<and> lowerBound fi s \<le> int (length (m_visible fi))"
  by (simp add: lowerBound_def length_takeWhile_le)

lemma lowerBound_hit:
  assumes "sorted_wrt (<) (m_visible fi)" and "j < length (m_visible fi)" and "m_visible fi ! j = s"
  shows "lowerBound fi s = int j"
proof -
  have "\<not> int j < lowerBound fi s" using lowerBound_nth [OF assms(1,2)] assms(3) by simp
  moreover have "\<not> lowerBound fi s < int j"
  proof
    assume lt: "lowerBound fi s < int j"
    let ?i = "nat (lowerBound fi s)"
    have i: "?i < j" "?i < length (m_visible fi)" using lt lowerBound_le [of fi s] assms(2) by auto
    have "m_visible fi ! ?i < m_visible fi ! j"
      using sorted_wrt_nth_less [OF assms(1) i(1) assms(2)] .
    then have "int ?i < lowerBound fi s" using lowerBound_nth [OF assms(1) i(2)] assms(3) by simp
    then show False using lowerBound_le [of fi s] by simp
  qed
  ultimately show ?thesis by simp
qed

lemma scan_row_spec:
  "0 \<le> i \<Longrightarrow> (scan_row vs i s = - 1 \<longleftrightarrow> s \<notin> set vs) \<and>
     (s \<in> set vs \<longrightarrow> i \<le> scan_row vs i s \<and> scan_row vs i s < i + int (length vs) \<and>
        vs ! nat (scan_row vs i s - i) = s)"
proof (induction vs i s rule: scan_row.induct)
  case (2 v vs i s)
  show ?case
  proof (cases "v = s")
    case False
    with 2 have IH: "(scan_row vs (i + 1) s = - 1 \<longleftrightarrow> s \<notin> set vs)"
      "s \<in> set vs \<Longrightarrow> i + 1 \<le> scan_row vs (i + 1) s \<and> scan_row vs (i + 1) s < i + 1 + int (length vs) \<and>
         vs ! nat (scan_row vs (i + 1) s - (i + 1)) = s" by simp_all
    have "nat (r - i) = Suc (nat (r - (i + 1)))" if "i + 1 \<le> r" for r using that by simp
    with IH False show ?thesis by auto
  qed (use 2 in auto)
qed simp

lemma viewRowOf_spec:
  assumes wf: "filtered_wf src fi" and s: "0 \<le> s"
  shows "(viewRowOf src fi s = - 1 \<longleftrightarrow> (\<forall>v. 0 \<le> v \<and> v < recordCount src fi \<longrightarrow> sourceRow src fi v \<noteq> s)) \<and>
    (viewRowOf src fi s \<noteq> - 1 \<longrightarrow> 0 \<le> viewRowOf src fi s \<and> viewRowOf src fi s < recordCount src fi \<and>
       sourceRow src fi (viewRowOf src fi s) = s)"
proof (cases "m_active fi")
  case False
  then show ?thesis using s by (auto simp: viewRowOf_def sourceRow_def recordCount_def Let_def)
next
  case True
  let ?vs = "m_visible fi"
  have n: "recordCount src fi = int (length ?vs)" using True wf by (simp add: recordCount_def filtered_wf_def)
  have rows: "(\<forall>v. 0 \<le> v \<and> v < recordCount src fi \<longrightarrow> sourceRow src fi v \<noteq> s) \<longleftrightarrow> s \<notin> set ?vs"
  proof -
    have "s \<in> set ?vs \<longleftrightarrow> (\<exists>v. 0 \<le> v \<and> v < int (length ?vs) \<and> ?vs ! nat v = s)"
      unfolding in_set_conv_nth by (metis nat_int of_nat_0_le_iff of_nat_less_iff nat_less_iff)
    then show ?thesis using True n by (auto simp: sourceRow_def)
  qed
  show ?thesis
  proof (cases "m_ascending fi")
    case False
    then show ?thesis
      using scan_row_spec [of 0 ?vs s] True n unfolding rows
      by (auto simp: viewRowOf_def sourceRow_def Let_def)
  next
    case asc: True
    then have so: "sorted_wrt (<) ?vs" using wf by (simp add: filtered_wf_def)
    show ?thesis
    proof (cases "s \<in> set ?vs")
      case True
      then obtain j where j: "j < length ?vs" "?vs ! j = s" by (auto simp: in_set_conv_nth)
      with lowerBound_hit [OF so j] asc \<open>m_active fi\<close> n True show ?thesis unfolding rows
        by (simp add: viewRowOf_def sourceRow_def Let_def)
    next
      case no: False
      have "?vs ! nat r \<noteq> s" if "0 \<le> r" "r < int (length ?vs)" for r
        using no that nth_mem [of "nat r" ?vs] by auto
      with no asc True n lowerBound_le [of fi s] show ?thesis unfolding rows
        by (auto simp: viewRowOf_def Let_def)
    qed
  qed
qed

text \<open>Looking up a source record in the view answers -1 exactly when no
  view row shows it and otherwise a row that does, in the identity view and over an
  out-of-order subset too; over an ascending one the two mappings are inverse, and the row
  at or after an ordinal separates the smaller ordinals from the rest.\<close>

theorem filtered_rows_inverse:
  assumes "filtered_wf src fi" and "0 \<le> s"
  shows "(viewRowOf src fi s = - 1 \<longleftrightarrow> (\<forall>v. 0 \<le> v \<and> v < recordCount src fi \<longrightarrow> sourceRow src fi v \<noteq> s)) \<and>
    (viewRowOf src fi s \<noteq> - 1 \<longrightarrow> sourceRow src fi (viewRowOf src fi s) = s) \<and>
    (m_active fi \<and> m_ascending fi \<longrightarrow>
      (\<forall>v. 0 \<le> v \<and> v < recordCount src fi \<longrightarrow>
         viewRowOf src fi (sourceRow src fi v) = v \<and>
         (v < viewRowAtOrAfter src fi s \<longleftrightarrow> sourceRow src fi v < s)))"
proof -
  have "viewRowOf src fi (sourceRow src fi v) = v \<and>
      (v < viewRowAtOrAfter src fi s \<longleftrightarrow> sourceRow src fi v < s)"
    if a: "m_active fi" "m_ascending fi" and v: "0 \<le> v" "v < recordCount src fi" for v
  proof -
    from a assms(1) have n: "recordCount src fi = int (length (m_visible fi))"
      and so: "sorted_wrt (<) (m_visible fi)" by (simp_all add: recordCount_def filtered_wf_def)
    from v n have j: "nat v < length (m_visible fi)" by simp
    from lowerBound_hit [OF so j refl] lowerBound_nth [OF so j, of s] a v n j show ?thesis
      by (simp add: viewRowOf_def viewRowAtOrAfter_def sourceRow_def Let_def)
  qed
  with viewRowOf_spec [OF assms] show ?thesis by blast
qed

theorem filtered_rows_inverse_witness:
  "filtered_wf sample_index (setVisible sample_index [0] [] filtered_empty) \<and>
   viewRowOf sample_index (setVisible sample_index [0] [] filtered_empty) 0 = 0 \<and>
   sourceRow sample_index (setVisible sample_index [0] [] filtered_empty) 0 = 0"
proof -
  have wf: "filtered_wf sample_index (setVisible sample_index [0] [] filtered_empty)"
    using sample_index_ok(2) by (intro wf_setVisible) auto
  have "viewRowOf sample_index (setVisible sample_index [0] [] filtered_empty) 0 = 0"
    by (simp add: viewRowOf_def setVisible_def recordCount_def lowerBound_def Let_def rebuildBlockSums_def)
  with wf filtered_rows_inverse [OF wf, of 0] show ?thesis by simp
qed

end
