(* ===== verification/Filters.thy ===== *)
theory Filters
  imports Records "HOL-Library.Signed_Division"
begin

text \<open>
  \<open>src/core/Filter.h/.cpp\<close>: text queries, the filter axes and Find. Qt's regular
  expressions are parameters: which patterns compile, whether one matches a text, and the
  spans a global match iterates over. Case-insensitive comparison is by a folding of
  characters, a parameter as well.
\<close>

section \<open>Text queries\<close>

record text_matcher =
  m_pattern :: string
  m_regex :: bool
  m_cs :: bool
  m_re :: "(string \<times> bool) option"
  m_valid :: bool

definition matcher_default :: text_matcher where
  "matcher_default = \<lparr>m_pattern = [], m_regex = False, m_cs = False, m_re = None, m_valid = True\<rparr>"

record regex_engine =
  re_valid :: "string \<times> bool \<Rightarrow> bool"
  re_has :: "string \<times> bool \<Rightarrow> string \<Rightarrow> bool"
  re_global :: "string \<times> bool \<Rightarrow> string \<Rightarrow> (nat \<times> nat) list"
  case_fold :: "char \<Rightarrow> char"

definition matcher_set :: "regex_engine \<Rightarrow> string \<Rightarrow> bool \<Rightarrow> bool \<Rightarrow> text_matcher" where
  "matcher_set eng pattern regex cs =
     (if regex \<and> pattern \<noteq> [] then
        \<lparr>m_pattern = pattern, m_regex = regex, m_cs = cs, m_re = Some (pattern, \<not> cs),
         m_valid = re_valid eng (pattern, \<not> cs)\<rparr>
      else
        \<lparr>m_pattern = pattern, m_regex = regex, m_cs = cs, m_re = None, m_valid = True\<rparr>)"

text \<open>\<open>QString::indexOf\<close> and \<open>contains\<close> with a case option, for a needle that is not empty.\<close>

definition same_chars :: "regex_engine \<Rightarrow> bool \<Rightarrow> string \<Rightarrow> string \<Rightarrow> bool" where
  "same_chars eng cs a b =
     (if cs then a = b else map (case_fold eng) a = map (case_fold eng) b)"

definition occurs_at :: "regex_engine \<Rightarrow> bool \<Rightarrow> string \<Rightarrow> string \<Rightarrow> nat \<Rightarrow> bool" where
  "occurs_at eng cs needle hay i =
     (i + length needle \<le> length hay \<and> same_chars eng cs (take (length needle) (drop i hay)) needle)"

definition indexOf :: "regex_engine \<Rightarrow> bool \<Rightarrow> string \<Rightarrow> string \<Rightarrow> nat \<Rightarrow> nat option" where
  "indexOf eng cs needle hay from =
     List.find (\<lambda>i. occurs_at eng cs needle hay i) [from ..< Suc (length hay)]"

definition has_re :: "regex_engine \<Rightarrow> text_matcher \<Rightarrow> string \<Rightarrow> bool" where
  "has_re eng m t = (case m_re m of Some re \<Rightarrow> re_has eng re t | None \<Rightarrow> True)"

definition matches :: "regex_engine \<Rightarrow> text_matcher \<Rightarrow> string \<Rightarrow> bool" where
  "matches eng m t =
     (if m_pattern m = [] then True
      else if m_regex m then (if \<not> m_valid m then False else has_re eng m t)
      else indexOf eng (m_cs m) (m_pattern m) t 0 \<noteq> None)"

text \<open>The two loops of \<open>spans\<close>; \<open>limit\<close> is not positive for no bound.\<close>

fun re_spans :: "(nat \<times> nat) list \<Rightarrow> int \<Rightarrow> (nat \<times> nat) list \<Rightarrow> (nat \<times> nat) list" where
  "re_spans [] limit out = out"
| "re_spans ((start, len) # ms) limit out =
     (if len = 0 then re_spans ms limit out
      else if 0 < limit \<and> limit \<le> int (length (out @ [(start, len)])) then out @ [(start, len)]
      else re_spans ms limit (out @ [(start, len)]))"

function find_spans ::
  "regex_engine \<Rightarrow> bool \<Rightarrow> string \<Rightarrow> string \<Rightarrow> int \<Rightarrow> nat \<Rightarrow> (nat \<times> nat) list \<Rightarrow> (nat \<times> nat) list" where
  "find_spans eng cs needle hay limit from out =
     (if needle = [] then out
      else
        (case indexOf eng cs needle hay from of
           None \<Rightarrow> out
         | Some i \<Rightarrow>
             (if 0 < limit \<and> limit \<le> int (length (out @ [(i, length needle)]))
              then out @ [(i, length needle)]
              else find_spans eng cs needle hay limit (i + length needle) (out @ [(i, length needle)]))))"
  by pat_completeness auto

lemma indexOf_Some:
  "indexOf eng cs needle hay from = Some i \<Longrightarrow>
     from \<le> i \<and> occurs_at eng cs needle hay i \<and> (\<forall>j. from \<le> j \<and> j < i \<longrightarrow> \<not> occurs_at eng cs needle hay j)"
proof -
  assume "indexOf eng cs needle hay from = Some i"
  then obtain k where k: "k < length [from ..< Suc (length hay)]" "occurs_at eng cs needle hay i"
    "i = [from ..< Suc (length hay)] ! k"
    "\<forall>j<k. \<not> occurs_at eng cs needle hay ([from ..< Suc (length hay)] ! j)"
    unfolding indexOf_def find_Some_iff by blast
  then have i: "i = from + k" by (simp del: upt_Suc)
  have "\<not> occurs_at eng cs needle hay j" if "from \<le> j" "j < i" for j
    using k(4) [rule_format, of "j - from"] k(1) that i by (simp del: upt_Suc)
  then show ?thesis using k(2) i by auto
qed

lemma indexOf_None:
  "indexOf eng cs needle hay from = None \<Longrightarrow> from \<le> j \<Longrightarrow> \<not> occurs_at eng cs needle hay j"
  unfolding indexOf_def find_None_iff occurs_at_def by auto

lemma indexOf_bound:
  "indexOf eng cs needle hay from = Some i \<Longrightarrow> from \<le> i \<and> i + length needle \<le> length hay"
  using indexOf_Some [of eng cs needle hay "from" i] by (auto simp: occurs_at_def)

termination find_spans
proof (relation "measure (\<lambda>(eng, cs, needle, hay, limit, from, out). Suc (length hay) - from)", goal_cases)
  case (2 eng cs needle hay limit "from" out i)
  then show ?case using indexOf_bound [of eng cs needle hay "from" i] by (cases needle) auto
qed simp

declare find_spans.simps [simp del]

definition spans :: "regex_engine \<Rightarrow> text_matcher \<Rightarrow> string \<Rightarrow> int \<Rightarrow> (nat \<times> nat) list" where
  "spans eng m t limit =
     (if m_pattern m = [] \<or> t = [] then []
      else if m_regex m \<and> \<not> m_valid m then []
      else if m_regex m then
        re_spans (case m_re m of Some re \<Rightarrow> re_global eng re t | None \<Rightarrow> []) limit []
      else find_spans eng (m_cs m) (m_pattern m) t limit 0 [])"

section \<open>The filter axes\<close>

record text_filter =
  tf_enabled :: bool
  tf_negate :: bool
  tf_matcher :: text_matcher

definition tf_active :: "text_filter \<Rightarrow> bool" where
  "tf_active f = (tf_enabled f \<and> m_pattern (tf_matcher f) \<noteq> [])"

record filter_set =
  priorityEnabled :: bool
  minPriority :: priority
  loggerEnabled :: bool
  loggerIds :: "quint32 set"
  threadEnabled :: bool
  threadIds :: "quint32 set"
  timeEnabled :: bool
  startMs :: int
  endMs :: int
  text_axis :: text_filter
  absentFieldMatches :: bool

definition anyActive :: "filter_set \<Rightarrow> bool" where
  "anyActive f = (priorityEnabled f \<or> loggerEnabled f \<or> threadEnabled f \<or> timeEnabled f \<or>
     tf_active (text_axis f))"

definition acceptsIntegerAxes :: "filter_set \<Rightarrow> log_record \<Rightarrow> bool" where
  "acceptsIntegerAxes f r =
     (if priorityEnabled f \<and>
         (if prio r = Unknown then \<not> absentFieldMatches f else prio r < minPriority f) then False
      else if loggerEnabled f \<and>
         (if loggerId r = 0 then \<not> absentFieldMatches f else loggerId r \<notin> loggerIds f) then False
      else if threadEnabled f \<and>
         (if threadId r = 0 then \<not> absentFieldMatches f else threadId r \<notin> threadIds f) then False
      else if timeEnabled f \<and>
         (if timestamp r = kNoTimestamp then \<not> absentFieldMatches f
          else timestamp r < startMs f \<or> endMs f < timestamp r) then False
      else True)"

definition acceptsText :: "regex_engine \<Rightarrow> filter_set \<Rightarrow> string \<Rightarrow> bool" where
  "acceptsText eng f message =
     (if \<not> tf_active (text_axis f) then True
      else matches eng (tf_matcher (text_axis f)) message \<noteq> tf_negate (text_axis f))"

text \<open>\<open>accepts\<close>, with whether the record's message was decoded.\<close>

definition accepts :: "regex_engine \<Rightarrow> filter_set \<Rightarrow> log_record \<Rightarrow> (log_record \<Rightarrow> string) \<Rightarrow> bool \<times> bool" where
  "accepts eng f r msg =
     (if \<not> acceptsIntegerAxes f r then (False, False)
      else if \<not> tf_active (text_axis f) then (True, False)
      else (acceptsText eng f (msg r), True))"

section \<open>Find\<close>

text \<open>\<open>r % count\<close> with C's truncation, corrected when negative.\<close>

definition wrap_row :: "int \<Rightarrow> int \<Rightarrow> int" where
  "wrap_row r count = (let m = r smod count in if m < 0 then m + count else m)"

fun search_from :: "nat \<Rightarrow> int \<Rightarrow> int \<Rightarrow> int \<Rightarrow> bool \<Rightarrow> (int \<Rightarrow> bool) \<Rightarrow> int" where
  "search_from 0 count r step wrap mt = - 1"
| "search_from (Suc n) count r step wrap mt =
     (if (r < 0 \<or> count \<le> r) \<and> \<not> wrap then - 1
      else
        (let row = (if r < 0 \<or> count \<le> r then wrap_row r count else r) in
         if mt row then row else search_from n count (r + step) step wrap mt))"

definition search_start :: "int \<Rightarrow> int \<Rightarrow> bool \<Rightarrow> int" where
  "search_start count from forward =
     (if forward then (if from < 0 then 0 else from + 1)
      else (if from < 0 then count - 1 else from - 1))"

definition search :: "int \<Rightarrow> int \<Rightarrow> bool \<Rightarrow> bool \<Rightarrow> (int \<Rightarrow> bool) \<Rightarrow> int" where
  "search count from forward wrap mt =
     (if count \<le> 0 then - 1
      else search_from (nat count) count (search_start count from forward)
             (if forward then 1 else - 1) wrap mt)"

text \<open>\<open>tally\<close>: the clock is a parameter, the time read at a row.\<close>

record find_tally =
  total :: int
  tally_index :: int
  complete :: bool

fun tally_from :: "nat \<Rightarrow> int \<Rightarrow> int \<Rightarrow> int \<Rightarrow> (int \<Rightarrow> int) \<Rightarrow> (int \<Rightarrow> bool) \<Rightarrow> int \<Rightarrow> int \<Rightarrow> int \<times> int \<times> int" where
  "tally_from 0 r hit msLimit elapsed mt tot ix = (r, tot, ix)"
| "tally_from (Suc n) r hit msLimit elapsed mt tot ix =
     (let tot' = (if mt r then tot + 1 else tot);
          ix' = (if mt r \<and> r = hit then tot' else ix)
      in if 0 < msLimit \<and> r mod 256 = 255 \<and> msLimit \<le> elapsed r then (r + 1, tot', ix')
         else tally_from n (r + 1) hit msLimit elapsed mt tot' ix')"

definition tally :: "int \<Rightarrow> int \<Rightarrow> int \<Rightarrow> int \<Rightarrow> (int \<Rightarrow> int) \<Rightarrow> (int \<Rightarrow> bool) \<Rightarrow> find_tally" where
  "tally count hit rowLimit msLimit elapsed mt =
     (if count \<le> 0 then \<lparr>total = 0, tally_index = 0, complete = False\<rparr>
      else
        (let last = (if 0 < rowLimit then min count rowLimit else count);
             (r, tot, ix) = tally_from (nat last) 0 hit msLimit elapsed mt 0 0
         in \<lparr>total = tot, tally_index = ix, complete = (count \<le> r)\<rparr>))"

section \<open>What the spans are\<close>

text \<open>Spans in order, apart from each other, inside the text and not empty.\<close>

fun spans_ok :: "nat \<Rightarrow> nat \<Rightarrow> (nat \<times> nat) list \<Rightarrow> bool" where
  "spans_ok lo hi [] = True"
| "spans_ok lo hi ((i, n) # ss) = (lo \<le> i \<and> 0 < n \<and> i + n \<le> hi \<and> spans_ok (i + n) hi ss)"

lemma find_spans_spec:
  "needle \<noteq> [] \<Longrightarrow> \<exists>ss. find_spans eng cs needle hay limit from out = out @ ss \<and>
     spans_ok from (length hay) ss \<and> (\<forall>(i, n) \<in> set ss. n = length needle \<and> occurs_at eng cs needle hay i) \<and>
     (limit \<le> 0 \<longrightarrow> (\<forall>j. from \<le> j \<and> occurs_at eng cs needle hay j \<longrightarrow>
        (\<exists>(i, n) \<in> set ss. i \<le> j \<and> j < i + n))) \<and>
     (ss = [] \<longrightarrow> indexOf eng cs needle hay from = None) \<and>
     (0 < limit \<and> int (length out) < limit \<longrightarrow> int (length (out @ ss)) \<le> limit)"
proof (induction eng cs needle hay limit "from" out rule: find_spans.induct)
  case (1 eng cs needle hay limit "from" out)
  show ?case
  proof (cases "indexOf eng cs needle hay from")
    case None
    then show ?thesis using 1(2) indexOf_None [OF None]
      by (intro exI [of _ "[]"]) (auto simp: find_spans.simps [of eng cs needle hay limit "from" out])
  next
    case (Some i)
    let ?sp = "(i, length needle)"
    note io = indexOf_Some [OF Some]
    have occ: "i + length needle \<le> length hay" using io by (simp add: occurs_at_def)
    have cov: "i \<le> j" if "from \<le> j" "occurs_at eng cs needle hay j" for j
      using io that by (meson not_less)
    show ?thesis
    proof (cases "0 < limit \<and> limit \<le> int (length (out @ [?sp]))")
      case True
      then have "find_spans eng cs needle hay limit from out = out @ [?sp]"
        using Some 1(2) by (simp add: find_spans.simps [of eng cs needle hay limit "from" out])
      then show ?thesis using io occ True 1(2) by (intro exI [of _ "[?sp]"]) auto
    next
      case False
      then have step: "find_spans eng cs needle hay limit from out =
          find_spans eng cs needle hay limit (i + length needle) (out @ [?sp])"
        using Some 1(2) by (auto simp: find_spans.simps [of eng cs needle hay limit "from" out])
      obtain ss where ss: "find_spans eng cs needle hay limit (i + length needle) (out @ [?sp]) = (out @ [?sp]) @ ss"
        "spans_ok (i + length needle) (length hay) ss"
        "\<forall>(i, n) \<in> set ss. n = length needle \<and> occurs_at eng cs needle hay i"
        "limit \<le> 0 \<longrightarrow> (\<forall>j. i + length needle \<le> j \<and> occurs_at eng cs needle hay j \<longrightarrow>
           (\<exists>(i, n) \<in> set ss. i \<le> j \<and> j < i + n))"
        "0 < limit \<and> int (length (out @ [?sp])) < limit \<longrightarrow> int (length ((out @ [?sp]) @ ss)) \<le> limit"
        using 1(1) [OF 1(2) Some False 1(2)] by blast
      have "limit \<le> 0 \<longrightarrow> (\<forall>j. from \<le> j \<and> occurs_at eng cs needle hay j \<longrightarrow>
          (\<exists>(i, n) \<in> set (?sp # ss). i \<le> j \<and> j < i + n))"
        using ss(4) cov by (auto simp: not_less)
      then show ?thesis
        using step ss io occ 1(2) False by (intro exI [of _ "?sp # ss"]) auto
    qed
  qed
qed

text \<open>A small engine for witnesses: no pattern compiles, letters fold to lower case.\<close>

definition plain_engine :: regex_engine where
  "plain_engine = \<lparr>re_valid = (\<lambda>_. False), re_has = (\<lambda>_ _. False), re_global = (\<lambda>_ _. []),
     case_fold = (\<lambda>c. if c = CHR ''A'' then CHR ''a'' else c)\<rparr>"

text \<open>The marks a substring query puts on a text lie inside it, in
  order and apart, each on an occurrence of the pattern under the query's case option; there
  is a mark exactly when the query matches the text, no more than the limit, and without a
  limit every occurrence starts inside a mark.\<close>

theorem spans_mark_matches:
  assumes "pattern \<noteq> []"
  shows "spans_ok 0 (length t) (spans eng (matcher_set eng pattern False cs) t limit) \<and>
    (\<forall>(i, n) \<in> set (spans eng (matcher_set eng pattern False cs) t limit).
       n = length pattern \<and> same_chars eng cs (take n (drop i t)) pattern) \<and>
    (spans eng (matcher_set eng pattern False cs) t limit \<noteq> [] \<longleftrightarrow>
       matches eng (matcher_set eng pattern False cs) t) \<and>
    (0 < limit \<longrightarrow> int (length (spans eng (matcher_set eng pattern False cs) t limit)) \<le> limit) \<and>
    (limit \<le> 0 \<longrightarrow> (\<forall>j. occurs_at eng cs pattern t j \<longrightarrow>
       (\<exists>(i, n) \<in> set (spans eng (matcher_set eng pattern False cs) t limit). i \<le> j \<and> j < i + n)))"
proof (cases "t = []")
  case True
  then have "indexOf eng cs pattern t 0 = None" "\<And>j. \<not> occurs_at eng cs pattern t j"
    using assms by (auto simp: indexOf_def find_None_iff occurs_at_def)
  with True assms show ?thesis by (simp add: spans_def matcher_set_def matches_def)
next
  case False
  obtain ss where ss: "find_spans eng cs pattern t limit 0 [] = ss"
    "spans_ok 0 (length t) ss" "\<forall>(i, n) \<in> set ss. n = length pattern \<and> occurs_at eng cs pattern t i"
    "limit \<le> 0 \<longrightarrow> (\<forall>j. occurs_at eng cs pattern t j \<longrightarrow> (\<exists>(i, n) \<in> set ss. i \<le> j \<and> j < i + n))"
    "ss = [] \<longrightarrow> indexOf eng cs pattern t 0 = None" "0 < limit \<longrightarrow> int (length ss) \<le> limit"
    using find_spans_spec [OF assms, of eng cs t limit 0 "[]"] by auto
  have sp: "spans eng (matcher_set eng pattern False cs) t limit = ss"
    using assms False ss(1) by (simp add: spans_def matcher_set_def)
  have "indexOf eng cs pattern t 0 = None \<Longrightarrow> ss = []"
    using ss(3) indexOf_None [of eng cs pattern t 0] by (cases ss) auto
  then have "ss \<noteq> [] \<longleftrightarrow> matches eng (matcher_set eng pattern False cs) t"
    using assms ss(5) by (auto simp: matches_def matcher_set_def)
  then show ?thesis unfolding sp using ss by (auto simp: occurs_at_def)
qed

theorem spans_mark_matches_witness:
  "spans plain_engine (matcher_set plain_engine ''ab'' False False) ''Ab-abA'' 5 = [(0, 2), (3, 2)] \<and>
   matches plain_engine (matcher_set plain_engine ''ab'' False False) ''Ab-abA''"
proof -
  have "spans plain_engine (matcher_set plain_engine ''ab'' False False) ''Ab-abA'' 5 = [(0, 2), (3, 2)]"
    by (simp add: spans_def matcher_set_def find_spans.simps indexOf_def occurs_at_def same_chars_def
        plain_engine_def upt_rec numeral_eq_Suc)
  with spans_mark_matches [of "''ab''" "''Ab-abA''" plain_engine False 5] show ?thesis by simp
qed

section \<open>Find\<close>

lemma wrap_row_mod: "0 < count \<Longrightarrow> wrap_row r count = r mod count"
proof -
  assume c: "0 < count"
  have "r smod count = (if 0 \<le> r then r mod count else - ((- r) mod count))"
    using c by (simp add: signed_modulo_int_def sgn_if)
  then show ?thesis using c
    using pos_mod_sign [OF c, of r] pos_mod_bound [OF c, of r]
    by (auto simp: wrap_row_def Let_def zmod_zminus1_eq_if split: if_splits)
qed

lemma search_from_wrap:
  assumes "0 < count"
  shows "(search_from n count r step True mt = - 1 \<longleftrightarrow> (\<forall>k<n. \<not> mt ((r + step * int k) mod count))) \<and>
    (search_from n count r step True mt \<noteq> - 1 \<longrightarrow>
      (\<exists>k<n. search_from n count r step True mt = (r + step * int k) mod count \<and>
         mt ((r + step * int k) mod count) \<and> (\<forall>j<k. \<not> mt ((r + step * int j) mod count))))"
proof (induction n arbitrary: r)
  case 0
  then show ?case by simp
next
  case (Suc n)
  let ?row = "if r < 0 \<or> count \<le> r then wrap_row r count else r"
  have row: "?row = r mod count" using assms by (simp add: wrap_row_mod)
  have nn: "r mod count \<noteq> - 1" using pos_mod_sign [OF assms, of r] by linarith
  have shift: "r + step + step * int k = r + step * int (Suc k)" for k by (simp add: algebra_simps)
  show ?case
  proof (cases "mt (r mod count)")
    case True
    then have "search_from (Suc n) count r step True mt = r mod count" by (simp only: search_from.simps row) simp
    then show ?thesis using True nn by (auto intro!: exI [of _ 0])
  next
    case False
    then have s: "search_from (Suc n) count r step True mt = search_from n count (r + step) step True mt"
      by (simp only: search_from.simps row Let_def) simp
    let ?S = "search_from n count (r + step) step True mt"
    have all: "(\<forall>k<Suc m. \<not> mt ((r + step * int k) mod count)) \<longleftrightarrow>
        (\<forall>k<m. \<not> mt ((r + step + step * int k) mod count))" for m
      unfolding shift using False by (auto simp: less_Suc_eq_0_disj)
    have "\<exists>k<Suc n. ?S = (r + step * int k) mod count \<and> mt ((r + step * int k) mod count) \<and>
        (\<forall>j<k. \<not> mt ((r + step * int j) mod count))" if hit: "?S \<noteq> - 1"
    proof -
      obtain k where k: "k < n" "?S = (r + step + step * int k) mod count"
        "mt ((r + step + step * int k) mod count)" "\<forall>j<k. \<not> mt ((r + step + step * int j) mod count)"
        using Suc.IH [of "r + step"] hit by blast
      from k(4) have "\<forall>j<Suc k. \<not> mt ((r + step * int j) mod count)" unfolding all .
      with k(1-3) show ?thesis unfolding shift by (intro exI [of _ "Suc k"]) simp
    qed
    then show ?thesis unfolding s all using Suc.IH [of "r + step"] by blast
  qed
qed

lemma search_from_nowrap:
  "search_from n count r step False mt =
     (case List.find mt (takeWhile (\<lambda>row. 0 \<le> row \<and> row < count) (map (\<lambda>k. r + step * int k) [0..<n])) of
        Some row \<Rightarrow> row | None \<Rightarrow> - 1)"
proof (induction n arbitrary: r)
  case (Suc n)
  have "map (\<lambda>k. r + step * int k) [0..<Suc n] = r # map (\<lambda>k. (r + step) + step * int k) [0..<n]"
    by (simp add: map_upt_Suc algebra_simps del: upt_Suc)
  then show ?case by (simp add: Suc.IH [of "r + step"] Let_def)
qed simp

text \<open>How far ahead of the start a row lies, going round.\<close>

definition steps_to :: "int \<Rightarrow> int \<Rightarrow> bool \<Rightarrow> int \<Rightarrow> int" where
  "steps_to count start forward row = (if forward then row - start else start - row) mod count"

lemma steps_to_reach:
  assumes "0 < count" and "0 \<le> row" and "row < count"
  shows "(start + (if forward then 1 else - 1) * steps_to count start forward row) mod count = row"
    and "0 \<le> steps_to count start forward row" and "steps_to count start forward row < count"
proof -
  show "(start + (if forward then 1 else - 1) * steps_to count start forward row) mod count = row"
  proof (cases forward)
    case True
    have "(start + (row - start) mod count) mod count = row mod count" by (simp add: mod_simps)
    then show ?thesis using True assms by (simp add: steps_to_def)
  next
    case False
    have "(start - (start - row) mod count) mod count = row mod count" by (simp add: mod_simps)
    then show ?thesis using False assms by (simp add: steps_to_def)
  qed
qed (use assms in \<open>simp_all add: steps_to_def\<close>)

lemma steps_to_visit:
  "0 < count \<Longrightarrow> k < nat count \<Longrightarrow>
     steps_to count start forward ((start + (if forward then 1 else - 1) * int k) mod count) = int k"
  by (cases forward) (simp_all add: steps_to_def mod_simps)

text \<open>Find with wrap-around answers -1 exactly when no row matches, and
  otherwise the matching row reached in the fewest steps from the cursor in the direction
  asked for. Without wrap-around it is the first match among the rows between the cursor and
  the end in that direction.\<close>

theorem find_search_nearest:
  assumes "0 < count"
  shows "(search count cur forward True mt = - 1 \<longleftrightarrow> (\<forall>row. 0 \<le> row \<and> row < count \<longrightarrow> \<not> mt row)) \<and>
    (search count cur forward True mt \<noteq> - 1 \<longrightarrow>
       0 \<le> search count cur forward True mt \<and> search count cur forward True mt < count \<and>
       mt (search count cur forward True mt) \<and>
       (\<forall>row. 0 \<le> row \<and> row < count \<and> mt row \<longrightarrow>
          steps_to count (search_start count cur forward) forward (search count cur forward True mt)
            \<le> steps_to count (search_start count cur forward) forward row)) \<and>
    search count cur forward False mt =
      (case List.find mt (takeWhile (\<lambda>row. 0 \<le> row \<and> row < count)
          (map (\<lambda>k. search_start count cur forward + (if forward then 1 else - 1) * int k) [0..<nat count])) of
         Some row \<Rightarrow> row | None \<Rightarrow> - 1)"
proof -
  let ?st = "search_start count cur forward" and ?step = "if forward then 1 else - 1 :: int"
  let ?s = "search_from (nat count) count ?st ?step True mt"
  have s: "search count cur forward True mt = ?s" using assms by (simp add: search_def)
  note W = search_from_wrap [OF assms, of "nat count" ?st ?step mt]
  have row_of: "0 \<le> row \<and> row < count \<Longrightarrow> \<exists>k<nat count. row = (?st + ?step * int k) mod count" for row
    using steps_to_reach [OF assms, of row ?st forward]
    by (intro exI [of _ "nat (steps_to count ?st forward row)"]) auto
  have rng: "0 \<le> (?st + ?step * int k) mod count \<and> (?st + ?step * int k) mod count < count" for k
    using assms by simp
  have A: "?s = - 1 \<longleftrightarrow> (\<forall>row. 0 \<le> row \<and> row < count \<longrightarrow> \<not> mt row)"
    using W row_of rng by metis
  have B: "0 \<le> ?s \<and> ?s < count \<and> mt ?s \<and>
      (\<forall>row. 0 \<le> row \<and> row < count \<and> mt row \<longrightarrow>
         steps_to count ?st forward ?s \<le> steps_to count ?st forward row)" if hit: "?s \<noteq> - 1"
  proof -
    obtain k where k: "k < nat count" "?s = (?st + ?step * int k) mod count" "mt ?s"
      "\<forall>j<k. \<not> mt ((?st + ?step * int j) mod count)" using W hit by auto
    have "steps_to count ?st forward ?s \<le> steps_to count ?st forward row"
      if r: "0 \<le> row" "row < count" "mt row" for row
    proof -
      obtain j where j: "j < nat count" "row = (?st + ?step * int j) mod count" using row_of r by blast
      then have "\<not> j < k" using k(4) r(3) by blast
      then show ?thesis
        unfolding j(2) k(2) using steps_to_visit [OF assms j(1), of ?st forward] steps_to_visit [OF assms k(1), of ?st forward]
        by simp
    qed
    then show ?thesis using k rng by auto
  qed
  show ?thesis
    using A B assms search_from_nowrap [of "nat count" count ?st ?step mt] unfolding s by (simp add: search_def)
qed

theorem find_search_nearest_witness:
  "search 5 3 True True (\<lambda>r. r = 1 \<or> r = 2) = 1 \<and>
   \<not> (\<forall>row. 0 \<le> row \<and> row < (5::int) \<longrightarrow> \<not> (row = 1 \<or> row = 2))"
proof -
  have "search 5 3 True True (\<lambda>r. r = 1 \<or> r = 2) = 1"
    by (simp add: search_def search_start_def wrap_row_mod numeral_eq_Suc)
  with find_search_nearest [of 5 3 True "\<lambda>r. r = 1 \<or> r = 2"] show ?thesis by simp
qed

lemma tally_from_spec:
  "\<exists>m. r \<le> m \<and> m \<le> r + int n \<and> (msLimit \<le> 0 \<longrightarrow> m = r + int n) \<and>
     tally_from n r hit msLimit elapsed mt tot ix =
       (m, tot + int (length (filter mt [r..m - 1])),
        if r \<le> hit \<and> hit < m \<and> mt hit then tot + int (length (filter mt [r..hit])) else ix)"
proof (induction n arbitrary: r tot ix)
  case 0
  then show ?case by (intro exI [of _ r]) simp
next
  case (Suc n)
  let ?tot = "if mt r then tot + 1 else tot"
  let ?ix = "if mt r \<and> r = hit then ?tot else ix"
  show ?case
  proof (cases "0 < msLimit \<and> r mod 256 = 255 \<and> msLimit \<le> elapsed r")
    case True
    then show ?thesis by (intro exI [of _ "r + 1"]) (auto simp: Let_def)
  next
    case False
    from Suc.IH [of "r + 1" ?tot ?ix] obtain m where m: "r + 1 \<le> m" "m \<le> r + 1 + int n"
      "msLimit \<le> 0 \<longrightarrow> m = r + 1 + int n"
      "tally_from n (r + 1) hit msLimit elapsed mt ?tot ?ix =
        (m, ?tot + int (length (filter mt [r + 1..m - 1])),
         if r + 1 \<le> hit \<and> hit < m \<and> mt hit then ?tot + int (length (filter mt [r + 1..hit])) else ?ix)"
      by blast
    have step: "tally_from (Suc n) r hit msLimit elapsed mt tot ix =
        tally_from n (r + 1) hit msLimit elapsed mt ?tot ?ix"
      by (simp only: tally_from.simps Let_def False if_False)
    have u: "[r..m - 1] = r # [r + 1..m - 1]" using m(1) by (simp add: upto_rec1)
    have h: "r \<le> hit \<Longrightarrow> [r..hit] = r # [r + 1..hit]" by (simp add: upto_rec1)
    have "tally_from (Suc n) r hit msLimit elapsed mt tot ix =
       (m, tot + int (length (filter mt [r..m - 1])),
        if r \<le> hit \<and> hit < m \<and> mt hit then tot + int (length (filter mt [r..hit])) else ix)"
      unfolding step m(4) u using h m(1) by (cases "hit = r") auto
    then show ?thesis using m(1-3) by (intro exI [of _ m]) auto
  qed
qed

text \<open>The tally counts the matching rows of a prefix of the view that its row
  and time bounds allow and says whether that prefix is the whole view; a complete tally is
  the exact total, and the position of the hit is its rank among the matches when the prefix
  reaches it and 0 otherwise. Without a time bound the prefix is as long as the row bound.\<close>

theorem find_tally_exact:
  assumes "0 < count"
  shows "\<exists>m. 0 \<le> m \<and> m \<le> count \<and> (0 < rowLimit \<longrightarrow> m \<le> rowLimit) \<and>
    (msLimit \<le> 0 \<longrightarrow> m = (if 0 < rowLimit then min count rowLimit else count)) \<and>
    tally count hit rowLimit msLimit elapsed mt =
      \<lparr>total = int (length (filter mt [0..m - 1])),
       tally_index = (if 0 \<le> hit \<and> hit < m \<and> mt hit then int (length (filter mt [0..hit])) else 0),
       complete = (m = count)\<rparr>"
proof -
  let ?last = "if 0 < rowLimit then min count rowLimit else count"
  from tally_from_spec [of 0 "nat ?last" msLimit hit elapsed mt 0 0] obtain m where m:
    "0 \<le> m" "m \<le> int (nat ?last)" "msLimit \<le> 0 \<longrightarrow> m = int (nat ?last)"
    "tally_from (nat ?last) 0 hit msLimit elapsed mt 0 0 =
      (m, int (length (filter mt [0..m - 1])),
       if 0 \<le> hit \<and> hit < m \<and> mt hit then int (length (filter mt [0..hit])) else 0)" by auto
  then have "m \<le> ?last" "m \<le> count" using assms by (auto split: if_splits)
  then show ?thesis using m assms
    by (intro exI [of _ m]) (auto simp: tally_def Let_def split: if_splits)
qed

theorem find_tally_exact_witness:
  "tally 4 3 0 0 (\<lambda>_. 0) (\<lambda>r. r = 1 \<or> r = 3) = \<lparr>total = 2, tally_index = 2, complete = True\<rparr>"
proof -
  obtain m where "m = (4 :: int)" "tally 4 3 0 0 (\<lambda>_. 0) (\<lambda>r. r = 1 \<or> r = 3) =
      \<lparr>total = int (length (filter (\<lambda>r. r = 1 \<or> r = 3) [0..m - 1])),
       tally_index = (if 0 \<le> (3::int) \<and> 3 < m \<and> ((3::int) = 1 \<or> (3::int) = 3)
         then int (length (filter (\<lambda>r. r = 1 \<or> r = 3) [0..3])) else 0),
       complete = (m = 4)\<rparr>"
    using find_tally_exact [of 4 0 0 3 "\<lambda>_. 0" "\<lambda>r. r = 1 \<or> r = 3"] by auto
  then show ?thesis by (simp add: upto_rec1)
qed

section \<open>The predicate\<close>

text \<open>The axes one by one: a record passes an axis that is off, one whose field it does not
  carry when absent fields pass, and one that admits the field it carries.\<close>

definition axis_admits :: "bool \<Rightarrow> bool \<Rightarrow> bool \<Rightarrow> bool \<Rightarrow> bool" where
  "axis_admits enabled absent absent_passes admits =
     (enabled \<longrightarrow> (if absent then absent_passes else admits))"

lemma integer_axes:
  "acceptsIntegerAxes f r \<longleftrightarrow>
     axis_admits (priorityEnabled f) (prio r = Unknown) (absentFieldMatches f) (minPriority f \<le> prio r) \<and>
     axis_admits (loggerEnabled f) (loggerId r = 0) (absentFieldMatches f) (loggerId r \<in> loggerIds f) \<and>
     axis_admits (threadEnabled f) (threadId r = 0) (absentFieldMatches f) (threadId r \<in> threadIds f) \<and>
     axis_admits (timeEnabled f) (timestamp r = kNoTimestamp) (absentFieldMatches f)
       (startMs f \<le> timestamp r \<and> timestamp r \<le> endMs f)"
  by (simp add: acceptsIntegerAxes_def axis_admits_def not_less) (simp add: not_le [symmetric] disj_commute; blast)

text \<open>A record passes the filter exactly when it passes every axis
  on its own, so axes combine by AND and a switched-off axis hides nothing; and its message
  is decoded exactly when the integer axes have admitted it and the text axis is active.\<close>

theorem filter_axes_conjunction:
  "(fst (accepts eng f r msg) \<longleftrightarrow>
     axis_admits (priorityEnabled f) (prio r = Unknown) (absentFieldMatches f) (minPriority f \<le> prio r) \<and>
     axis_admits (loggerEnabled f) (loggerId r = 0) (absentFieldMatches f) (loggerId r \<in> loggerIds f) \<and>
     axis_admits (threadEnabled f) (threadId r = 0) (absentFieldMatches f) (threadId r \<in> threadIds f) \<and>
     axis_admits (timeEnabled f) (timestamp r = kNoTimestamp) (absentFieldMatches f)
       (startMs f \<le> timestamp r \<and> timestamp r \<le> endMs f) \<and>
     axis_admits (tf_active (text_axis f)) False True
       (matches eng (tf_matcher (text_axis f)) (msg r) \<noteq> tf_negate (text_axis f))) \<and>
   (snd (accepts eng f r msg) \<longleftrightarrow> acceptsIntegerAxes f r \<and> tf_active (text_axis f)) \<and>
   (anyActive f \<or> accepts eng f r msg = (True, False))"
proof -
  have "acceptsIntegerAxes f r" if "\<not> anyActive f"
    using that by (simp add: integer_axes axis_admits_def anyActive_def)
  moreover have "\<not> tf_active (text_axis f)" if "\<not> anyActive f"
    using that by (simp add: anyActive_def)
  ultimately have "anyActive f \<or> accepts eng f r msg = (True, False)"
    by (simp add: accepts_def) blast
  moreover have "fst (accepts eng f r msg) \<longleftrightarrow> acceptsIntegerAxes f r \<and>
      axis_admits (tf_active (text_axis f)) False True
        (matches eng (tf_matcher (text_axis f)) (msg r) \<noteq> tf_negate (text_axis f))"
    by (simp add: accepts_def acceptsText_def axis_admits_def)
  moreover have "snd (accepts eng f r msg) \<longleftrightarrow> acceptsIntegerAxes f r \<and> tf_active (text_axis f)"
    by (simp add: accepts_def)
  ultimately show ?thesis by (simp only: integer_axes) blast
qed

end
