(* ===== verification/Context.thy ===== *)
theory Context
  imports Visible Filters
begin

text \<open>
  Filter context: \<open>src/core/ContextEmitter.h\<close>, the parts of \<open>src/core/Document.cpp\<close> that drive
  it over the whole index, and the filtered branch of \<open>LiveController::ingestAppended\<close>, which
  resumes it at the tail. Rows are \<open>int\<close>; the two callables are predicates on rows.
\<close>

section \<open>The emitter\<close>

record context_state =
  lastEmitted :: int
  lastMatch :: int
  sinceMatch :: int

definition context_start :: context_state where
  "context_start = \<lparr>lastEmitted = - 1, lastMatch = - 1, sinceMatch = 0\<rparr>"

text \<open>The walk back from a match, gathering in-bound rows in descending order.\<close>

function lead_walk :: "(int \<Rightarrow> bool) \<Rightarrow> int \<Rightarrow> int \<Rightarrow> int list \<Rightarrow> int \<Rightarrow> int list" where
  "lead_walk inBound lastE before lead q =
     (if lastE < q \<and> int (length lead) < before then
        lead_walk inBound lastE before (if inBound q then lead @ [q] else lead) (q - 1)
      else lead)"
  by pat_completeness auto
termination
  by (relation "measure (\<lambda>(inBound, lastE, before, lead, q). nat (q - lastE))") auto

declare lead_walk.simps [simp del]

definition emit_row ::
  "int \<Rightarrow> int \<Rightarrow> (int \<Rightarrow> bool) \<Rightarrow> (int \<Rightarrow> bool) \<Rightarrow> context_state \<Rightarrow> int \<Rightarrow> context_state \<times> (int \<times> bool) list" where
  "emit_row before after inBound mt st r =
     (if \<not> inBound r then (st, [])
      else if mt r then
        (\<lparr>lastEmitted = r, lastMatch = r, sinceMatch = 0\<rparr>,
         map (\<lambda>q. (q, True)) (rev (lead_walk inBound (lastEmitted st) before [] (r - 1))) @ [(r, False)])
      else if 0 \<le> lastMatch st \<and> sinceMatch st < after then
        (st\<lparr>sinceMatch := sinceMatch st + 1, lastEmitted := r\<rparr>, [(r, True)])
      else (st, []))"

definition emitWithContext ::
  "int \<Rightarrow> int \<Rightarrow> int \<Rightarrow> int \<Rightarrow> context_state \<Rightarrow> (int \<Rightarrow> bool) \<Rightarrow> (int \<Rightarrow> bool) \<Rightarrow>
   context_state \<times> (int \<times> bool) list" where
  "emitWithContext firstRow lastRow before after st inBound mt =
     run_out (emit_row before after inBound mt) st [max firstRow 0..lastRow]"

section \<open>The document's side\<close>

record view_bound =
  m_viewRestricted :: bool
  m_viewStart :: int
  m_viewEnd :: int

definition inRunBound :: "view_bound \<Rightarrow> log_record \<Rightarrow> bool" where
  "inRunBound b r = (\<not> m_viewRestricted b \<or> (m_viewStart b \<le> offset r \<and> offset r < m_viewEnd b))"

definition matchesFilters :: "regex_engine \<Rightarrow> filter_set \<Rightarrow> (log_record \<Rightarrow> string) \<Rightarrow> log_record \<Rightarrow> bool" where
  "matchesFilters eng f msg r = fst (accepts eng f r msg)"

definition acceptsInView ::
  "regex_engine \<Rightarrow> view_bound \<Rightarrow> filter_set \<Rightarrow> (log_record \<Rightarrow> string) \<Rightarrow> log_record \<Rightarrow> bool" where
  "acceptsInView eng b f msg r = (inRunBound b r \<and> matchesFilters eng f msg r)"

definition inContextStream :: "view_bound \<Rightarrow> filter_set \<Rightarrow> log_record \<Rightarrow> bool" where
  "inContextStream b f r = (inRunBound b r \<and> acceptsIntegerAxes f r)"

definition matchesTextAxis :: "regex_engine \<Rightarrow> filter_set \<Rightarrow> (log_record \<Rightarrow> string) \<Rightarrow> log_record \<Rightarrow> bool" where
  "matchesTextAxis eng f msg r =
     (if \<not> tf_active (text_axis f) then True else acceptsText eng f (msg r))"

function window_start :: "(int \<Rightarrow> bool) \<Rightarrow> int \<Rightarrow> int \<Rightarrow> int" where
  "window_start inBound need r =
     (if 0 \<le> r then
        (if inBound r then (if need - 1 = 0 then r else window_start inBound (need - 1) (r - 1))
         else window_start inBound need (r - 1))
      else r)"
  by pat_completeness auto
termination
  by (relation "measure (\<lambda>(inBound, need, r). nat (r + 1))") auto

declare window_start.simps [simp del]

definition contextWindowStart :: "(int \<Rightarrow> bool) \<Rightarrow> int \<Rightarrow> int \<Rightarrow> int" where
  "contextWindowStart inBound row before =
     (if before \<le> 0 then max 0 row else max 0 (window_start inBound before (row - 1)))"

text \<open>A predicate on records, asked of a row of an index.\<close>

abbreviation at_row :: "record_index \<Rightarrow> (log_record \<Rightarrow> bool) \<Rightarrow> int \<Rightarrow> bool" where
  "at_row idx p row \<equiv> p (records idx ! nat row)"

definition emit_all ::
  "int \<Rightarrow> int \<Rightarrow> (log_record \<Rightarrow> bool) \<Rightarrow> (log_record \<Rightarrow> bool) \<Rightarrow> record_index \<Rightarrow> (int \<times> bool) list" where
  "emit_all before after inS mtT idx =
     snd (emitWithContext 0 (int (length (records idx)) - 1) before after context_start
            (at_row idx inS) (at_row idx mtT))"

definition applyFilters ::
  "regex_engine \<Rightarrow> view_bound \<Rightarrow> filter_set \<Rightarrow> (log_record \<Rightarrow> string) \<Rightarrow> int \<Rightarrow> int \<Rightarrow>
   record_index \<Rightarrow> filtered_index \<Rightarrow> filtered_index" where
  "applyFilters eng b f msg before after idx fi =
     (if \<not> m_viewRestricted b \<and> \<not> anyActive f then filtered_clear fi
      else
        (let rows = emit_all before after (inContextStream b f) (matchesTextAxis eng f msg) idx
         in setVisible idx (map fst rows) (map snd rows) fi))"

section \<open>The live path\<close>

fun pop_times :: "nat \<Rightarrow> filtered_index \<Rightarrow> filtered_index" where
  "pop_times 0 fi = fi"
| "pop_times (Suc n) fi = pop_times n (popLastVisible fi)"

definition append_rows :: "record_index \<Rightarrow> (int \<times> bool) list \<Rightarrow> filtered_index \<Rightarrow> filtered_index" where
  "append_rows idx rows fi =
     fold (\<lambda>(row, ctx) fi. appendVisible row (records idx ! nat row) ctx fi) rows fi"

definition candidate_start ::
  "int \<Rightarrow> (log_record \<Rightarrow> bool) \<Rightarrow> (log_record \<Rightarrow> bool) \<Rightarrow> record_index \<Rightarrow> int \<Rightarrow> bool \<Rightarrow> filtered_index \<Rightarrow> int" where
  "candidate_start before inS mtT idx oldCount provisionalChanged fi =
     (let base = (if 0 < oldCount then oldCount - 1 else 0);
          c = (if provisionalChanged then
                 (let wasMatch = (lastMatchSource fi = base);
                      nowMatch = (at_row idx inS base \<and> at_row idx mtT base)
                  in if 0 < before \<and> wasMatch \<noteq> nowMatch
                     then contextWindowStart (at_row idx inS) base before else base)
               else base + 1)
      in if oldCount = 0 then 0 else c)"

definition resume_state :: "filtered_index \<Rightarrow> context_state" where
  "resume_state fi =
     \<lparr>lastEmitted = lastVisibleSource fi, lastMatch = lastMatchSource fi,
      sinceMatch = (if 0 \<le> lastMatchSource fi then trailingCountFrom fi (lastMatchSource fi + 1) else 0)\<rparr>"

text \<open>\<open>idx\<close> is the source index with the tail already spliced in, \<open>oldCount\<close> the number of
  records before.\<close>

definition ingest_filtered ::
  "int \<Rightarrow> int \<Rightarrow> (log_record \<Rightarrow> bool) \<Rightarrow> (log_record \<Rightarrow> bool) \<Rightarrow> record_index \<Rightarrow> int \<Rightarrow> bool \<Rightarrow>
   filtered_index \<Rightarrow> filtered_index" where
  "ingest_filtered before after inS mtT idx oldCount provisionalChanged fi =
     (let c = candidate_start before inS mtT idx oldCount provisionalChanged fi;
          popCount = trailingCountFrom fi c;
          fi1 = (if 0 < popCount then
                   (let fi' = pop_times (nat popCount) fi
                    in extendCompactSums (recordCount idx fi') fi')
                 else fi);
          passing = snd (emitWithContext c (int (length (records idx)) - 1) before after
                           (resume_state fi1) (at_row idx inS) (at_row idx mtT))
      in if passing \<noteq> [] then
           extendCompactSums (recordCount idx fi1) (append_rows idx passing fi1)
         else fi1)"

section \<open>The leading window\<close>

definition leads :: "(int \<Rightarrow> bool) \<Rightarrow> int \<Rightarrow> int \<Rightarrow> int \<Rightarrow> int list" where
  "leads ib before lastE m = rev (lead_walk ib lastE before [] (m - 1))"

lemma lead_walk_rows:
  "rev (lead_walk ib lastE before lead q) =
     drop (length (filter ib [lastE + 1..q]) - nat (before - int (length lead))) (filter ib [lastE + 1..q])
       @ rev lead"
proof (induction ib lastE before lead q rule: lead_walk.induct)
  case (1 ib lastE before lead q)
  show ?case
  proof (cases "lastE < q \<and> int (length lead) < before")
    case False
    then show ?thesis by (auto simp: lead_walk.simps [of ib lastE before lead q])
  next
    case True
    let ?F = "filter ib [lastE + 1..q - 1]"
    have u: "[lastE + 1..q] = [lastE + 1..q - 1] @ [q]" using True by (simp add: upto_rec2)
    have k: "nat (before - int (length lead)) = Suc (nat (before - int (length (lead @ [q]))))"
      using True by (simp add: Suc_nat_eq_nat_zadd1)
    have "drop (Suc n - Suc k) (xs @ [q]) = drop (n - k) xs @ [q]" if "n = length xs" for n k xs
      using that by simp
    with k 1 [OF True] True show ?thesis
      by (simp add: lead_walk.simps [of ib lastE before lead q] u)
  qed
qed

lemma leads_rows:
  "leads ib before lastE m =
     drop (length (filter ib [lastE + 1..m - 1]) - nat before) (filter ib [lastE + 1..m - 1])"
  by (simp add: leads_def lead_walk_rows)

lemma leads_sorted: "sorted_wrt (<) (leads ib before lastE m)"
  unfolding leads_rows by (intro sorted_wrt_drop sorted_wrt_filter) simp

lemma leads_in: "q \<in> set (leads ib before lastE m) \<Longrightarrow> lastE < q \<and> q < m \<and> ib q"
  unfolding leads_rows by (auto dest: in_set_dropD)

lemma leads_cong:
  "(\<And>q. lastE < q \<Longrightarrow> q < m \<Longrightarrow> ib q = ib' q) \<Longrightarrow> leads ib before lastE m = leads ib' before lastE m"
proof -
  assume "\<And>q. lastE < q \<Longrightarrow> q < m \<Longrightarrow> ib q = ib' q"
  then have "filter ib [lastE + 1..m - 1] = filter ib' [lastE + 1..m - 1]"
    by (intro filter_cong) auto
  then show ?thesis by (simp add: leads_rows)
qed

lemma filter_upto_above:
  assumes "lo \<le> x + 1"
  shows "filter (\<lambda>q. x < q) (filter ib [lo..hi]) = filter ib [x + 1..hi]"
proof (cases "x < hi")
  case True
  then have "[lo..hi] = [lo..x] @ [x + 1..hi]"
    using assms upto_split2 [of lo x hi] by (cases "lo = x + 1") auto
  moreover have "filter (\<lambda>q. x < q \<and> ib q) [lo..x] = []" by simp
  moreover have "filter (\<lambda>q. x < q \<and> ib q) [x + 1..hi] = filter ib [x + 1..hi]"
    by (intro filter_cong) auto
  ultimately show ?thesis by (simp add: conj_commute)
next
  case False
  then show ?thesis by simp
qed

lemma sorted_cut:
  assumes "sorted_wrt (<) (L :: int list)" and "\<And>q. q \<in> set (filter (\<lambda>q. q < c) L) \<Longrightarrow> q \<le> x"
    and "x < c" and "x \<in> set (filter (\<lambda>q. q < c) L)"
  shows "L = filter (\<lambda>q. q < c) L @ filter (\<lambda>q. x < q) L"
proof -
  have e: "filter (\<lambda>q. x < q) L = filter (\<lambda>q. \<not> q < c) L"
  proof (rule filter_cong [OF refl])
    fix q assume "q \<in> set L"
    then show "(x < q) = (\<not> q < c)" using assms(2) [of q] assms(3) by auto
  qed
  have "sorted_wrt (<) (M :: int list) \<Longrightarrow> M = filter (\<lambda>q. q < c) M @ filter (\<lambda>q. \<not> q < c) M" for M
  proof (induction M)
    case (Cons q M)
    show ?case
    proof (cases "q < c")
      case False
      then have "filter (\<lambda>q. q < c) M = []" "filter (\<lambda>q. \<not> q < c) M = M"
        using Cons.prems by (auto simp: filter_empty_conv filter_id_conv)
      with False show ?thesis by simp
    qed (use Cons in simp)
  qed simp
  from this [OF assms(1)] show ?thesis unfolding e .
qed

text \<open>A window cut at \<open>c\<close>: what lies above the cut is again a window, over the rows above the last
  one kept.\<close>

lemma leads_split:
  assumes ne: "filter (\<lambda>q. q < c) (leads ib before lastE m) \<noteq> []"
  shows "filter (\<lambda>q. q < c) (leads ib before lastE m) @
      leads ib before (last (filter (\<lambda>q. q < c) (leads ib before lastE m))) m = leads ib before lastE m"
proof -
  let ?L = "leads ib before lastE m" and ?F = "filter ib [lastE + 1..m - 1]"
  let ?X = "filter (\<lambda>q. q < c) ?L"
  define x where "x = last ?X"
  have xin: "x \<in> set ?X" unfolding x_def using ne by (rule last_in_set)
  then have x: "x < c" "x \<in> set ?L" by auto
  have so: "sorted_wrt (<) ?L" by (rule leads_sorted)
  have below: "q \<le> x" if "q \<in> set ?X" for q
  proof -
    have "sorted_wrt (<) ?X" using so by (rule sorted_wrt_filter)
    then have "sorted_wrt (<) (butlast ?X @ [last ?X])" using ne by simp
    moreover have "q \<in> set (butlast ?X @ [last ?X])" using that ne by simp
    ultimately show ?thesis by (auto simp: sorted_wrt_append x_def)
  qed
  have split: "?L = ?X @ filter (\<lambda>q. x < q) ?L"
    using so below x(1) xin by (rule sorted_cut)
  let ?k = "length ?F - nat before"
  have L: "?L = drop ?k ?F" by (rule leads_rows)
  have Fx: "filter (\<lambda>q. x < q) ?F = filter ib [x + 1..m - 1]"
    using leads_in [OF x(2)] by (intro filter_upto_above) simp
  have "filter (\<lambda>q. x < q) ?F = filter (\<lambda>q. x < q) (take ?k ?F) @ filter (\<lambda>q. x < q) ?L"
    unfolding L by (metis append_take_drop_id filter_append)
  moreover have "filter (\<lambda>q. x < q) (take ?k ?F) = []"
  proof -
    have "sorted_wrt (<) (take ?k ?F @ drop ?k ?F)" by (simp add: sorted_wrt_filter)
    then have "\<forall>a\<in>set (take ?k ?F). a < x"
      using x(2) unfolding L sorted_wrt_append by blast
    then show ?thesis by (meson filter_False not_less_iff_gr_or_eq)
  qed
  ultimately have Y: "filter ib [x + 1..m - 1] = filter (\<lambda>q. x < q) ?L" using Fx by simp
  have "length (filter (\<lambda>q. x < q) ?L) \<le> nat before"
    using length_filter_le [of "\<lambda>q. x < q" ?L] L by simp
  then have "leads ib before x m = filter (\<lambda>q. x < q) ?L"
    unfolding leads_rows [of ib before x m] Y by simp
  then show ?thesis using split unfolding x_def by simp
qed

section \<open>The suffix invariant\<close>

text \<open>Rows in front of \<open>r\<close> are done: what the state says of the rows emitted, and that while the
  trailing window is open every in-bound row since the last match is among them.\<close>

definition emit_inv ::
  "int \<Rightarrow> (int \<Rightarrow> bool) \<Rightarrow> (int \<Rightarrow> bool) \<Rightarrow> int \<Rightarrow> context_state \<Rightarrow> (int \<times> bool) list \<Rightarrow> bool" where
  "emit_inv after ib mt r st out \<longleftrightarrow>
     sorted_wrt (<) (map fst out) \<and> (\<forall>q \<in> fst ` set out. 0 \<le> q \<and> q < r \<and> ib q) \<and>
     lastEmitted st = (if out = [] then - 1 else fst (last out)) \<and>
     lastMatch st = last_match (rev out) \<and>
     sinceMatch st = (if 0 \<le> lastMatch st then int (length (filter (\<lambda>p. lastMatch st < fst p) out)) else 0) \<and>
     - 1 \<le> lastMatch st \<and> lastMatch st \<le> lastEmitted st \<and>
     (0 \<le> lastMatch st \<longrightarrow> ib (lastMatch st) \<and> mt (lastMatch st)) \<and>
     (\<forall>q. lastMatch st < q \<and> 0 \<le> q \<and> q < r \<longrightarrow> \<not> (ib q \<and> mt q)) \<and>
     (0 \<le> lastMatch st \<and> sinceMatch st < after \<longrightarrow>
        (\<forall>q. lastMatch st < q \<and> q < r \<and> ib q \<longrightarrow> q \<le> lastEmitted st))"

lemma emit_inv_start: "emit_inv after ib mt 0 context_start []"
  by (auto simp: emit_inv_def context_start_def)

lemma last_match_leads: "last_match (map (\<lambda>q. (q, True)) qs @ rows) = last_match rows"
  by (induction qs) auto

lemma emit_inv_lastEmitted: "emit_inv after ib mt r st out \<Longrightarrow> 0 \<le> r \<Longrightarrow> lastEmitted st < r \<and> - 1 \<le> lastEmitted st"
  by (cases out rule: rev_exhaust) (auto simp: emit_inv_def)

lemma emit_inv_open:
  "emit_inv after ib mt r st out \<Longrightarrow> 0 \<le> lastMatch st \<Longrightarrow> sinceMatch st < after \<Longrightarrow>
     lastMatch st < q \<Longrightarrow> q < r \<Longrightarrow> ib q \<Longrightarrow> q \<le> lastEmitted st"
  unfolding emit_inv_def by blast

lemma emit_inv_row:
  assumes inv: "emit_inv after ib mt r st out" and r: "0 \<le> r"
  shows "emit_inv after ib mt (r + 1) (fst (emit_row before after ib mt st r))
    (out @ snd (emit_row before after ib mt st r))"
proof -
  note E = emit_inv_lastEmitted [OF inv r]
  have top: "q \<le> lastEmitted st" if "q \<in> fst ` set out" for q
  proof -
    from that obtain ps p where out: "out = ps @ [p]" by (cases out rule: rev_exhaust) auto
    then have "lastEmitted st = fst p" "sorted_wrt (<) (map fst ps @ [fst p])" using inv by (simp_all add: emit_inv_def)
    with that out show ?thesis by (auto simp: sorted_wrt_append)
  qed
  consider (skip) "\<not> ib r \<or> \<not> mt r \<and> \<not> (0 \<le> lastMatch st \<and> sinceMatch st < after)"
    | (hit) "ib r" "mt r" | (trail) "ib r" "\<not> mt r" "0 \<le> lastMatch st" "sinceMatch st < after"
    by blast
  then show ?thesis
  proof cases
    case skip
    then have "emit_row before after ib mt st r = (st, [])" by (auto simp: emit_row_def)
    moreover have "emit_inv after ib mt (r + 1) st out"
      unfolding emit_inv_def
    proof (intro conjI)
      show "\<forall>q \<in> fst ` set out. 0 \<le> q \<and> q < r + 1 \<and> ib q"
        using inv by (fastforce simp: emit_inv_def)
      show "\<forall>q. lastMatch st < q \<and> 0 \<le> q \<and> q < r + 1 \<longrightarrow> \<not> (ib q \<and> mt q)"
        using inv skip unfolding emit_inv_def zless_add1_eq by blast
      show "0 \<le> lastMatch st \<and> sinceMatch st < after \<longrightarrow>
          (\<forall>q. lastMatch st < q \<and> q < r + 1 \<and> ib q \<longrightarrow> q \<le> lastEmitted st)"
        using inv skip unfolding emit_inv_def zless_add1_eq by blast
    qed (use inv [unfolded emit_inv_def] in blast)+
    ultimately show ?thesis by simp
  next
    case trail
    have "sorted_wrt (<) (map fst out @ [r])"
      using inv top E by (auto simp: emit_inv_def sorted_wrt_append intro: le_less_trans)
    moreover have "lastMatch st < r" using inv E by (simp add: emit_inv_def)
    moreover have "False" if "lastMatch st < q" "q \<le> r" "ib q" "mt q" for q
      using inv that trail unfolding emit_inv_def by (cases "q = r") auto
    then have "\<And>q. last_match (rev out) < q \<Longrightarrow> q \<le> r \<Longrightarrow> ib q \<Longrightarrow> mt q \<Longrightarrow> False"
      using inv by (simp add: emit_inv_def)
    ultimately show ?thesis using inv trail r
      by (auto simp: emit_row_def emit_inv_def)
  next
    case hit
    let ?L = "leads ib before (lastEmitted st) r"
    have e: "emit_row before after ib mt st r =
        (\<lparr>lastEmitted = r, lastMatch = r, sinceMatch = 0\<rparr>, map (\<lambda>q. (q, True)) ?L @ [(r, False)])"
      using hit by (simp add: emit_row_def leads_def)
    have Lr: "sorted_wrt (<) (?L @ [r])"
      using leads_in [of _ ib before "lastEmitted st" r] leads_sorted [of ib before "lastEmitted st" r]
      by (simp add: sorted_wrt_append)
    have "x < y" if x: "x \<in> set (map fst out)" and y: "y \<in> set (?L @ [r])" for x y
    proof -
      have "x \<le> lastEmitted st" using top x by simp
      moreover have "lastEmitted st < y" using y leads_in [of y ib before "lastEmitted st" r] E by auto
      ultimately show ?thesis by simp
    qed
    moreover have "sorted_wrt (<) (map fst out)" using inv by (simp add: emit_inv_def)
    ultimately have "sorted_wrt (<) (map fst out @ ?L @ [r])"
      using Lr unfolding sorted_wrt_append [of _ "map fst out"] by blast
    moreover have R: "\<forall>q \<in> fst ` set out \<union> set ?L. 0 \<le> q \<and> q < r \<and> ib q"
      using inv E leads_in [of _ ib before "lastEmitted st" r] by (fastforce simp: emit_inv_def)
    moreover have R1: "\<forall>q \<in> fst ` set out. q < r" using R by blast
    then have "filter (\<lambda>p. r < fst p) out = []"
      by (intro filter_False) auto
    moreover have R2: "\<forall>q \<in> set ?L. q < r" using R by blast
    then have "filter (\<lambda>q. r < q) ?L = []" by (intro filter_False) auto
    moreover have "a \<le> r" if "(a, b) \<in> set out" for a b using R1 that by force
    ultimately show ?thesis unfolding e using hit r
      by (auto simp: emit_inv_def comp_def less_imp_le)
  qed
qed

lemma upto_Suc_row: "[c..c + int (Suc n) - 1] = [c..c + int n - 1] @ [c + int n]"
  using upto_rec2 [of c "c + int n"] by (simp add: algebra_simps)

lemma emit_inv_run:
  assumes "emit_inv after ib mt c st out" and "0 \<le> c"
  shows "emit_inv after ib mt (c + int n) (fst (run_out (emit_row before after ib mt) st [c..c + int n - 1]))
    (out @ snd (run_out (emit_row before after ib mt) st [c..c + int n - 1]))"
proof (induction n)
  case 0
  then show ?case using assms by simp
next
  case (Suc n)
  let ?R = "run_out (emit_row before after ib mt) st [c..c + int n - 1]"
  have "run_out (emit_row before after ib mt) st [c..c + int (Suc n) - 1] =
      (fst (emit_row before after ib mt (fst ?R) (c + int n)),
       snd ?R @ snd (emit_row before after ib mt (fst ?R) (c + int n)))"
    unfolding upto_Suc_row run_out_append by (simp add: Let_def split_def)
  with emit_inv_row [OF Suc.IH, of before] assms(2) show ?case by (simp add: add.commute add.left_commute)
qed

section \<open>Resuming at the tail\<close>

lemma emit_row_cong:
  assumes "\<And>q. lastEmitted st < q \<Longrightarrow> q \<le> r \<Longrightarrow> ib q = ib' q" and "mt r = mt' r"
    and "lastEmitted st < r"
  shows "emit_row before after ib mt st r = emit_row before after ib' mt' st r"
proof -
  have "leads ib before (lastEmitted st) r = leads ib' before (lastEmitted st) r"
    by (rule leads_cong) (use assms(1) in simp)
  with assms show ?thesis unfolding emit_row_def leads_def by simp
qed

lemma emit_row_lastEmitted:
  "lastEmitted st < r \<Longrightarrow> lastEmitted (fst (emit_row before after ib mt st r)) \<le> r \<and>
     lastEmitted st \<le> lastEmitted (fst (emit_row before after ib mt st r)) \<and>
     (\<forall>p \<in> set (snd (emit_row before after ib mt st r)). lastEmitted st < fst p)"
  by (auto simp: emit_row_def leads_def [symmetric] simp del: set_rev dest: leads_in)

lemma run_cong:
  assumes "\<And>q. lastEmitted st < q \<Longrightarrow> q < e \<Longrightarrow> ib q = ib' q \<and> mt q = mt' q"
    and "lastEmitted st < c"
  shows "run_out (emit_row before after ib mt) st [c..e - 1] = run_out (emit_row before after ib' mt') st [c..e - 1]"
  using assms
proof (induction "nat (e - c)" arbitrary: c st)
  case 0
  then show ?case by simp
next
  case (Suc n)
  then have c: "c < e" by simp
  have u: "[c..e - 1] = c # [c + 1..e - 1]" using c by (simp add: upto_rec1)
  have row: "emit_row before after ib mt st c = emit_row before after ib' mt' st c"
    by (rule emit_row_cong) (use Suc.prems c in auto)
  note le = emit_row_lastEmitted [OF Suc.prems(2), of before after ib mt]
  have "run_out (emit_row before after ib mt) (fst (emit_row before after ib mt st c)) [c + 1..e - 1] =
      run_out (emit_row before after ib' mt') (fst (emit_row before after ib mt st c)) [c + 1..e - 1]"
    by (rule Suc.hyps(1)) (use Suc le in auto)
  then show ?case unfolding u run_out_Cons row by simp
qed

lemma run_above:
  assumes "lastEmitted st < c"
  shows "\<forall>p \<in> set (snd (run_out (emit_row before after ib mt) st [c..e])). lastEmitted st < fst p"
  using assms
proof (induction "nat (e + 1 - c)" arbitrary: c st)
  case 0
  then show ?case by simp
next
  case (Suc n)
  then have u: "[c..e] = c # [c + 1..e]" by (simp add: upto_rec1)
  note le = emit_row_lastEmitted [OF Suc.prems, of before after ib mt]
  have "\<forall>p \<in> set (snd (run_out (emit_row before after ib mt) (fst (emit_row before after ib mt st c)) [c + 1..e])).
      lastEmitted (fst (emit_row before after ib mt st c)) < fst p"
    by (rule Suc.hyps(1)) (use Suc le in auto)
  then show ?case unfolding u run_out_Cons using le by fastforce
qed

text \<open>Rows that do not match write nothing in front of themselves, and nothing at all while the
  trailing window is closed.\<close>

lemma run_misses:
  "(\<And>q. q \<in> set rs \<Longrightarrow> \<not> (ib q \<and> mt q)) \<Longrightarrow>
     fst ` set (snd (run_out (emit_row before after ib mt) st rs)) \<subseteq> set rs"
proof (induction rs arbitrary: st)
  case (Cons q rs)
  then have "fst ` set (snd (emit_row before after ib mt st q)) \<subseteq> {q}" by (auto simp: emit_row_def)
  moreover from Cons have "fst ` set (snd (run_out (emit_row before after ib mt)
      (fst (emit_row before after ib mt st q)) rs)) \<subseteq> set rs" by simp
  ultimately show ?case unfolding run_out_Cons by auto
qed simp

lemma run_closed:
  "(\<And>q. q \<in> set rs \<Longrightarrow> \<not> (ib q \<and> mt q)) \<Longrightarrow> lastMatch st < 0 \<or> after \<le> sinceMatch st \<Longrightarrow>
     run_out (emit_row before after ib mt) st rs = (st, [])"
proof (induction rs)
  case (Cons q rs)
  then have "emit_row before after ib mt st q = (st, [])" by (auto simp: emit_row_def)
  with Cons show ?case by simp
qed simp

lemma upto_at: "c \<le> m \<Longrightarrow> m \<le> e \<Longrightarrow> [c..e] = [c..m - 1] @ m # [m + 1..e]" for c m e :: int
  using upto_split2 [of c "m - 1" e] upto_rec1 [of m e] by (cases "c = m") auto

text \<open>The rows a scan from \<open>c\<close> writes in front of \<open>c\<close> are leading rows of its first match, and then
  nothing was written before that match.\<close>

lemma early_rows:
  assumes inv: "emit_inv after ib mt c st out" and c: "0 \<le> c"
    and X: "X = filter (\<lambda>p. fst p < c) (snd (run_out (emit_row before after ib mt) st [c..e]))"
    and ne: "X \<noteq> []"
  shows "\<exists>m. c \<le> m \<and> m \<le> e \<and> ib m \<and> mt m \<and> (\<forall>q. c \<le> q \<and> q < m \<longrightarrow> \<not> (ib q \<and> mt q)) \<and>
    (lastMatch st < 0 \<or> after \<le> sinceMatch st) \<and>
    X = map (\<lambda>q. (q, True)) (filter (\<lambda>q. q < c) (leads ib before (lastEmitted st) m))"
proof -
  let ?R = "run_out (emit_row before after ib mt)"
  have E: "lastEmitted st < c" using emit_inv_lastEmitted [OF inv c] by simp
  have "\<exists>m \<in> set [c..e]. ib m \<and> mt m"
  proof (rule ccontr)
    assume "\<not> ?thesis"
    then have "fst ` set (snd (?R st [c..e])) \<subseteq> set [c..e]" by (intro run_misses) blast
    then have "X = []" unfolding X filter_empty_conv by fastforce
    with ne show False by simp
  qed
  then obtain m' where m': "c \<le> m'" "m' \<le> e" "ib m'" "mt m'" by auto
  define m where "m = c + int (LEAST k. ib (c + int k) \<and> mt (c + int k))"
  have P: "ib (c + int (nat (m' - c))) \<and> mt (c + int (nat (m' - c)))" using m' by simp
  have m: "c \<le> m" "ib m" "mt m" unfolding m_def using LeastI [of "\<lambda>k. ib (c + int k) \<and> mt (c + int k)", OF P] by simp_all
  have "m \<le> m'" unfolding m_def using Least_le [of "\<lambda>k. ib (c + int k) \<and> mt (c + int k)", OF P] m'(1) by linarith
  with m'(2) have me: "m \<le> e" by simp
  have first: "\<not> (ib q \<and> mt q)" if "c \<le> q" "q < m" for q
    using not_less_Least [of "nat (q - c)" "\<lambda>k. ib (c + int k) \<and> mt (c + int k)"] that
    unfolding m_def by auto
  let ?st1 = "fst (?R st [c..m - 1])" and ?T = "snd (?R st [c..m - 1])"
  let ?L = "leads ib before (lastEmitted ?st1) m"
  have inv1: "emit_inv after ib mt m ?st1 (out @ ?T)"
    using emit_inv_run [OF inv c, where before = before and n = "nat (m - c)"] m(1) by simp
  have row: "emit_row before after ib mt ?st1 m =
      (\<lparr>lastEmitted = m, lastMatch = m, sinceMatch = 0\<rparr>, map (\<lambda>q. (q, True)) ?L @ [(m, False)])"
    using m by (simp add: emit_row_def leads_def)
  let ?S = "snd (?R \<lparr>lastEmitted = m, lastMatch = m, sinceMatch = 0\<rparr> [m + 1..e])"
  have D: "snd (?R st [c..e]) = ?T @ map (\<lambda>q. (q, True)) ?L @ (m, False) # ?S"
    unfolding upto_at [OF m(1) me] run_out_append run_out_Cons row by (simp add: Let_def split_def row)
  have T: "fst ` set ?T \<subseteq> set [c..m - 1]" by (rule run_misses) (use first in auto)
  then have "filter (\<lambda>p. fst p < c) ?T = []" by (fastforce simp: filter_empty_conv)
  moreover have "filter (\<lambda>p. fst p < c) ?S = []"
    using run_above [of "\<lparr>lastEmitted = m, lastMatch = m, sinceMatch = 0\<rparr>" "m + 1" before after ib mt e] m(1)
    by (fastforce simp: filter_empty_conv)
  ultimately have X1: "X = map (\<lambda>q. (q, True)) (filter (\<lambda>q. q < c) ?L)"
    unfolding X D using m(1) by (simp add: filter_map comp_def)
  then obtain q where q: "q \<in> set ?L" "q < c" using ne by (auto simp: filter_empty_conv)
  from leads_in [OF q(1)] have qE: "lastEmitted ?st1 < q" "ib q" by auto
  have T0: "?T = []"
  proof (rule ccontr)
    assume "?T \<noteq> []"
    then have "lastEmitted ?st1 = fst (last ?T)" using inv1 by (simp add: emit_inv_def)
    moreover have "c \<le> fst (last ?T)" using T last_in_set [OF \<open>?T \<noteq> []\<close>] by fastforce
    ultimately show False using qE q(2) by simp
  qed
  have same: "lastEmitted ?st1 = lastEmitted st"
    using inv inv1 T0 by (simp add: emit_inv_def)
  have closed: "lastMatch st < 0 \<or> after \<le> sinceMatch st"
  proof (rule ccontr)
    assume "\<not> ?thesis"
    then have "0 \<le> lastMatch st" "sinceMatch st < after" by auto
    moreover have "lastMatch st < q" using inv qE same by (simp add: emit_inv_def)
    ultimately have "q \<le> lastEmitted st" using q(2) qE(2) by (rule emit_inv_open [OF inv])
    then show False using qE same by simp
  qed
  show ?thesis using m me first closed X1 same by auto
qed

definition resumed :: "context_state \<Rightarrow> (int \<times> bool) list \<Rightarrow> context_state" where
  "resumed st X = \<lparr>lastEmitted = (if X = [] then lastEmitted st else fst (last X)), lastMatch = lastMatch st,
     sinceMatch = (if 0 \<le> lastMatch st then sinceMatch st + int (length X) else 0)\<rparr>"

lemma resume_same:
  assumes inv: "emit_inv after ib mt c st out"
    and X: "X \<noteq> [] \<Longrightarrow> c \<le> m \<and> m \<le> e \<and> ib m \<and> mt m \<and> (\<forall>q. c \<le> q \<and> q < m \<longrightarrow> \<not> (ib q \<and> mt q)) \<and>
      (lastMatch st < 0 \<or> after \<le> sinceMatch st) \<and>
      X = map (\<lambda>q. (q, True)) (filter (\<lambda>q. q < c) (leads ib before (lastEmitted st) m))"
  shows "X @ snd (run_out (emit_row before after ib mt) (resumed st X) [c..e]) =
    snd (run_out (emit_row before after ib mt) st [c..e])"
proof (cases "X = []")
  case True
  then have "resumed st X = st" using inv by (simp add: resumed_def emit_inv_def)
  then show ?thesis using True by simp
next
  case False
  note m = X [OF False]
  let ?F = "filter (\<lambda>q. q < c) (leads ib before (lastEmitted st) m)"
  have F: "?F \<noteq> []" using False m by auto
  have hit: "emit_row before after ib mt s m = (\<lparr>lastEmitted = m, lastMatch = m, sinceMatch = 0\<rparr>,
      map (\<lambda>q. (q, True)) (leads ib before (lastEmitted s) m) @ [(m, False)])" for s
    using m by (simp add: emit_row_def leads_def)
  have misses: "q \<in> set [c..m - 1] \<Longrightarrow> \<not> (ib q \<and> mt q)" for q using m by simp
  have r1: "run_out (emit_row before after ib mt) st [c..m - 1] = (st, [])"
    by (rule run_closed [OF misses]) (use m in auto)
  have r2: "run_out (emit_row before after ib mt) (resumed st X) [c..m - 1] = (resumed st X, [])"
    by (rule run_closed [OF misses]) (use m in \<open>auto simp: resumed_def\<close>)
  have last: "lastEmitted (resumed st X) = last ?F"
    using m F by (simp add: resumed_def last_map)
  have rest: "snd (run_out (emit_row before after ib mt) s [c..e]) =
      map (\<lambda>q. (q, True)) (leads ib before (lastEmitted s) m) @ (m, False) #
      snd (run_out (emit_row before after ib mt) \<lparr>lastEmitted = m, lastMatch = m, sinceMatch = 0\<rparr> [m + 1..e])"
    if "run_out (emit_row before after ib mt) s [c..m - 1] = (s, [])" for s
    using m that unfolding upto_at [OF conjunct1 [OF m] conjunct1 [OF conjunct2 [OF m]]] run_out_append run_out_Cons
    by (simp add: hit Let_def split_def)
  have "X @ map (\<lambda>q. (q, True)) (leads ib before (lastEmitted (resumed st X)) m) =
      map (\<lambda>q. (q, True)) (leads ib before (lastEmitted st) m)"
    unfolding last using m arg_cong [OF leads_split [OF F], of "map (\<lambda>q. (q, True))"] by simp
  then show ?thesis unfolding rest [OF r1] rest [OF r2] by simp
qed

text \<open>The window start leaves room for every leading row of a match at the row it is asked of.\<close>

lemma window_start_rows:
  "0 < need \<Longrightarrow> - 1 \<le> r \<Longrightarrow> window_start ib need r \<le> r \<and> - 1 \<le> window_start ib need r \<and>
     (0 \<le> window_start ib need r \<longrightarrow> int (length (filter ib [window_start ib need r..r])) = need)"
proof (induction ib need r rule: window_start.induct)
  case (1 ib need r)
  show ?case
  proof (cases "0 \<le> r")
    case False
    then show ?thesis using 1(4) by (simp add: window_start.simps [of ib need r])
  next
    case r: True
    have u: "[w..r] = [w..r - 1] @ [r]" if "w \<le> r - 1" for w using that by (simp add: upto_rec2)
    show ?thesis
    proof (cases "ib r")
      case False
      then show ?thesis using 1(2) [OF r False] 1(3) r u [of "window_start ib need (r - 1)"]
        by (simp add: window_start.simps [of ib need r])
    next
      case True
      show ?thesis
      proof (cases "need = 1")
        case one: True
        then show ?thesis using r True by (simp add: window_start.simps [of ib 1 r])
      next
        case False
        then show ?thesis using 1(1) [OF r True] 1(3) r True u [of "window_start ib (need - 1) (r - 1)"]
          by (simp add: window_start.simps [of ib need r])
      qed
    qed
  qed
qed

lemma window_covers:
  assumes "0 < before" and "0 \<le> row" and "- 1 \<le> lastE"
  shows "filter (\<lambda>q. q < contextWindowStart ib row before) (leads ib before lastE row) = []"
proof -
  let ?w = "window_start ib before (row - 1)" and ?F = "filter ib [lastE + 1..row - 1]"
  let ?L = "leads ib before lastE row"
  have c: "contextWindowStart ib row before = max 0 ?w" using assms(1) by (simp add: contextWindowStart_def)
  note W = window_start_rows [OF assms(1), of "row - 1" ib]
  show ?thesis
  proof (cases "0 \<le> ?w \<and> lastE < ?w")
    case True
    have split: "[lastE + 1..row - 1] = [lastE + 1..?w - 1] @ [?w..row - 1]"
      using True W assms(2) upto_split1 [of "lastE + 1" ?w "row - 1"] by simp
    have "int (length (filter ib [?w..row - 1])) = before" using W True assms by simp
    then have "length (filter ib [?w..row - 1]) = nat before" by linarith
    then have "?L = filter ib [?w..row - 1]" unfolding leads_rows split by simp
    then show ?thesis unfolding c using True by (auto simp: filter_empty_conv)
  next
    case False
    have "\<not> q < max 0 ?w" if "q \<in> set ?L" for q
      using False leads_in [OF that] assms(3) by auto
    then show ?thesis unfolding c by (intro filter_False) auto
  qed
qed

section \<open>The visible subset as a value\<close>

text \<open>The index \<open>setVisible\<close> makes of a list of rows, and the two edits of the live path on it.\<close>

definition view_of :: "record_index \<Rightarrow> (int \<times> bool) list \<Rightarrow> filtered_index \<Rightarrow> filtered_index" where
  "view_of idx rows fi = setVisible idx (map fst rows) (map snd rows) fi"

lemma resize_same [simp]: "length xs = n \<Longrightarrow> resize n x xs = xs"
  by (simp add: resize_def)

lemma view_of_fields [simp]:
  "m_visible (view_of idx rows fi) = map fst rows"
  "m_context (view_of idx rows fi) = map snd rows"
  "m_active (view_of idx rows fi)"
  by (simp_all add: view_of_def setVisible_def Let_def)

lemma sorted_split: "sorted_wrt (<) (M :: int list) \<Longrightarrow> M = filter (\<lambda>q. q < c) M @ filter (\<lambda>q. c \<le> q) M"
proof (induction M)
  case (Cons q M)
  show ?case
  proof (cases "q < c")
    case False
    then have "filter (\<lambda>q. q < c) M = []" "filter (\<lambda>q. c \<le> q) M = M"
      using Cons.prems by (auto simp: filter_empty_conv filter_id_conv)
    with False show ?thesis by simp
  qed (use Cons in simp)
qed simp

lemma trailing_rows:
  assumes "sorted_wrt (<) (m_visible fi)"
  shows "trailingCountFrom fi c = int (length (filter (\<lambda>q. c \<le> q) (m_visible fi)))"
proof -
  let ?A = "filter (\<lambda>q. q < c) (m_visible fi)" and ?B = "filter (\<lambda>q. c \<le> q) (m_visible fi)"
  have "rev (m_visible fi) = rev ?B @ rev ?A" by (metis sorted_split [OF assms] rev_append)
  moreover have "takeWhile (\<lambda>v. c \<le> v) (rev ?B @ rev ?A) = rev ?B"
    by (subst takeWhile_append2) (auto simp: takeWhile_eq_Nil_iff hd_rev dest: last_in_set)
  ultimately show ?thesis by (simp add: trailingCountFrom_def)
qed

lemma take_butlast_pop: "length xs = k \<Longrightarrow> take (k - Suc n) (butlast xs) = take (k - Suc n) xs"
  by (simp add: butlast_conv_take min_def)

lemma pop_times_fields:
  "m_visible fi = vs \<Longrightarrow> length (m_context fi) = length vs \<Longrightarrow> length (records (m_compact fi)) = length vs \<Longrightarrow>
     n \<le> length vs \<Longrightarrow>
     m_visible (pop_times n fi) = take (length vs - n) vs \<and>
     m_context (pop_times n fi) = take (length vs - n) (m_context fi) \<and>
     m_compact (pop_times n fi) = (m_compact fi)\<lparr>records := take (length vs - n) (records (m_compact fi))\<rparr> \<and>
     m_active (pop_times n fi) = m_active fi \<and> m_ascending (pop_times n fi) = m_ascending fi"
proof (induction n arbitrary: fi vs)
  case 0
  then show ?case by simp
next
  case (Suc n)
  let ?p = "popLastVisible fi"
  have ne: "m_visible fi \<noteq> []" using Suc.prems by auto
  have p: "m_visible ?p = butlast vs" "m_context ?p = butlast (m_context fi)"
    "m_compact ?p = (m_compact fi)\<lparr>records := butlast (records (m_compact fi))\<rparr>"
    "m_active ?p = m_active fi" "m_ascending ?p = m_ascending fi"
    using ne Suc.prems(1) by (simp_all add: popLastVisible_def)
  have "length (butlast vs) - n = length vs - Suc n" by simp
  then show ?case
    using Suc.IH [of ?p "butlast vs"] p Suc.prems by (simp add: take_butlast_pop)
qed

lemma append_rows_fields:
  "m_visible (append_rows idx rows fi) = m_visible fi @ map fst rows \<and>
   m_context (append_rows idx rows fi) = m_context fi @ map snd rows \<and>
   m_compact (append_rows idx rows fi) =
     (m_compact fi)\<lparr>records := records (m_compact fi) @ map (\<lambda>q. records idx ! nat q) (map fst rows)\<rparr> \<and>
   m_active (append_rows idx rows fi) = m_active fi"
  unfolding append_rows_def
proof (induction rows arbitrary: fi)
  case (Cons p rows)
  show ?case using Cons.IH [of "appendVisible (fst p) (records idx ! nat (fst p)) (snd p) fi"]
    by (simp add: appendVisible_def split_def)
qed simp

lemma append_rows_wf:
  "filtered_wf idx fi \<Longrightarrow> m_active fi \<Longrightarrow> (\<And>q. q \<in> fst ` set rows \<Longrightarrow> 0 \<le> q \<and> q < int (length (records idx))) \<Longrightarrow>
     filtered_wf idx (append_rows idx rows fi)"
  unfolding append_rows_def
proof (induction rows arbitrary: fi)
  case (Cons p rows)
  have "filtered_wf idx (appendVisible (fst p) (records idx ! nat (fst p)) (snd p) fi)"
    using Cons.prems by (intro wf_append) auto
  moreover have "m_active (appendVisible (fst p) (records idx ! nat (fst p)) (snd p) fi)"
    using Cons.prems by (simp add: appendVisible_def)
  ultimately show ?case using Cons.IH Cons.prems(3) by (simp add: split_def)
qed simp

text \<open>A well-formed ascending index with correct sums is the one \<open>setVisible\<close> makes.\<close>

lemma view_of_unique:
  assumes wf: "filtered_wf idx fi" and act: "m_active fi" and asc: "m_ascending fi"
    and vis: "m_visible fi = map fst rows" and ctx: "m_context fi = map snd rows"
    and sums: "sums_ok (m_compact fi)"
    and tbl: "loggers (m_compact fi) = loggers (m_compact fi0)" "threads (m_compact fi) = threads (m_compact fi0)"
  shows "fi = view_of idx rows fi0"
proof -
  have "m_compact fi = rebuildBlockSums ((m_compact fi0)\<lparr>records := records (m_compact fi)\<rparr>)"
    using sums tbl by (simp add: rebuildBlockSums_def sums_ok_def block_sums_all)
  moreover have "records (m_compact fi) = map (\<lambda>s. records idx ! nat s) (map fst rows)"
    using wf act vis by (simp add: filtered_wf_def)
  moreover have "sorted_wrt (<) (map fst rows)" "m_contextCount fi = int (length (filter id (map snd rows)))"
    using wf asc vis ctx by (simp_all add: filtered_wf_def)
  ultimately show ?thesis
    using act asc vis ctx
    by (simp add: view_of_def setVisible_def Let_def ascending_sorted count_set_filter)
qed

section \<open>The live path is the full pass\<close>

lemma live_rows:
  assumes agree: "\<And>q. 0 \<le> q \<Longrightarrow> q < k \<Longrightarrow> ib q = ib' q \<and> mt q = mt' q"
    and c: "0 \<le> c" "c \<le> k" and k: "k \<le> n" "n \<le> N"
    and flip: "\<And>m lastE. k \<le> m \<Longrightarrow> m < n \<Longrightarrow> - 1 \<le> lastE \<Longrightarrow> ib m \<Longrightarrow> mt m \<Longrightarrow>
      filter (\<lambda>q. q < c) (leads ib before lastE m) \<noteq> [] \<Longrightarrow> m = k \<and> ib' m \<and> mt' m"
    and run: "run_out (emit_row before after ib mt) context_start [0..c - 1] = (st, out)"
    and X: "X = filter (\<lambda>p. fst p < c) (snd (run_out (emit_row before after ib mt) st [c..n - 1]))"
  shows "out @ X @ snd (run_out (emit_row before after ib' mt') (resumed st X) [c..N - 1]) =
    snd (run_out (emit_row before after ib' mt') context_start [0..N - 1])"
proof -
  let ?R = "run_out (emit_row before after ib mt)" and ?R' = "run_out (emit_row before after ib' mt')"
  have run': "?R' context_start [0..c - 1] = (st, out)"
    unfolding run [symmetric] by (rule run_cong [symmetric]) (use agree c in \<open>auto simp: context_start_def\<close>)
  have inv: "emit_inv after ib mt c st out"
    using emit_inv_run [OF emit_inv_start, where before = before and n = "nat c" and ib = ib and mt = mt and after = after]
      c(1) run by simp
  have inv': "emit_inv after ib' mt' c st out"
    using emit_inv_run [OF emit_inv_start, where before = before and n = "nat c" and ib = ib' and mt = mt' and after = after]
      c(1) run' by simp
  note E = emit_inv_lastEmitted [OF inv c(1)]
  have D: "X @ snd (?R' (resumed st X) [c..N - 1]) = snd (?R' st [c..N - 1])"
  proof (cases "X = []")
    case True
    then show ?thesis using resume_same [OF inv', of X] by simp
  next
    case False
    obtain m where m: "c \<le> m" "m \<le> n - 1" "ib m" "mt m" "\<forall>q. c \<le> q \<and> q < m \<longrightarrow> \<not> (ib q \<and> mt q)"
      "lastMatch st < 0 \<or> after \<le> sinceMatch st"
      "X = map (\<lambda>q. (q, True)) (filter (\<lambda>q. q < c) (leads ib before (lastEmitted st) m))"
      using early_rows [OF inv c(1) X False] by blast
    have mk: "m \<le> k" "ib' m" "mt' m"
    proof -
      have ne: "filter (\<lambda>q. q < c) (leads ib before (lastEmitted st) m) \<noteq> []" using False m(7) by auto
      show "m \<le> k" using flip [OF _ _ _ m(3,4) ne] m(2) E by (cases "k \<le> m") auto
      then show "ib' m" "mt' m"
        using flip [OF _ _ _ m(3,4) ne] m(1-4) E agree [of m] c(1) by (cases "m < k"; auto)+
    qed
    have L: "leads ib before (lastEmitted st) m = leads ib' before (lastEmitted st) m"
      by (rule leads_cong) (use agree mk(1) E in auto)
    have misses: "\<forall>q. c \<le> q \<and> q < m \<longrightarrow> \<not> (ib' q \<and> mt' q)"
      using m(5) agree mk(1) c(1) by (metis less_le_trans order_trans)
    show ?thesis
      by (rule resume_same [OF inv', where m = m]) (use m mk L misses k in auto)
  qed
  have "[0..N - 1] = [0..c - 1] @ [c..N - 1]" using c k upto_split1 [of 0 c "N - 1"] by (cases "c = N") auto
  then have "snd (?R' context_start [0..N - 1]) = out @ snd (?R' st [c..N - 1])"
    by (simp add: run_out_append run' Let_def split_def)
  then show ?thesis using D by simp
qed

lemma contextWindowStart_le: "0 \<le> row \<Longrightarrow> 0 \<le> contextWindowStart ib row before \<and> contextWindowStart ib row before \<le> row"
  using window_start_rows [of before "row - 1" ib] by (auto simp: contextWindowStart_def)

lemma contextWindowStart_cong:
  assumes "\<And>q. 0 \<le> q \<Longrightarrow> q < row \<Longrightarrow> ib q = ib' q"
  shows "contextWindowStart ib row before = contextWindowStart ib' row before"
proof -
  have "(\<And>q. 0 \<le> q \<Longrightarrow> q \<le> r \<Longrightarrow> ib q = ib' q) \<Longrightarrow> window_start ib need r = window_start ib' need r" for need r
  proof (induction ib need r rule: window_start.induct)
    case (1 ib need r)
    then show ?case by (simp add: window_start.simps [of ib need r] window_start.simps [of ib' need r])
  qed
  then show ?thesis using assms by (simp add: contextWindowStart_def)
qed

lemma emit_all_run:
  "emit_all before after inS mtT idx =
     snd (run_out (emit_row before after (at_row idx inS) (at_row idx mtT)) context_start
       [0..int (length (records idx)) - 1])"
  by (simp add: emit_all_def emitWithContext_def)

lemma emit_all_inv:
  "\<exists>st. emit_inv after (at_row idx inS) (at_row idx mtT) (int (length (records idx))) st
     (emit_all before after inS mtT idx)"
  using emit_inv_run [OF emit_inv_start, where before = before and n = "length (records idx)"
      and ib = "at_row idx inS" and mt = "at_row idx mtT" and after = after]
  by (auto simp: emit_all_run)

lemma view_of_wf:
  assumes "\<And>q. q \<in> fst ` set rows \<Longrightarrow> 0 \<le> q \<and> q < int (length (records idx))"
  shows "filtered_wf idx (view_of idx rows fi) \<and> sums_ok (m_compact (view_of idx rows fi))"
proof
  show "filtered_wf idx (view_of idx rows fi)"
    unfolding view_of_def by (rule wf_setVisible) (use assms in auto)
  show "sums_ok (m_compact (view_of idx rows fi))"
    by (simp add: view_of_def setVisible_def Let_def sums_ok_rebuild)
qed

lemma last_match_since:
  assumes inv: "emit_inv after ib mt c st out" and c: "0 \<le> c"
    and X: "\<forall>p \<in> set X. snd p \<and> lastEmitted st < fst p" "sorted_wrt (<) (map fst X)"
    and vis: "m_visible fi = map fst (out @ X)" and ctx: "m_context fi = map snd (out @ X)"
  shows "resume_state fi = resumed st X"
proof -
  have lm: "lastMatchSource fi = lastMatch st"
  proof -
    have "map (\<lambda>p. (fst p, True)) (rev X) = rev X"
      by (rule map_idI) (use X(1) in \<open>auto simp: prod_eq_iff\<close>)
    then have "rev X = map (\<lambda>q. (q, True)) (map fst (rev X))" by (simp add: comp_def)
    then have "last_match (rev X @ rev out) = last_match (rev out)" by (metis last_match_leads)
    then show ?thesis using inv vis ctx
      by (simp add: lastMatchSource_def emit_inv_def zip_map_fst_snd [of "out @ X", unfolded map_append])
  qed
  have so: "sorted_wrt (<) (m_visible fi)"
  proof -
    have "a < b" if "a \<in> set (map fst out)" "b \<in> set (map fst X)" for a b
    proof -
      from that(1) obtain ps p where out: "out = ps @ [p]" by (cases out rule: rev_exhaust) auto
      then have "lastEmitted st = fst p" "sorted_wrt (<) (map fst ps @ [fst p])"
        using inv by (simp_all add: emit_inv_def)
      then have "a \<le> lastEmitted st" using that(1) out by (auto simp: sorted_wrt_append)
      then show ?thesis using that(2) X(1) by auto
    qed
    moreover have "sorted_wrt (<) (map fst out)" using inv by (simp add: emit_inv_def)
    ultimately show ?thesis unfolding vis map_append sorted_wrt_append [of _ "map fst out"]
      using X(2) by blast
  qed
  have le: "lastMatch st \<le> lastEmitted st" using inv by (simp add: emit_inv_def)
  have "filter (\<lambda>q. lastMatch st + 1 \<le> q) (map fst X) = map fst X"
    using X(1) le by (fastforce simp: filter_id_conv)
  then have "trailingCountFrom fi (lastMatch st + 1) =
      int (length (filter (\<lambda>p. lastMatch st < fst p) out)) + int (length X)"
    using trailing_rows [OF so, of "lastMatch st + 1"] vis
    by (simp add: filter_map comp_def add1_zle_eq)
  moreover have "lastVisibleSource fi = (if X = [] then lastEmitted st else fst (last X))"
    using inv vis by (simp add: lastVisibleSource_def emit_inv_def last_map)
  ultimately show ?thesis
    using inv lm by (simp add: resume_state_def resumed_def emit_inv_def)
qed

text \<open>The live branch as one value: pop, restore the sums, append, restore the sums.\<close>

lemma sums_ok_view_edit:
  assumes old: "sums_ok ri" and rs: "take v (records ri) = take v rs" and v: "v \<le> length (records ri)" "v \<le> length rs"
  shows "sums_ok (extendBlockSums (ri\<lparr>records := rs\<rparr>) (int v))"
  by (rule sums_ok_extend [where v = v and ?hs0.0 = "heights ri"])
    (use assms in \<open>auto simp: sums_ok_def take_map\<close>)

lemma extend_tables [simp]:
  "records (extendBlockSums ri v) = records ri" "loggers (extendBlockSums ri v) = loggers ri"
  "threads (extendBlockSums ri v) = threads ri"
  by (simp_all add: extendBlockSums_def rebuildBlockSums_def Let_def)

lemma view_of_asc: "sorted_wrt (<) (map fst rows) \<Longrightarrow> m_ascending (view_of idx rows fi)"
  by (simp add: view_of_def setVisible_def Let_def ascending_sorted)

lemma popped_view:
  assumes so: "sorted_wrt (<) (map fst rows)"
    and rows: "\<And>q. q \<in> fst ` set rows \<Longrightarrow> 0 \<le> q \<and> q < int (length (records idx))"
    and keep: "\<And>q. q \<in> fst ` set rows \<Longrightarrow> q < c \<Longrightarrow> q < int (length (records idx')) \<and> records idx' ! nat q = records idx ! nat q"
  shows "(let fi = view_of idx rows fi0; popCount = trailingCountFrom fi c
      in if 0 < popCount then
           (let fi' = pop_times (nat popCount) fi in extendCompactSums (recordCount idx' fi') fi')
         else fi) = view_of idx' (filter (\<lambda>p. fst p < c) rows) fi0"
proof -
  let ?fi = "view_of idx rows fi0" and ?K = "filter (\<lambda>p. fst p < c) rows" and ?B = "filter (\<lambda>p. c \<le> fst p) rows"
  have so': "sorted_wrt (<) (m_visible ?fi)" using so by simp
  have pc: "trailingCountFrom ?fi c = int (length ?B)"
    unfolding trailing_rows [OF so'] by (simp add: filter_map comp_def)
  have split: "rows = ?K @ ?B" using so
  proof (induction rows)
    case (Cons p rows)
    show ?case
    proof (cases "fst p < c")
      case False
      then have "filter (\<lambda>p. fst p < c) rows = []" "filter (\<lambda>p. c \<le> fst p) rows = rows"
        using Cons.prems by (auto simp: filter_empty_conv filter_id_conv)
      with False show ?thesis by simp
    qed (use Cons in simp)
  qed simp
  have wf: "filtered_wf idx ?fi" "sums_ok (m_compact ?fi)" using view_of_wf rows by blast+
  have recs: "records (m_compact (view_of i rs f)) = map (\<lambda>q. records i ! nat q) (map fst rs)" for i rs f
    by (simp add: view_of_def setVisible_def Let_def rebuildBlockSums_def)
  have same: "map (\<lambda>q. records idx ! nat q) (map fst ?K) = map (\<lambda>q. records idx' ! nat q) (map fst ?K)"
    using keep by auto
  have tables: "loggers (m_compact (view_of i rs f)) = loggers (m_compact f)"
    "threads (m_compact (view_of i rs f)) = threads (m_compact f)" for i rs f
    by (simp_all add: view_of_def setVisible_def Let_def rebuildBlockSums_def)
  show ?thesis
  proof (cases "?B = []")
    case True
    then have K: "?K = rows" using split by simp
    have "view_of idx rows fi0 = view_of idx' rows fi0"
    proof (rule view_of_unique)
      show "filtered_wf idx' ?fi"
        using wf(1) keep K recs [of idx rows fi0] same by (auto simp: filtered_wf_def filter_id_conv)
    qed (use wf so view_of_asc in \<open>simp_all add: tables\<close>)
    with True pc K show ?thesis by (simp add: Let_def)
  next
    case False
    define P where "P = pop_times (length ?B) ?fi"
    have len: "length rows - length ?B = length ?K" using split by (metis diff_add_inverse2 length_append)
    have P: "m_visible P = map fst ?K" "m_context P = map snd ?K" "m_active P" "m_ascending P"
      "m_compact P = (m_compact ?fi)\<lparr>records := map (\<lambda>q. records idx ! nat q) (map fst ?K)\<rparr>"
    proof -
      have tk: "take (length ?K) (map g rows) = map g ?K" for g :: "int \<times> bool \<Rightarrow> 'z"
        using split by (metis append_eq_conv_conj length_map map_append)
      show "m_visible P = map fst ?K" "m_context P = map snd ?K" "m_active P" "m_ascending P"
        "m_compact P = (m_compact ?fi)\<lparr>records := map (\<lambda>q. records idx ! nat q) (map fst ?K)\<rparr>"
        using pop_times_fields [of ?fi "map fst rows" "length ?B"] so tk [of fst] tk [of snd] 
          tk [of "\<lambda>p. records idx ! nat (fst p)"]
        by (simp_all add: P_def len recs comp_def) (simp_all add: view_of_def setVisible_def Let_def ascending_sorted)
    qed
    define Q where "Q = extendCompactSums (recordCount idx' P) P"
    have Qf: "m_visible Q = map fst ?K" "m_context Q = map snd ?K" "m_active Q" "m_ascending Q"
      "records (m_compact Q) = map (\<lambda>q. records idx ! nat q) (map fst ?K)"
      "m_contextCount Q = m_contextCount P"
      "loggers (m_compact Q) = loggers (m_compact fi0)" "threads (m_compact Q) = threads (m_compact fi0)"
      using P by (simp_all add: Q_def extendCompactSums_def tables)
    have "filtered_wf idx (pop_times n fi)" if "filtered_wf idx fi" for n fi
      using that by (induction n arbitrary: fi) (auto intro: wf_pop)
    then have "filtered_wf idx Q"
      unfolding Q_def P_def using wf(1) by (intro wf_extend) blast
    then have wfQ: "filtered_wf idx' Q"
      using Qf same keep rows by (auto simp: filtered_wf_def)
    have rc: "recordCount idx' P = int (length ?K)" using P by (simp add: recordCount_def)
    have "records (m_compact ?fi) = map (\<lambda>q. records idx ! nat q) (map fst ?K) @
        map (\<lambda>q. records idx ! nat q) (map fst ?B)"
      unfolding recs using split by (metis map_append)
    then have sumsQ: "sums_ok (m_compact Q)"
      unfolding Q_def extendCompactSums_def rc using P(5) wf(2)
      by (simp add: sums_ok_view_edit)
    have "Q = view_of idx' ?K fi0"
      by (rule view_of_unique [OF wfQ Qf(3,4,1,2) sumsQ Qf(7,8)])
    moreover have "0 < length ?B" using False by simp
    ultimately show ?thesis unfolding Let_def pc using P_def Q_def by simp
  qed
qed

lemma append_rows_asc:
  "m_ascending fi \<Longrightarrow> sorted_wrt (<) (m_visible fi @ map fst rows) \<Longrightarrow> m_ascending (append_rows idx rows fi)"
  unfolding append_rows_def
proof (induction rows arbitrary: fi)
  case (Cons p rows)
  have "\<forall>x \<in> set (m_visible fi). x < fst p" using Cons.prems(2) by (simp add: sorted_wrt_append)
  then have "m_visible fi = [] \<or> last (m_visible fi) < fst p" using last_in_set by blast
  with Cons.prems have "m_ascending (appendVisible (fst p) (records idx ! nat (fst p)) (snd p) fi)"
    by (auto simp: appendVisible_def)
  moreover have "sorted_wrt (<) (m_visible (appendVisible (fst p) (records idx ! nat (fst p)) (snd p) fi) @ map fst rows)"
    using Cons.prems(2) by (simp add: appendVisible_def)
  ultimately show ?case using Cons.IH by (simp add: split_def)
qed simp

lemma appended_view:
  assumes so: "sorted_wrt (<) (map fst (rows @ new))"
    and rows: "\<And>q. q \<in> fst ` set (rows @ new) \<Longrightarrow> 0 \<le> q \<and> q < int (length (records idx))"
  shows "(let fi = view_of idx rows fi0 in
      if new \<noteq> [] then extendCompactSums (recordCount idx fi) (append_rows idx new fi) else fi) =
    view_of idx (rows @ new) fi0"
proof (cases "new = []")
  case False
  let ?fi = "view_of idx rows fi0"
  define Q where "Q = append_rows idx new ?fi"
  note A = append_rows_fields [of idx new ?fi]
  have wf: "filtered_wf idx ?fi" "sums_ok (m_compact ?fi)" using view_of_wf [of rows idx] rows by auto
  have recs: "records (m_compact ?fi) = map (\<lambda>q. records idx ! nat q) (map fst rows)"
    "loggers (m_compact ?fi) = loggers (m_compact fi0)" "threads (m_compact ?fi) = threads (m_compact fi0)"
    by (simp_all add: view_of_def setVisible_def Let_def rebuildBlockSums_def)
  have rc: "recordCount idx ?fi = int (length (records (m_compact ?fi)))" by (simp add: recordCount_def)
  have "extendCompactSums (recordCount idx ?fi) Q = view_of idx (rows @ new) fi0"
  proof (rule view_of_unique)
    show "filtered_wf idx (extendCompactSums (recordCount idx ?fi) Q)"
      unfolding Q_def by (intro wf_extend append_rows_wf wf) (use rows in auto)
    show "m_ascending (extendCompactSums (recordCount idx ?fi) Q)"
      using append_rows_asc [of ?fi new idx] so view_of_asc [of rows idx fi0]
      by (simp add: Q_def extendCompactSums_def sorted_wrt_append)
    show "sums_ok (m_compact (extendCompactSums (recordCount idx ?fi) Q))"
      using A wf(2) unfolding Q_def extendCompactSums_def rc by (simp add: sums_ok_view_edit)
  qed (use A recs in \<open>simp_all add: Q_def extendCompactSums_def\<close>)
  with False show ?thesis by (simp add: Q_def Let_def)
qed simp

lemma was_match:
  assumes "0 < length (records idx)" and "base = int (length (records idx)) - 1"
  shows "lastMatchSource (view_of idx (emit_all before after inS mtT idx) fi0) = base \<longleftrightarrow>
    inS (records idx ! nat base) \<and> mtT (records idx ! nat base)"
proof -
  obtain st where inv: "emit_inv after (at_row idx inS) (at_row idx mtT) (int (length (records idx))) st
      (emit_all before after inS mtT idx)" using emit_all_inv by blast
  have lm: "lastMatchSource (view_of idx (emit_all before after inS mtT idx) fi0) = lastMatch st"
    using inv by (simp add: lastMatchSource_def emit_inv_def zip_map_fst_snd)
  have "lastMatch st \<le> base"
    using inv emit_inv_lastEmitted [OF inv] assms(2) by (simp add: emit_inv_def)
  moreover have "\<not> (lastMatch st < base \<and> inS (records idx ! nat base) \<and> mtT (records idx ! nat base))"
    using inv assms unfolding emit_inv_def by force
  moreover have "lastMatch st = base \<Longrightarrow> inS (records idx ! nat base) \<and> mtT (records idx ! nat base)"
    using inv assms unfolding emit_inv_def by force
  ultimately show ?thesis unfolding lm by linarith
qed

lemma ingest_filtered_view:
  assumes keep: "k = (if changed then length (records idx) - 1 else length (records idx))"
    and grow: "take k (records idx') = take k (records idx)" "length (records idx) \<le> length (records idx')"
    and ne: "changed \<Longrightarrow> records idx \<noteq> []"
    and same: "\<And>r. r \<in> set (take k (records idx)) \<Longrightarrow> inS' r = inS r \<and> mtT' r = mtT r"
  shows "ingest_filtered before after inS' mtT' idx' (int (length (records idx))) changed
      (view_of idx (emit_all before after inS mtT idx) fi0) =
    view_of idx' (emit_all before after inS' mtT' idx') fi0"
proof -
  let ?n = "int (length (records idx))" and ?N = "int (length (records idx'))"
  let ?ib = "at_row idx inS" and ?mt = "at_row idx mtT" and ?ib' = "at_row idx' inS'" and ?mt' = "at_row idx' mtT'"
  let ?rows = "emit_all before after inS mtT idx"
  let ?fi = "view_of idx ?rows fi0"
  define c where "c = candidate_start before inS' mtT' idx' ?n changed ?fi"
  have nth: "records idx' ! nat q = records idx ! nat q" if "0 \<le> q" "q < int k" for q
    using grow(1) that by (metis nat_less_iff nth_take)
  have agree: "?ib q = ?ib' q \<and> ?mt q = ?mt' q" if "0 \<le> q" "q < int k" for q
  proof -
    have "nat q < length (take k (records idx))" using that keep by auto
    then have "take k (records idx) ! nat q \<in> set (take k (records idx))" by (rule nth_mem)
    then have "records idx ! nat q \<in> set (take k (records idx))" using that by (simp add: nat_less_iff)
    from same [OF this] nth [OF that] show ?thesis by simp
  qed
  have kn: "int k \<le> ?n" using keep by auto
  have base: "changed \<Longrightarrow> int k = ?n - 1" using keep ne by (cases "records idx") auto
  have win: "contextWindowStart ?ib' (int k) before = contextWindowStart ?ib (int k) before"
    by (rule contextWindowStart_cong) (use agree in auto)
  have c_eq: "c = (if changed \<and> 0 < before \<and>
        (?ib (int k) \<and> ?mt (int k)) \<noteq> (?ib' (int k) \<and> ?mt' (int k))
      then contextWindowStart ?ib (int k) before else int k)"
    using ne keep base was_match [of idx "int k" before after inS mtT fi0] win
    unfolding c_def candidate_start_def by (cases changed; cases "records idx") (auto simp: Let_def)
  have c: "0 \<le> c" "c \<le> int k" using c_eq contextWindowStart_le [of "int k" ?ib before] by auto
  obtain st out where run: "run_out (emit_row before after ?ib ?mt) context_start [0..c - 1] = (st, out)"
    by (metis prod.collapse)
  define X where "X = filter (\<lambda>p. fst p < c) (snd (run_out (emit_row before after ?ib ?mt) st [c..?n - 1]))"
  have inv: "emit_inv after ?ib ?mt c st out"
    using emit_inv_run [OF emit_inv_start, where before = before and n = "nat c" and ib = ?ib and mt = ?mt and after = after]
      c(1) run by simp
  note E = emit_inv_lastEmitted [OF inv c(1)]
  have all: "out @ X @ snd (run_out (emit_row before after ?ib' ?mt') (resumed st X) [c..?N - 1]) =
      emit_all before after inS' mtT' idx'"
    unfolding emit_all_run
  proof (rule live_rows [OF agree c kn _ _ run X_def])
    fix m lastE assume m: "int k \<le> m" "m < ?n" "- 1 \<le> lastE" "?ib m" "?mt m"
      and F: "filter (\<lambda>q. q < c) (leads ?ib before lastE m) \<noteq> []"
    have ch: changed using m(1,2) keep by (auto split: if_splits)
    then have mk: "m = int k" using m(1,2) base by simp
    have b: "0 < before" using F by (cases "0 < before") (auto simp: leads_rows)
    have "?ib' m \<and> ?mt' m"
    proof (rule ccontr)
      assume "\<not> ?thesis"
      then have "c = contextWindowStart ?ib m before" using c_eq ch b m(4,5) mk by simp
      then show False using window_covers [OF b _ m(3), of m ?ib] mk F by simp
    qed
    then show "m = int k \<and> ?ib' m \<and> ?mt' m" using mk by simp
  qed (use grow(2) in auto)
  let ?P = "out @ X"
  obtain stn where invn: "emit_inv after ?ib ?mt ?n stn ?rows" using emit_all_inv by blast
  have rows: "?rows = out @ snd (run_out (emit_row before after ?ib ?mt) st [c..?n - 1])"
  proof -
    have "[0..?n - 1] = [0..c - 1] @ [c..?n - 1]"
      using c kn upto_split1 [of 0 c "?n - 1"] by (cases "c = ?n") auto
    then show ?thesis by (simp add: emit_all_run run_out_append run Let_def split_def)
  qed
  have kept: "filter (\<lambda>p. fst p < c) ?rows = ?P"
    using inv unfolding rows X_def emit_inv_def by (simp add: filter_id_conv)
  have in_idx: "\<And>q. q \<in> fst ` set ?rows \<Longrightarrow> 0 \<le> q \<and> q < ?n" and so: "sorted_wrt (<) (map fst ?rows)"
    using invn unfolding emit_inv_def by blast+
  have pop: "(let fi = ?fi; popCount = trailingCountFrom fi c
      in if 0 < popCount then
           (let fi' = pop_times (nat popCount) fi in extendCompactSums (recordCount idx' fi') fi')
         else fi) = view_of idx' ?P fi0"
    unfolding kept [symmetric]
    by (rule popped_view [OF so in_idx]) (use in_idx nth c grow(2) kn in auto)
  have resume: "resume_state (view_of idx' ?P fi0) = resumed st X"
  proof (rule last_match_since [OF inv c(1)])
    show "\<forall>p \<in> set X. snd p \<and> lastEmitted st < fst p"
    proof
      fix p assume p: "p \<in> set X"
      then have ne: "X \<noteq> []" by auto
      from early_rows [OF inv c(1) X_def ne] obtain m where
        "X = map (\<lambda>q. (q, True)) (filter (\<lambda>q. q < c) (leads ?ib before (lastEmitted st) m))" by blast
      with p leads_in [of "fst p" ?ib before "lastEmitted st" m] show "snd p \<and> lastEmitted st < fst p" by auto
    qed
    have "sorted_wrt (<) (map fst ?P)"
      unfolding kept [symmetric] using so by (simp add: sorted_wrt_map sorted_wrt_filter)
    then show "sorted_wrt (<) (map fst X)" by (simp add: sorted_wrt_append)
  qed simp_all
  let ?new = "snd (run_out (emit_row before after ?ib' ?mt') (resumed st X) [c..?N - 1])"
  obtain stN where invN: "emit_inv after ?ib' ?mt' ?N stN (?P @ ?new)"
    using emit_all_inv [where after = after and idx = idx' and inS = inS' and mtT = mtT' and before = before] all by auto
  have app: "(let fi = view_of idx' ?P fi0 in
      if ?new \<noteq> [] then extendCompactSums (recordCount idx' fi) (append_rows idx' ?new fi) else fi) =
    view_of idx' (?P @ ?new) fi0"
    by (rule appended_view) (use invN in \<open>unfold emit_inv_def, blast+\<close>)
  have em: "emitWithContext c (?N - 1) before after (resumed st X) ?ib' ?mt' =
      run_out (emit_row before after ?ib' ?mt') (resumed st X) [c..?N - 1]"
    using c by (simp add: emitWithContext_def max_def)
  have "ingest_filtered before after inS' mtT' idx' ?n changed ?fi = view_of idx' (?P @ ?new) fi0"
    unfolding ingest_filtered_def c_def [symmetric] Let_def pop [unfolded Let_def] resume em
    using app [unfolded Let_def] .
  then show ?thesis using all by simp
qed

text \<open>The two halves the emitter is driven by are \<open>acceptsInView\<close> split in two.\<close>

lemma acceptsInView_split:
  "acceptsInView eng b f msg r \<longleftrightarrow> inContextStream b f r \<and> matchesTextAxis eng f msg r"
  by (auto simp: acceptsInView_def inContextStream_def matchesTextAxis_def matchesFilters_def accepts_def)

text \<open>C2: live_filter_is_refilter. Following a growing log through an active filter, context rows
  and all, shows exactly what filtering the grown log from scratch shows: when the records in
  front of the provisional one (and that one too when it did not change) are as they were and
  the filter answers for them as before, popping the tail from the resume row and emitting
  on gives the same visible rows, context flags, counter, compact records and block sums.\<close>

theorem live_filter_is_refilter:
  assumes "take (if changed then length (records idx) - 1 else length (records idx)) (records idx') =
      take (if changed then length (records idx) - 1 else length (records idx)) (records idx)"
    and "length (records idx) \<le> length (records idx')" and "changed \<Longrightarrow> records idx \<noteq> []"
    and "\<And>r. r \<in> set (take (if changed then length (records idx) - 1 else length (records idx)) (records idx)) \<Longrightarrow>
      inRunBound b' r = inRunBound b r \<and> msg' r = msg r"
    and "m_viewRestricted b = m_viewRestricted b'" and "m_viewRestricted b \<or> anyActive f"
  shows "ingest_filtered before after (inContextStream b' f) (matchesTextAxis eng f msg') idx'
      (int (length (records idx))) changed (applyFilters eng b f msg before after idx fi) =
    applyFilters eng b' f msg' before after idx' fi"
proof -
  have "ingest_filtered before after (inContextStream b' f) (matchesTextAxis eng f msg') idx'
      (int (length (records idx))) changed
      (view_of idx (emit_all before after (inContextStream b f) (matchesTextAxis eng f msg) idx) fi) =
    view_of idx' (emit_all before after (inContextStream b' f) (matchesTextAxis eng f msg') idx') fi"
    by (rule ingest_filtered_view [OF refl assms(1-3)])
      (use assms(4) in \<open>auto simp: inContextStream_def matchesTextAxis_def\<close>)
  moreover have "(\<not> m_viewRestricted b \<and> \<not> anyActive f) = False" "(\<not> m_viewRestricted b' \<and> \<not> anyActive f) = False"
    using assms(5,6) by auto
  ultimately show ?thesis by (simp only: applyFilters_def view_of_def Let_def if_False)
qed

text \<open>A filter on the minimum level, and a log whose provisional last record grows into another
  level while a new record arrives.\<close>

definition level_filter :: filter_set where
  "level_filter = \<lparr>priorityEnabled = True, minPriority = Warn, loggerEnabled = False, loggerIds = {},
     threadEnabled = False, threadIds = {}, timeEnabled = False, startMs = 0, endMs = 0,
     text_axis = \<lparr>tf_enabled = False, tf_negate = False, tf_matcher = matcher_default\<rparr>,
     absentFieldMatches = True\<rparr>"

definition whole_file :: view_bound where
  "whole_file = \<lparr>m_viewRestricted = False, m_viewStart = 0, m_viewEnd = 0\<rparr>"

definition level_record :: "int \<Rightarrow> priority \<Rightarrow> log_record" where
  "level_record off p = \<lparr>offset = off, timestamp = 0, byteLength = 1, loggerId = 0, threadId = 0,
     lineCount = 1, prio = p\<rparr>"

definition log_of :: "log_record list \<Rightarrow> record_index" where
  "log_of rs = rebuildBlockSums (record_index_empty\<lparr>records := rs\<rparr>)"

lemma records_log_of [simp]: "records (log_of rs) = rs"
  by (simp add: log_of_def rebuildBlockSums_def)

theorem live_filter_is_refilter_witness:
  "ingest_filtered 1 1 (inContextStream whole_file level_filter)
     (matchesTextAxis plain_engine level_filter (\<lambda>_. []))
     (log_of [level_record 0 Error, level_record 1 Warn, level_record 2 Info])
     (int (length (records (log_of [level_record 0 Error, level_record 1 Info])))) True
     (applyFilters plain_engine whole_file level_filter (\<lambda>_. []) 1 1
        (log_of [level_record 0 Error, level_record 1 Info]) filtered_empty) =
   applyFilters plain_engine whole_file level_filter (\<lambda>_. []) 1 1
     (log_of [level_record 0 Error, level_record 1 Warn, level_record 2 Info]) filtered_empty"
  by (rule live_filter_is_refilter) (simp_all add: level_filter_def anyActive_def)

end
