(* ===== verification/ContextSpec.thy ===== *)
theory ContextSpec
  imports Context
begin

text \<open>
  What filter context promises, stated without the emitter: the rows \<open>grep -B\<close> and \<open>-A\<close> would
  show over the stream of in-bound records.
\<close>

definition in_stream :: "(int \<Rightarrow> bool) \<Rightarrow> int \<Rightarrow> int \<Rightarrow> int" where
  "in_stream ib a b = int (length (filter ib [a..b - 1]))"

text \<open>Row \<open>q\<close> is shown among the first \<open>n\<close> rows: it is in-bound, and it matches, or is one of the \<open>after\<close> in-bound
  rows following a match, or one of the \<open>before\<close> in front of one.\<close>

definition shown_row :: "int \<Rightarrow> int \<Rightarrow> (int \<Rightarrow> bool) \<Rightarrow> (int \<Rightarrow> bool) \<Rightarrow> int \<Rightarrow> int \<Rightarrow> bool" where
  "shown_row before after ib mt n q \<longleftrightarrow>
     0 \<le> q \<and> q < n \<and> ib q \<and>
     (mt q \<or>
      (\<exists>m. 0 \<le> m \<and> m < q \<and> ib m \<and> mt m \<and> in_stream ib (m + 1) (q + 1) \<le> after) \<or>
      (\<exists>m. q < m \<and> m < n \<and> ib m \<and> mt m \<and> in_stream ib q m \<le> before))"

lemma in_stream_mono: "a' \<le> a \<Longrightarrow> b \<le> b' \<Longrightarrow> in_stream ib a b \<le> in_stream ib a' b'"
proof -
  assume a: "a' \<le> a" "b \<le> b'"
  have "length (filter ib [a..b - 1]) = card {x. a \<le> x \<and> x < b \<and> ib x}" for a b
  proof -
    have "distinct (filter ib [a..b - 1])" by simp
    then have "length (filter ib [a..b - 1]) = card (set (filter ib [a..b - 1]))" by (simp only: distinct_card)
    also have "set (filter ib [a..b - 1]) = {x. a \<le> x \<and> x < b \<and> ib x}" by auto
    finally show ?thesis .
  qed
  moreover have "card {x. a \<le> x \<and> x < b \<and> ib x} \<le> card {x. a' \<le> x \<and> x < b' \<and> ib x}"
  proof (rule card_mono)
    have "{x. a' \<le> x \<and> x < b' \<and> ib x} \<subseteq> {a'..b'}" by auto
    then show "finite {x. a' \<le> x \<and> x < b' \<and> ib x}" by (rule finite_subset) simp
  qed (use a in auto)
  ultimately show ?thesis unfolding in_stream_def by (simp only: of_nat_le_iff)
qed

lemma in_stream_nonneg: "0 \<le> in_stream ib a b"
  by (simp add: in_stream_def)

lemma in_stream_snoc: "a \<le> b \<Longrightarrow> in_stream ib a (b + 1) = in_stream ib a b + (if ib b then 1 else 0)"
  using upto_rec2 [of a b] by (simp add: in_stream_def)

lemma in_stream_pos: "a \<le> q \<Longrightarrow> q < b \<Longrightarrow> ib q \<Longrightarrow> 0 < in_stream ib a b"
proof -
  assume "a \<le> q" "q < b" "ib q"
  then have "q \<in> set (filter ib [a..b - 1])" by simp
  then show ?thesis unfolding in_stream_def by (cases "filter ib [a..b - 1]") simp_all
qed

lemma leads_iff:
  "q \<in> set (leads ib before lastE r) \<longleftrightarrow> lastE < q \<and> q < r \<and> ib q \<and> in_stream ib q r \<le> before"
proof (cases "lastE < q \<and> q < r \<and> ib q")
  case True
  let ?A = "filter ib [lastE + 1..q - 1]" and ?B = "filter ib [q + 1..r - 1]"
  have "[lastE + 1..r - 1] = [lastE + 1..q - 1] @ q # [q + 1..r - 1]"
    using True by (intro upto_at) auto
  then have F: "filter ib [lastE + 1..r - 1] = ?A @ q # ?B" using True by simp
  have "[q..r - 1] = q # [q + 1..r - 1]" using True by (simp add: upto_rec1)
  then have cnt: "in_stream ib q r = int (Suc (length ?B))" using True by (simp add: in_stream_def)
  have L: "leads ib before lastE r = drop (length ?A + Suc (length ?B) - nat before) (?A @ q # ?B)"
    unfolding leads_rows F by simp
  show ?thesis
  proof (cases "in_stream ib q r \<le> before")
    case small: True
    then have "length ?A + Suc (length ?B) - nat before \<le> length ?A" using cnt by linarith
    then have "q \<in> set (leads ib before lastE r)" unfolding L by simp
    then show ?thesis using True small by simp
  next
    case False
    then have "nat before \<le> length ?B" using cnt by linarith
    then obtain d where d: "length ?A + Suc (length ?B) - nat before = length ?A + Suc d"
      by (intro that [of "length ?B - nat before"]) simp
    have "q \<notin> set (drop d ?B)" by (auto dest: in_set_dropD)
    then have "q \<notin> set (leads ib before lastE r)" unfolding L d by simp
    then show ?thesis using False by simp
  qed
qed (use leads_in in blast)

section \<open>The emitter shows those rows\<close>

definition grep_inv ::
  "int \<Rightarrow> int \<Rightarrow> (int \<Rightarrow> bool) \<Rightarrow> (int \<Rightarrow> bool) \<Rightarrow> int \<Rightarrow> context_state \<Rightarrow> (int \<times> bool) list \<Rightarrow> bool" where
  "grep_inv before after ib mt r st out \<longleftrightarrow>
     emit_inv after ib mt r st out \<and>
     (\<forall>q c. (q, c) \<in> set out \<longleftrightarrow> shown_row before after ib mt r q \<and> (c \<longleftrightarrow> \<not> mt q))"

lemma grep_lastEmitted:
  assumes "grep_inv before after ib mt r st out" and "0 \<le> lastEmitted st"
  shows "shown_row before after ib mt r (lastEmitted st)"
proof -
  from assms have ne: "out \<noteq> []" by (auto simp: grep_inv_def emit_inv_def)
  with assms have "lastEmitted st = fst (last out)" by (simp add: grep_inv_def emit_inv_def)
  moreover have "(fst (last out), snd (last out)) \<in> set out" using ne by simp
  ultimately show ?thesis using assms(1) unfolding grep_inv_def by metis
qed

text \<open>Everything a later match's leading window wants at or below the last row emitted is there.\<close>

lemma suffix_shown:
  assumes inv: "grep_inv before after ib mt r st out"
    and q: "0 \<le> q" "q \<le> lastEmitted st" "q < r" "ib q" "in_stream ib q r \<le> before"
  shows "shown_row before after ib mt r q"
proof -
  let ?e = "lastEmitted st"
  from grep_lastEmitted [OF inv] q have e: "shown_row before after ib mt r ?e" by simp
  have lead: "in_stream ib q m \<le> before" if "m \<le> r" for m
    using in_stream_mono [of q q m r ib] that q(5) by simp
  from e consider "mt ?e" "ib ?e" "?e < r"
    | m where "0 \<le> m" "m < ?e" "ib m" "mt m" "in_stream ib (m + 1) (?e + 1) \<le> after" "?e < r"
    | m where "?e < m" "m < r" "ib m" "mt m" unfolding shown_row_def by blast
  then show ?thesis
  proof cases
    case 1
    then show ?thesis using q e lead [of ?e] unfolding shown_row_def by (cases "q = ?e") auto
  next
    case (2 m)
    show ?thesis
    proof (cases "m < q")
      case True
      have "in_stream ib (m + 1) (q + 1) \<le> after"
        using in_stream_mono [of "m + 1" "m + 1" "q + 1" "?e + 1" ib] 2(5) q(2) by simp
      then show ?thesis using 2 q True unfolding shown_row_def by blast
    next
      case False
      then show ?thesis using 2 q lead [of m] unfolding shown_row_def by (cases "q = m") auto
    qed
  next
    case (3 m)
    then show ?thesis using q lead [of m] unfolding shown_row_def by auto
  qed
qed

text \<open>The count of trailing rows is the count of in-bound rows since the match, while it matters.\<close>

lemma since_count:
  assumes inv: "grep_inv before after ib mt r st out" and r: "0 \<le> r" and L: "0 \<le> lastMatch st"
  shows "sinceMatch st \<le> in_stream ib (lastMatch st + 1) r \<and>
    (sinceMatch st < after \<longrightarrow> sinceMatch st = in_stream ib (lastMatch st + 1) r)"
proof -
  let ?L = "lastMatch st" and ?O = "filter (\<lambda>p. lastMatch st < fst p) out"
  have ei: "emit_inv after ib mt r st out" using inv by (simp add: grep_inv_def)
  have since: "sinceMatch st = int (length ?O)" using ei L by (simp add: emit_inv_def)
  have "distinct (map fst ?O)"
  proof -
    have "sorted_wrt (<) (map fst out)" using ei by (simp add: emit_inv_def)
    then have "distinct (map fst out)" by (simp add: strict_sorted_iff)
    then show ?thesis by (simp add: distinct_map inj_on_def)
  qed
  then have lenO: "length ?O = card (fst ` set ?O)" by (metis distinct_card length_map list.set_map)
  have cnt: "in_stream ib (?L + 1) r = int (card (set (filter ib [?L + 1..r - 1])))"
    unfolding in_stream_def by (simp add: distinct_card del: set_filter)
  have sub: "fst ` set ?O \<subseteq> set (filter ib [?L + 1..r - 1])"
    using ei unfolding emit_inv_def by fastforce
  have le: "sinceMatch st \<le> in_stream ib (?L + 1) r"
    unfolding since lenO cnt using card_mono [OF finite_set sub] by simp
  have "set (filter ib [?L + 1..r - 1]) \<subseteq> fst ` set ?O" if open_window: "sinceMatch st < after"
  proof
    fix q assume "q \<in> set (filter ib [?L + 1..r - 1])"
    then have q: "?L < q" "q < r" "ib q" by auto
    let ?e = "lastEmitted st"
    have qe: "q \<le> ?e" using emit_inv_open [OF ei L open_window q] .
    have later: "\<not> (ib m \<and> mt m)" if "?L < m" "m < r" for m using ei that L unfolding emit_inv_def by auto
    have e: "shown_row before after ib mt r ?e" using grep_lastEmitted [OF inv] qe q L by simp
    have eL: "?L < ?e" using q qe by simp
    from e eL later obtain m where m: "0 \<le> m" "m < ?e" "ib m" "mt m" "in_stream ib (m + 1) (?e + 1) \<le> after"
      unfolding shown_row_def by (metis order_less_trans)
    then have "m \<le> ?L" using later [of m] e unfolding shown_row_def by force
    moreover have "in_stream ib (m + 1) (q + 1) \<le> after"
      using in_stream_mono [of "m + 1" "m + 1" "q + 1" "?e + 1" ib] m(5) qe by simp
    ultimately have "shown_row before after ib mt r q" using m q L unfolding shown_row_def by force
    then have "(q, \<not> mt q) \<in> set out" using inv unfolding grep_inv_def by blast
    then show "q \<in> fst ` set ?O" using q(1) by force
  qed
  then have "sinceMatch st < after \<longrightarrow> sinceMatch st = in_stream ib (?L + 1) r"
    unfolding since lenO cnt using sub by (metis subset_antisym)
  with le show ?thesis by blast
qed

lemma shown_row_next:
  assumes r: "0 \<le> r"
  shows "shown_row before after ib mt (r + 1) q \<longleftrightarrow> shown_row before after ib mt r q \<or>
      (ib r \<and> q = r \<and> (mt r \<or> (\<exists>m. 0 \<le> m \<and> m < r \<and> ib m \<and> mt m \<and> in_stream ib (m + 1) (r + 1) \<le> after))) \<or>
      (ib r \<and> mt r \<and> 0 \<le> q \<and> q < r \<and> ib q \<and> in_stream ib q r \<le> before)"
proof -
  have ex: "(\<exists>m. q < m \<and> m < r + 1 \<and> P m) \<longleftrightarrow> (\<exists>m. q < m \<and> m < r \<and> P m) \<or> (q < r \<and> P r)" for P
    unfolding zless_add1_eq by blast
  consider "q = r" | "q < r" | "r < q" by linarith
  then show ?thesis
  proof cases
    case 1
    have none: "(\<exists>m. r < m \<and> m < r + 1 \<and> P m) = False" for P by auto
    show ?thesis using r unfolding 1 shown_row_def none by simp
  next
    case 2
    then show ?thesis unfolding shown_row_def ex by auto
  next
    case 3
    then show ?thesis unfolding shown_row_def by simp
  qed
qed

lemma grep_step:
  assumes inv: "grep_inv before after ib mt r st out" and r: "0 \<le> r"
  shows "grep_inv before after ib mt (r + 1) (fst (emit_row before after ib mt st r))
    (out @ snd (emit_row before after ib mt st r))"
proof -
  let ?sh = "shown_row before after ib mt"
  have ei: "emit_inv after ib mt r st out" using inv by (simp add: grep_inv_def)
  have rows: "(q, c) \<in> set out \<longleftrightarrow> ?sh r q \<and> (c \<longleftrightarrow> \<not> mt q)" for q c using inv unfolding grep_inv_def by blast
  note E = emit_inv_lastEmitted [OF ei r]
  have next_row: "?sh (r + 1) q \<longleftrightarrow> ?sh r q \<or>
      (ib r \<and> q = r \<and> (mt r \<or> (\<exists>m. 0 \<le> m \<and> m < r \<and> ib m \<and> mt m \<and> in_stream ib (m + 1) (r + 1) \<le> after))) \<or>
      (ib r \<and> mt r \<and> 0 \<le> q \<and> q < r \<and> ib q \<and> in_stream ib q r \<le> before)" for q
    by (rule shown_row_next [OF r])
  have "(\<forall>q c. (q, c) \<in> set (out @ snd (emit_row before after ib mt st r)) \<longleftrightarrow>
      ?sh (r + 1) q \<and> (c \<longleftrightarrow> \<not> mt q))"
  proof (cases "ib r \<and> mt r")
    case True
    have late: "\<not> mt q" if "lastEmitted st < q" "q < r" "ib q" for q
      using ei that E unfolding emit_inv_def by force
    have new: "snd (emit_row before after ib mt st r) =
        map (\<lambda>q. (q, True)) (leads ib before (lastEmitted st) r) @ [(r, False)]"
      using True by (simp add: emit_row_def leads_def)
    have mem: "(q, c) \<in> set (snd (emit_row before after ib mt st r)) \<longleftrightarrow>
        (c \<and> lastEmitted st < q \<and> q < r \<and> ib q \<and> in_stream ib q r \<le> before) \<or> (q = r \<and> \<not> c)" for q c
      unfolding new using leads_iff [of q ib before "lastEmitted st" r] by auto
    have split: "?sh (r + 1) q \<longleftrightarrow> ?sh r q \<or> q = r \<or>
        (lastEmitted st < q \<and> q < r \<and> ib q \<and> in_stream ib q r \<le> before)" for q
      using next_row [of q] True suffix_shown [OF inv, of q] E r by (cases "q \<le> lastEmitted st") auto
    show ?thesis unfolding set_append Un_iff rows mem split using late True by blast
  next
    case False
    have trail: "ib r \<and> (\<exists>m. 0 \<le> m \<and> m < r \<and> ib m \<and> mt m \<and> in_stream ib (m + 1) (r + 1) \<le> after) \<longleftrightarrow>
        ib r \<and> 0 \<le> lastMatch st \<and> sinceMatch st < after"
    proof (cases "0 \<le> lastMatch st \<and> ib r")
      case True
      let ?L = "lastMatch st"
      have L: "?L < r" "ib ?L" "mt ?L" using ei E True by (auto simp: emit_inv_def)
      have near: "in_stream ib (?L + 1) (r + 1) \<le> in_stream ib (m + 1) (r + 1)" if "m < r" "ib m" "mt m" "0 \<le> m" for m
      proof -
        have "m \<le> ?L" using ei that unfolding emit_inv_def by force
        then show ?thesis by (intro in_stream_mono) simp_all
      qed
      have "in_stream ib (?L + 1) (r + 1) = in_stream ib (?L + 1) r + 1"
        using L True by (simp add: in_stream_snoc)
      moreover note since_count [OF inv r, OF conjunct1 [OF True]]
      ultimately have "in_stream ib (?L + 1) (r + 1) \<le> after \<longleftrightarrow> sinceMatch st < after" by linarith
      then show ?thesis using near L True by (meson order_trans)
    next
      case no: False
      then show ?thesis using ei unfolding emit_inv_def by force
    qed
    have mem: "(q, c) \<in> set (snd (emit_row before after ib mt st r)) \<longleftrightarrow>
        q = r \<and> c \<and> ib r \<and> 0 \<le> lastMatch st \<and> sinceMatch st < after" for q c
      using False by (auto simp: emit_row_def)
    have split: "?sh (r + 1) q \<longleftrightarrow> ?sh r q \<or> (q = r \<and> ib r \<and> 0 \<le> lastMatch st \<and> sinceMatch st < after)" for q
      using next_row [of q] False trail by blast
    show ?thesis unfolding set_append Un_iff rows mem split using False by blast
  qed
  then show ?thesis using emit_inv_row [OF ei r, of before] unfolding grep_inv_def by blast
qed

lemma grep_run:
  "grep_inv before after ib mt (int n) (fst (run_out (emit_row before after ib mt) context_start [0..int n - 1]))
     (snd (run_out (emit_row before after ib mt) context_start [0..int n - 1]))"
proof (induction n)
  case 0
  show ?case by (auto simp: grep_inv_def emit_inv_start shown_row_def)
next
  case (Suc n)
  let ?R = "run_out (emit_row before after ib mt) context_start [0..int n - 1]"
  have "[0..int (Suc n) - 1] = [0..int n - 1] @ [int n]" using upto_Suc_row [of 0 n] by simp
  then have "run_out (emit_row before after ib mt) context_start [0..int (Suc n) - 1] =
      (fst (emit_row before after ib mt (fst ?R) (int n)),
       snd ?R @ snd (emit_row before after ib mt (fst ?R) (int n)))"
    unfolding run_out_append by (simp add: run_out_append Let_def split_def)
  with grep_step [OF Suc.IH] show ?case by (simp add: add.commute)
qed

text \<open>C3: context_is_grep. The rows a filtered view shows are, in ascending order and each once, exactly
  the in-bound records that match the text axis or lie within \<open>after\<close> in-bound records behind
  a match or \<open>before\<close> in front of one, and a row is marked as context exactly when it does
  not match itself.\<close>

theorem context_is_grep:
  "sorted_wrt (<) (map fst (emit_all before after inS mtT idx)) \<and>
   (\<forall>q c. (q, c) \<in> set (emit_all before after inS mtT idx) \<longleftrightarrow>
      shown_row before after (at_row idx inS) (at_row idx mtT) (int (length (records idx))) q \<and>
      (c \<longleftrightarrow> \<not> mtT (records idx ! nat q)))"
  using grep_run [of before after "at_row idx inS" "at_row idx mtT" "length (records idx)"]
  unfolding emit_all_run grep_inv_def emit_inv_def by blast

end
