(* ===== verification/Policies.thy ===== *)
theory Policies
  imports Prelude
begin

text \<open>
  Small policies of \<open>src/core\<close> that decide over time: how long an unattended reconnect keeps
  trying (\<open>SshRetryPolicy\<close>), whether a session is finished (\<open>SshSessionHealth\<close>), how often a log
  may interrupt (\<open>AlertPolicy\<close>) and what a countdown says (\<open>RetryCountdown\<close>). In each the clock is a
  parameter, as in the code; milliseconds are \<open>int\<close>.
\<close>

section \<open>Reconnecting unattended\<close>

record reconnect_grace =
  m_graceMs :: int
  m_signedInOnce :: bool
  m_waiting :: bool
  m_firstFailureMs :: int

definition kDefaultGraceMs :: int where
  "kDefaultGraceMs = 300000"

definition reconnect_init :: "int \<Rightarrow> reconnect_grace" where
  "reconnect_init graceMs = \<lparr>m_graceMs = graceMs, m_signedInOnce = False, m_waiting = False,
     m_firstFailureMs = 0\<rparr>"

definition signedIn :: "reconnect_grace \<Rightarrow> reconnect_grace" where
  "signedIn g = g\<lparr>m_signedInOnce := True, m_waiting := False, m_firstFailureMs := 0\<rparr>"

definition keepTrying :: "reconnect_grace \<Rightarrow> int \<Rightarrow> reconnect_grace \<times> bool" where
  "keepTrying g nowMs =
     (if \<not> m_signedInOnce g then (g, False)
      else if \<not> m_waiting g then (g\<lparr>m_waiting := True, m_firstFailureMs := nowMs\<rparr>, True)
      else (g, nowMs - m_firstFailureMs g < m_graceMs g))"

text \<open>What a fetcher does to it: sign in, or fail at a time.\<close>

datatype attempt = SignedIn | FailedAt int

fun reconnect_step :: "reconnect_grace \<Rightarrow> attempt \<Rightarrow> reconnect_grace \<times> bool list" where
  "reconnect_step g SignedIn = (signedIn g, [])"
| "reconnect_step g (FailedAt t) = (fst (keepTrying g t), [snd (keepTrying g t)])"

text \<open>The specification reads the history: the failures since the last sign-in, and whether there
  was one.\<close>

fun outage :: "attempt list \<Rightarrow> bool \<times> int option" where
  "outage [] = (False, None)"
| "outage (SignedIn # h) = (True, None)"
| "outage (FailedAt t # h) =
     (fst (outage h), if fst (outage h) then (case snd (outage h) of None \<Rightarrow> Some t | Some s \<Rightarrow> Some s) else None)"

lemma outage_signed: "snd (outage h) = Some t \<Longrightarrow> fst (outage h)"
  by (induction h rule: outage.induct) (auto split: if_splits)

lemma reconnect_abs:
  "fst (run_out reconnect_step (reconnect_init grace) h) =
     \<lparr>m_graceMs = grace, m_signedInOnce = fst (outage (rev h)),
      m_waiting = (snd (outage (rev h)) \<noteq> None),
      m_firstFailureMs = (case snd (outage (rev h)) of None \<Rightarrow> 0 | Some t \<Rightarrow> t)\<rparr>"
proof (induction h rule: rev_induct)
  case Nil
  then show ?case by (simp add: reconnect_init_def)
next
  case (snoc a h)
  show ?case
    by (cases a) (auto simp: run_out_append Let_def split_def snoc signedIn_def keepTrying_def dest: outage_signed split: option.splits)
qed

section \<open>The session's health\<close>

definition sshErrorEndsSession :: "int \<Rightarrow> bool" where
  "sshErrorEndsSession c =
     (c \<in> {- 1, - 7, - 43, - 13, - 45, - 9, - 30, - 2, - 3, - 5, - 8, - 4, - 52, - 12, - 44, - 14, - 29, - 40})"

record session_health =
  m_dead :: bool

definition noteError :: "session_health \<Rightarrow> int \<Rightarrow> session_health" where
  "noteError h c = (if sshErrorEndsSession c then h\<lparr>m_dead := True\<rparr> else h)"

definition markAlive :: "session_health \<Rightarrow> session_health" where
  "markAlive h = h\<lparr>m_dead := False\<rparr>"

datatype health_event = Code int | Alive

fun health_step :: "session_health \<Rightarrow> health_event \<Rightarrow> session_health" where
  "health_step h (Code c) = noteError h c"
| "health_step h Alive = markAlive h"

section \<open>Alerts\<close>

record alert_policy =
  m_intervalMs :: int
  m_lastNotifyMs :: int
  m_everNotified :: bool
  m_pending :: int

record decision =
  notify :: bool
  d_count :: int

definition no_decision :: decision where
  "no_decision = \<lparr>notify = False, d_count = 0\<rparr>"

definition kDefaultIntervalMs :: int where
  "kDefaultIntervalMs = 10000"

definition alert_init :: "int \<Rightarrow> alert_policy" where
  "alert_init minIntervalMs = \<lparr>m_intervalMs = minIntervalMs, m_lastNotifyMs = 0, m_everNotified = False,
     m_pending = 0\<rparr>"

definition admitted :: "alert_policy \<Rightarrow> int \<Rightarrow> alert_policy \<times> decision" where
  "admitted p nowMs =
     (p\<lparr>m_pending := 0, m_lastNotifyMs := nowMs, m_everNotified := True\<rparr>,
      \<lparr>notify = True, d_count = m_pending p\<rparr>)"

definition recordBatch :: "alert_policy \<Rightarrow> int \<Rightarrow> int \<Rightarrow> alert_policy \<times> decision" where
  "recordBatch p nowMs matchCount =
     (if matchCount \<le> 0 then (p, no_decision)
      else
        (let p' = p\<lparr>m_pending := m_pending p + matchCount\<rparr> in
         if m_everNotified p' \<and> nowMs - m_lastNotifyMs p' < m_intervalMs p' then (p', no_decision)
         else admitted p' nowMs))"

definition alert_poll :: "alert_policy \<Rightarrow> int \<Rightarrow> alert_policy \<times> decision" where
  "alert_poll p nowMs =
     (if m_pending p \<le> 0 then (p, no_decision)
      else if m_everNotified p \<and> nowMs - m_lastNotifyMs p < m_intervalMs p then (p, no_decision)
      else admitted p nowMs)"

definition alert_reset :: "alert_policy \<Rightarrow> alert_policy" where
  "alert_reset p = p\<lparr>m_pending := 0, m_lastNotifyMs := 0, m_everNotified := False\<rparr>"

text \<open>The window's calls between two resets, each with the time; what comes out is the notifications
  raised, with when and for how many.\<close>

datatype alert_call = Batch int int | Poll int

fun alert_step :: "alert_policy \<Rightarrow> alert_call \<Rightarrow> alert_policy \<times> (int \<times> int) list" where
  "alert_step p (Batch t n) =
     (let (p', d) = recordBatch p t n in (p', if notify d then [(t, d_count d)] else []))"
| "alert_step p (Poll t) =
     (let (p', d) = alert_poll p t in (p', if notify d then [(t, d_count d)] else []))"

fun matches_in :: "alert_call \<Rightarrow> int" where
  "matches_in (Batch t n) = (if n \<le> 0 then 0 else n)"
| "matches_in (Poll t) = 0"

section \<open>The countdown\<close>

definition retryCountdown :: "string \<Rightarrow> int \<Rightarrow> int \<Rightarrow> string \<times> int option" where
  "retryCountdown reason retryAtMs nowMs =
     (if reason = [] \<or> retryAtMs \<le> 0 then (reason, None)
      else (let remaining = retryAtMs - nowMs in
            if remaining \<le> 0 then (reason, None) else (reason, Some ((remaining + 999) div 1000))))"

section \<open>Properties\<close>

text \<open>After any history of sign-ins and failures an unattended failure
  at time \<open>t\<close> is retried exactly when there has been a sign-in and either it is the first
  failure since the last one or less than the grace has passed since that first one.\<close>

theorem reconnect_grace_window:
  "snd (keepTrying (fst (run_out reconnect_step (reconnect_init grace) h)) t) \<longleftrightarrow>
     fst (outage (rev h)) \<and> (case snd (outage (rev h)) of None \<Rightarrow> True | Some s \<Rightarrow> t - s < grace)"
  unfolding reconnect_abs by (auto simp: keepTrying_def split: option.splits)

text \<open>A session counts as dead exactly when the last event that says anything
  about the link, a terminal error code or an answer that came back, was a terminal code; codes
  about a request leave it as it was.\<close>

theorem session_health_latch:
  "m_dead (fold (\<lambda>e h. health_step h e) es \<lparr>m_dead = False\<rparr>) \<longleftrightarrow>
     (\<exists>pre c post. es = pre @ Code c # post \<and> sshErrorEndsSession c \<and> Alive \<notin> set post)"
proof (induction es rule: rev_induct)
  case Nil
  then show ?case by simp
next
  case (snoc e es)
  show ?case
  proof (cases e)
    case Alive
    have "\<not> (\<exists>pre c post. es @ [Alive] = pre @ Code c # post \<and> Alive \<notin> set post)"
    proof
      assume "\<exists>pre c post. es @ [Alive] = pre @ Code c # post \<and> Alive \<notin> set post"
      then obtain pre c post where "es @ [Alive] = pre @ Code c # post" "Alive \<notin> set post" by blast
      then show False by (cases post rule: rev_exhaust) auto
    qed
    with Alive show ?thesis by (auto simp: markAlive_def)
  next
    case (Code c)
    have split: "(\<exists>pre c' post. es @ [Code c] = pre @ Code c' # post \<and> sshErrorEndsSession c' \<and> Alive \<notin> set post) \<longleftrightarrow>
        sshErrorEndsSession c \<or>
        (\<exists>pre c' post. es = pre @ Code c' # post \<and> sshErrorEndsSession c' \<and> Alive \<notin> set post)" (is "?l \<longleftrightarrow> ?r")
    proof
      assume ?l
      then obtain pre c' post where p: "es @ [Code c] = pre @ Code c' # post" "sshErrorEndsSession c'"
        "Alive \<notin> set post" by blast
      then show ?r by (cases post rule: rev_exhaust) auto
    next
      assume ?r
      then show ?l
      proof
        assume "sshErrorEndsSession c"
        then show ?l by (intro exI [of _ es] exI [of _ c] exI [of _ "[]"]) simp
      next
        assume "\<exists>pre c' post. es = pre @ Code c' # post \<and> sshErrorEndsSession c' \<and> Alive \<notin> set post"
        then obtain pre c' post where "es = pre @ Code c' # post" "sshErrorEndsSession c'" "Alive \<notin> set post" by blast
        then show ?l by (intro exI [of _ pre] exI [of _ c'] exI [of _ "post @ [Code c]"]) simp
      qed
    qed
    show ?thesis using snoc.IH unfolding Code split by (simp add: noteError_def)
  qed
qed

text \<open>The notifications so far and what the policy remembers of them.\<close>

definition alert_inv :: "int \<Rightarrow> alert_policy \<Rightarrow> (int \<times> int) list \<Rightarrow> int \<Rightarrow> bool" where
  "alert_inv iv p out seen \<longleftrightarrow>
     m_intervalMs p = iv \<and> 0 \<le> m_pending p \<and> (m_everNotified p \<longleftrightarrow> out \<noteq> []) \<and>
     (out \<noteq> [] \<longrightarrow> m_lastNotifyMs p = fst (last out)) \<and>
     sum_list (map snd out) + m_pending p = seen \<and>
     successively (\<lambda>a b. iv \<le> fst b - fst a) out \<and> (\<forall>d \<in> set out. 0 < snd d)"

lemma alert_inv_step:
  "alert_inv iv p out seen \<Longrightarrow>
     alert_inv iv (fst (alert_step p c)) (out @ snd (alert_step p c)) (seen + matches_in c)"
  by (cases c) (auto simp: alert_inv_def recordBatch_def alert_poll_def admitted_def no_decision_def Let_def
      successively_append_iff)

lemma alert_inv_run:
  "alert_inv iv p out seen \<Longrightarrow>
     alert_inv iv (fst (run_out alert_step p cs)) (out @ snd (run_out alert_step p cs))
       (seen + sum_list (map matches_in cs))"
proof (induction cs arbitrary: p out seen)
  case (Cons c cs)
  from Cons.IH [OF alert_inv_step [OF Cons.prems, of c]] show ?case
    by (simp add: run_out_Cons add.assoc del: run_out.simps alert_step.simps matches_in.simps)
qed simp

text \<open>Over any sequence of ingest batches and polls no match is lost and none is
  counted twice: the counts of the notifications raised and the backlog add up to the matches
  seen. Two notifications in a row are at least the interval apart, each stands for at least one match,
  and a poll once the interval has passed releases a whole backlog.\<close>

theorem alerts_coalesced:
  "sum_list (map snd (snd (run_out alert_step (alert_init iv) cs))) +
     m_pending (fst (run_out alert_step (alert_init iv) cs)) = sum_list (map matches_in cs) \<and>
   successively (\<lambda>a b. iv \<le> fst b - fst a) (snd (run_out alert_step (alert_init iv) cs)) \<and>
   (\<forall>d \<in> set (snd (run_out alert_step (alert_init iv) cs)). 0 < snd d) \<and>
   (\<forall>t. 0 < m_pending (fst (run_out alert_step (alert_init iv) cs)) \<and>
        m_lastNotifyMs (fst (run_out alert_step (alert_init iv) cs)) + iv \<le> t \<longrightarrow>
        snd (alert_poll (fst (run_out alert_step (alert_init iv) cs)) t) =
          \<lparr>notify = True, d_count = m_pending (fst (run_out alert_step (alert_init iv) cs))\<rparr>)"
proof -
  have "alert_inv iv (alert_init iv) [] 0" by (simp add: alert_inv_def alert_init_def)
  from alert_inv_run [OF this, of cs]
  have "alert_inv iv (fst (run_out alert_step (alert_init iv) cs)) (snd (run_out alert_step (alert_init iv) cs))
      (sum_list (map matches_in cs))" by simp
  then show ?thesis by (auto simp: alert_inv_def alert_poll_def admitted_def)
qed

theorem alerts_coalesced_witness:
  "snd (run_out alert_step (alert_init 10) [Batch 0 3, Batch 4 2, Poll 9, Poll 10]) = [(0, 3), (10, 2)] \<and>
   sum_list (map snd (snd (run_out alert_step (alert_init 10) [Batch 0 3, Batch 4 2, Poll 9, Poll 10]))) +
     m_pending (fst (run_out alert_step (alert_init 10) [Batch 0 3, Batch 4 2, Poll 9, Poll 10])) = 5"
  using alerts_coalesced [of 10 "[Batch 0 3, Batch 4 2, Poll 9, Poll 10]"]
  by (simp add: recordBatch_def alert_poll_def admitted_def no_decision_def alert_init_def Let_def)

text \<open>The countdown never shows zero or less, and rounds the remaining time up to seconds.\<close>

lemma countdown_positive:
  "retryCountdown reason retryAtMs nowMs = (r, Some n) \<Longrightarrow>
     0 < n \<and> retryAtMs - nowMs \<le> 1000 * n \<and> 1000 * n < retryAtMs - nowMs + 1000"
proof -
  assume "retryCountdown reason retryAtMs nowMs = (r, Some n)"
  then have "0 < retryAtMs - nowMs" "n = (retryAtMs - nowMs + 999) div 1000"
    by (auto simp: retryCountdown_def Let_def split: if_splits)
  then show ?thesis by (simp, linarith)
qed

end
