(* ===== verification/Sources.thy ===== *)
theory Sources
  imports Index
begin

text \<open>
  \<open>src/core/HeadWitness.h\<close>, \<open>MappedLogSource.cpp\<close> and \<open>BufferedLogSource.cpp\<close>: how a local log is
  read and how truncation, replacement and a rewrite in place are noticed. The file system is
  outside: what \<open>fstat\<close> answers (size and identity, or nothing), whether \<open>mmap\<close> succeeds, what
  stands at the path, and the bytes the open file holds now are arguments of the operations.
\<close>

section \<open>The head witness\<close>

definition kBytes :: int where
  "kBytes = 1024"

record head_witness =
  m_head :: bytes

definition witness_take :: "bytes \<Rightarrow> head_witness" where
  "witness_take head =
     (let n = min (int (length head)) kBytes
      in \<lparr>m_head = (if 0 < n then take (nat n) head else [])\<rparr>)"

definition contradicts :: "head_witness \<Rightarrow> bytes \<Rightarrow> bool" where
  "contradicts w head =
     (if m_head w = [] then False
      else if length head < length (m_head w) then True
      else take (length (m_head w)) head \<noteq> m_head w)"

definition wantsMore :: "head_witness \<Rightarrow> bool" where
  "wantsMore w = (int (length (m_head w)) < kBytes)"

section \<open>The mapped source\<close>

definition file_identity :: "64 word \<Rightarrow> 64 word \<Rightarrow> 64 word" where
  "file_identity st_dev st_ino = push_bit 32 st_dev XOR st_ino"

record mapped_source =
  ms_mapped :: bool
  ms_mappedSize :: int
  ms_identity :: "64 word"
  ms_truncated :: bool
  ms_head :: head_witness

definition mapped_bytes :: "mapped_source \<Rightarrow> bytes \<Rightarrow> int \<Rightarrow> int \<Rightarrow> bytes" where
  "mapped_bytes s content off len =
     (if off < 0 \<or> len \<le> 0 \<or> \<not> ms_mapped s then []
      else if ms_mappedSize s \<le> off then []
      else take (nat (min len (ms_mappedSize s - off))) (drop (nat off) content))"

definition unmap :: "mapped_source \<Rightarrow> mapped_source" where
  "unmap s = s\<lparr>ms_mapped := False, ms_mappedSize := 0\<rparr>"

definition remap :: "(int \<Rightarrow> bool) \<Rightarrow> mapped_source \<Rightarrow> int \<Rightarrow> mapped_source \<times> bool" where
  "remap mmap_ok s newSize =
     (let s = unmap s in
      if newSize \<le> 0 then (s, False)
      else if \<not> mmap_ok newSize then (s\<lparr>ms_mapped := False\<rparr>, False)
      else (s\<lparr>ms_mapped := True, ms_mappedSize := newSize\<rparr>, True))"

definition mapped_open ::
  "(int \<Rightarrow> bool) \<Rightarrow> (int \<times> 64 word) option \<Rightarrow> bytes \<Rightarrow> mapped_source option" where
  "mapped_open mmap_ok st content =
     (case st of
        None \<Rightarrow> None
      | Some (st_size, ident) \<Rightarrow>
          (let s0 = \<lparr>ms_mapped = False, ms_mappedSize = 0, ms_identity = ident, ms_truncated = False,
                     ms_head = \<lparr>m_head = []\<rparr>\<rparr>;
               (s, ok) = remap mmap_ok s0 st_size
           in if \<not> ok \<and> st_size \<noteq> 0 then None
              else Some (s\<lparr>ms_head := witness_take (mapped_bytes s content 0 kBytes)\<rparr>)))"

definition mapped_refreshSize ::
  "(int \<Rightarrow> bool) \<Rightarrow> mapped_source \<Rightarrow> (int \<times> 64 word) option \<Rightarrow> bytes \<Rightarrow> mapped_source" where
  "mapped_refreshSize mmap_ok s st content =
     (case st of
        None \<Rightarrow> s
      | Some (current, ident) \<Rightarrow>
          (let s1 = (if current < ms_mappedSize s \<or> ident \<noteq> ms_identity s
                     then s\<lparr>ms_truncated := True\<rparr> else s);
               s2 = (if current \<noteq> ms_mappedSize s1 then fst (remap mmap_ok s1 current) else s1)
           in if \<not> ms_truncated s2 then
                (let head = mapped_bytes s2 content 0 kBytes in
                 if contradicts (ms_head s2) head then s2\<lparr>ms_truncated := True\<rparr>
                 else if wantsMore (ms_head s2) then s2\<lparr>ms_head := witness_take head\<rparr>
                 else s2)
              else s2))"

definition mapped_wasReplaced :: "mapped_source \<Rightarrow> 64 word \<Rightarrow> bool" where
  "mapped_wasReplaced s current = (current \<noteq> 0 \<and> ms_identity s \<noteq> 0 \<and> current \<noteq> ms_identity s)"

definition mapped_originVanished :: "64 word \<Rightarrow> bool" where
  "mapped_originVanished current = (current = 0)"

section \<open>The buffered source\<close>

record buffered_source =
  bs_size :: int
  bs_identity :: "64 word"
  bs_pathIdentity :: "64 word"
  bs_truncated :: bool
  bs_head :: head_witness

definition computeIdentity :: "64 word \<Rightarrow> 64 word \<Rightarrow> 64 word" where
  "computeIdentity mtime fsize = push_bit 20 mtime XOR fsize"

definition readHead :: "bytes \<Rightarrow> bytes" where
  "readHead content = take (nat kBytes) content"

definition buffered_open :: "bool \<Rightarrow> 64 word \<Rightarrow> 64 word \<Rightarrow> bytes \<Rightarrow> buffered_source option" where
  "buffered_open openable mtime pathIdentity content =
     (if \<not> openable then None
      else Some \<lparr>bs_size = int (length content),
                 bs_identity = computeIdentity mtime (of_nat (length content)),
                 bs_pathIdentity = pathIdentity, bs_truncated = False,
                 bs_head = witness_take (readHead content)\<rparr>)"

definition buffered_refreshSize :: "buffered_source \<Rightarrow> bytes \<Rightarrow> buffered_source" where
  "buffered_refreshSize s content =
     (let current = int (length content);
          s1 = (if current < bs_size s then s\<lparr>bs_truncated := True\<rparr> else s);
          s2 = s1\<lparr>bs_size := current\<rparr>
      in if \<not> bs_truncated s2 then
           (let head = readHead content in
            if contradicts (bs_head s2) head then s2\<lparr>bs_truncated := True\<rparr>
            else if wantsMore (bs_head s2) then s2\<lparr>bs_head := witness_take head\<rparr>
            else s2)
         else s2)"

definition buffered_wasReplaced :: "buffered_source \<Rightarrow> 64 word \<Rightarrow> bool" where
  "buffered_wasReplaced s current =
     (current \<noteq> 0 \<and> bs_pathIdentity s \<noteq> 0 \<and> current \<noteq> bs_pathIdentity s)"

definition buffered_bytes :: "buffered_source \<Rightarrow> bytes \<Rightarrow> int \<Rightarrow> int \<Rightarrow> bytes" where
  "buffered_bytes s content off len =
     (if off < 0 \<or> len \<le> 0 \<or> bs_size s \<le> off then []
      else take (nat (min len (bs_size s - off))) (drop (nat off) content))"

section \<open>What a source knows of its file\<close>

lemma witness_take_head [simp]: "m_head (witness_take head) = take 1024 head"
  by (simp add: witness_take_def kBytes_def Let_def min_def)

definition mapped_wf :: "mapped_source \<Rightarrow> bytes \<Rightarrow> bool" where
  "mapped_wf s content \<longleftrightarrow>
     ms_mappedSize s = int (length content) \<and> (ms_mapped s \<longleftrightarrow> content \<noteq> []) \<and>
     \<not> ms_truncated s \<and> m_head (ms_head s) = take 1024 content"

definition buffered_wf :: "buffered_source \<Rightarrow> bytes \<Rightarrow> bool" where
  "buffered_wf s content \<longleftrightarrow>
     bs_size s = int (length content) \<and> \<not> bs_truncated s \<and> m_head (bs_head s) = take 1024 content"

lemma mapped_window:
  "mapped_wf s content \<Longrightarrow> mapped_bytes s content (int pos) (int want) = take want (drop pos content)"
  by (auto simp: mapped_wf_def mapped_bytes_def min_def)

lemma buffered_window:
  "buffered_wf s content \<Longrightarrow> buffered_bytes s content (int pos) (int want) = take want (drop pos content)"
  by (auto simp: buffered_wf_def buffered_bytes_def min_def)

text \<open>What following a log relies on: a source in agreement with its file reads it window by window;
  a refresh agrees with the file again unless what was witnessed is gone or changed, and then
  says so.\<close>

definition rewritten :: "bytes \<Rightarrow> bytes \<Rightarrow> bool" where
  "rewritten old new \<longleftrightarrow>
     length new < length old \<or> take (length (take 1024 old)) new \<noteq> take 1024 old"

locale followed_source =
  fixes agrees :: "'s \<Rightarrow> bytes \<Rightarrow> bool"
    and read :: "'s \<Rightarrow> bytes \<Rightarrow> nat \<Rightarrow> nat \<Rightarrow> bytes"
    and refresh :: "'s \<Rightarrow> bytes \<Rightarrow> 's"
    and truncated :: "'s \<Rightarrow> bool"
  assumes window: "agrees s content \<Longrightarrow> read s content pos want = take want (drop pos content)"
    and refresh_agrees: "agrees s old \<Longrightarrow> \<not> rewritten old new \<Longrightarrow> agrees (refresh s new) new"
    and refresh_detects: "agrees s old \<Longrightarrow> truncated (refresh s new) \<longleftrightarrow> rewritten old new"
begin

lemma append_not_rewritten: "\<not> rewritten old (old @ extra)"
  by (cases "length old \<le> 1024") (simp_all add: rewritten_def min_def)

text \<open>The file as it is on each tick, \<open>c\<close> at the start.\<close>

lemma follow:
  "agrees s c \<Longrightarrow> successively (\<lambda>a b. \<not> rewritten a b) (c # cs) \<Longrightarrow>
     agrees (fold (\<lambda>new s. refresh s new) cs s) (last (c # cs)) \<and>
     (\<forall>new. truncated (refresh (fold (\<lambda>new s. refresh s new) cs s) new) \<longleftrightarrow> rewritten (last (c # cs)) new)"
proof (induction cs arbitrary: s c)
  case Nil
  then show ?case by (simp add: refresh_detects)
next
  case (Cons d cs)
  then have "agrees (refresh s d) d" by (auto intro: refresh_agrees)
  from Cons.IH [OF this] Cons.prems(2) show ?case by simp
qed

end

lemma contradicts_prefix:
  assumes "m_head w = take 1024 old" and "length old \<le> length new"
  shows "contradicts w (take 1024 new) \<longleftrightarrow> rewritten old new"
proof -
  have "take (length (take 1024 old)) (take 1024 new) = take (length (take 1024 old)) new"
    by (cases "length old \<le> 1024") (auto simp: min_def)
  moreover have "\<not> length (take 1024 new) < length (take 1024 old)" using assms(2) by auto
  moreover have "\<not> length new < length old" using assms(2) by simp
  ultimately show ?thesis using assms(1) unfolding contradicts_def rewritten_def by (simp del: length_take)
qed

lemma witness_settled:
  assumes "m_head w = take 1024 old" and "\<not> rewritten old new" and "\<not> wantsMore w"
  shows "take 1024 new = take 1024 old"
proof -
  have "length (take 1024 old) = 1024" using assms(1,3) by (simp add: wantsMore_def kBytes_def)
  then show ?thesis using assms(2) by (simp add: rewritten_def)
qed

lemma mapped_head: "mapped_wf s content \<Longrightarrow> mapped_bytes s content 0 kBytes = take 1024 content"
  using mapped_window [of s content 0 1024] by (simp add: kBytes_def)

lemma mapped_refresh:
  assumes wf: "mapped_wf s old"
  shows "(\<not> rewritten old new \<longrightarrow>
      mapped_wf (mapped_refreshSize (\<lambda>_. True) s (Some (int (length new), ms_identity s)) new) new) \<and>
    (ms_truncated (mapped_refreshSize (\<lambda>_. True) s (Some (int (length new), ms_identity s)) new) \<longleftrightarrow>
      rewritten old new)"
proof (cases "length new < length old")
  case True
  then show ?thesis using wf
    by (auto simp: mapped_refreshSize_def mapped_wf_def rewritten_def remap_def unmap_def Let_def)
next
  case False
  define s2 where "s2 = (if int (length new) \<noteq> ms_mappedSize s then fst (remap (\<lambda>_. True) s (int (length new))) else s)"
  have s2: "ms_mappedSize s2 = int (length new)" "ms_mapped s2 \<longleftrightarrow> new \<noteq> []" "\<not> ms_truncated s2"
    "ms_head s2 = ms_head s"
    using wf False by (auto simp: s2_def mapped_wf_def remap_def unmap_def Let_def)
  have head: "mapped_bytes s2 new 0 kBytes = take 1024 new"
    using s2 by (auto simp: mapped_bytes_def kBytes_def min_def)
  have R: "mapped_refreshSize (\<lambda>_. True) s (Some (int (length new), ms_identity s)) new =
      (if contradicts (ms_head s) (take 1024 new) then s2\<lparr>ms_truncated := True\<rparr>
       else if wantsMore (ms_head s) then s2\<lparr>ms_head := witness_take (take 1024 new)\<rparr> else s2)"
  proof -
    have nt: "\<not> int (length new) < ms_mappedSize s" "\<not> ms_truncated s"
      using wf False by (simp_all add: mapped_wf_def)
    show ?thesis
      unfolding mapped_refreshSize_def option.case prod.case Let_def
      by (simp only: nt if_True if_False simp_thms s2_def [symmetric] s2 head)
  qed
  have hd: "m_head (ms_head s) = take 1024 old" using wf by (simp add: mapped_wf_def)
  have c: "contradicts (ms_head s) (take 1024 new) \<longleftrightarrow> rewritten old new"
    using contradicts_prefix [OF hd] False by simp
  show ?thesis unfolding R c using s2 hd witness_settled [OF hd, of new]
    by (auto simp: mapped_wf_def)
qed

lemma buffered_refresh:
  assumes wf: "buffered_wf s old"
  shows "(\<not> rewritten old new \<longrightarrow> buffered_wf (buffered_refreshSize s new) new) \<and>
    (bs_truncated (buffered_refreshSize s new) \<longleftrightarrow> rewritten old new)"
proof (cases "length new < length old")
  case True
  then show ?thesis using wf by (auto simp: buffered_refreshSize_def buffered_wf_def rewritten_def Let_def)
next
  case False
  have hd: "m_head (bs_head s) = take 1024 old" using wf by (simp add: buffered_wf_def)
  have c: "contradicts (bs_head s) (take 1024 new) \<longleftrightarrow> rewritten old new"
    using contradicts_prefix [OF hd] False by simp
  show ?thesis using wf False c hd witness_settled [OF hd, of new]
    by (auto simp: buffered_refreshSize_def buffered_wf_def readHead_def kBytes_def Let_def)
qed

interpretation mapped: followed_source mapped_wf
  "\<lambda>s content pos want. mapped_bytes s content (int pos) (int want)"
  "\<lambda>s new. mapped_refreshSize (\<lambda>_. True) s (Some (int (length new), ms_identity s)) new" ms_truncated
  by unfold_locales (use mapped_window mapped_refresh in blast)+

interpretation buffered: followed_source buffered_wf
  "\<lambda>s content pos want. buffered_bytes s content (int pos) (int want)" buffered_refreshSize bs_truncated
  by unfold_locales (use buffered_window buffered_refresh in blast)+

lemma mapped_open_wf:
  "mapped_open (\<lambda>_. True) (Some (int (length content), ident)) content = Some s \<Longrightarrow> mapped_wf s content"
  by (auto simp: mapped_open_def mapped_wf_def remap_def unmap_def mapped_bytes_def kBytes_def Let_def min_def
      split: if_splits)

lemma buffered_open_wf: "buffered_open True mt pid content = Some s \<Longrightarrow> buffered_wf s content"
  by (auto simp: buffered_open_def buffered_wf_def readHead_def kBytes_def)

text \<open>An opened source is a byte source for the indexer.\<close>

interpretation opened_mapped: byte_source
  "\<lambda>pos want. mapped_bytes (the (mapped_open (\<lambda>_. True) (Some (int (length content), ident)) content)) content
     (int pos) (int want)" content for content ident
proof
  fix pos want
  obtain s where s: "mapped_open (\<lambda>_. True) (Some (int (length content), ident)) content = Some s"
    by (cases "content = []") (auto simp: mapped_open_def remap_def unmap_def Let_def)
  show "mapped_bytes (the (mapped_open (\<lambda>_. True) (Some (int (length content), ident)) content)) content
      (int pos) (int want) = take want (drop pos content)"
    using mapped_window [OF mapped_open_wf [OF s]] s by simp
qed

text \<open>C34: local_rewrite_detected. Follow a mapped log through any sequence of states of its file in which the
  witnessed first kilobyte stands and the size does not fall, appends among them. It reads the
  file as it is then, and the next refresh reports a truncation exactly when the file has become
  shorter or the witnessed prefix has changed.\<close>

theorem local_rewrite_detected:
  assumes "mapped_open (\<lambda>_. True) (Some (int (length c), ident)) c = Some s"
    and "successively (\<lambda>a b. \<not> rewritten a b) (c # cs)"
  shows "mapped_bytes (fold (\<lambda>new s. mapped_refreshSize (\<lambda>_. True) s (Some (int (length new), ms_identity s)) new) cs s)
      (last (c # cs)) (int pos) (int want) = take want (drop pos (last (c # cs))) \<and>
    (ms_truncated (mapped_refreshSize (\<lambda>_. True)
        (fold (\<lambda>new s. mapped_refreshSize (\<lambda>_. True) s (Some (int (length new), ms_identity s)) new) cs s)
        (Some (int (length new), ms_identity
          (fold (\<lambda>new s. mapped_refreshSize (\<lambda>_. True) s (Some (int (length new), ms_identity s)) new) cs s))) new)
      \<longleftrightarrow> rewritten (last (c # cs)) new)"
  using mapped.follow [OF mapped_open_wf [OF assms(1)] assms(2)] mapped.window by blast

theorem local_rewrite_detected_witness:
  "\<exists>s. mapped_open (\<lambda>_. True) (Some (2, 7)) [65, 66] = Some s \<and>
     ms_truncated (mapped_refreshSize (\<lambda>_. True)
       (fold (\<lambda>new s. mapped_refreshSize (\<lambda>_. True) s (Some (int (length new), ms_identity s)) new) [[65, 66, 67]] s)
       (Some (4, ms_identity
         (fold (\<lambda>new s. mapped_refreshSize (\<lambda>_. True) s (Some (int (length new), ms_identity s)) new) [[65, 66, 67]] s)))
       [65, 90, 67, 68])"
proof -
  obtain s where s: "mapped_open (\<lambda>_. True) (Some (int (length [65, 66 :: byte]), 7)) [65, 66] = Some s"
    by (auto simp: mapped_open_def remap_def unmap_def Let_def)
  have "successively (\<lambda>a b. \<not> rewritten a b) [[65, 66 :: byte], [65, 66, 67]]"
    by (simp add: rewritten_def)
  from local_rewrite_detected [OF s this, of 0 0 "[65, 90, 67, 68]"] s
  show ?thesis by (auto simp: rewritten_def)
qed

text \<open>A source reports its file replaced exactly when something with a
  known identity other than the one it opened stands at the path; an unknown identity on either side is
  no replacement, and for the mapped source the origin counts as vanished exactly then.\<close>

theorem replacement_needs_two_identities:
  "(mapped_wasReplaced s current \<longleftrightarrow> {current, ms_identity s} \<inter> {0} = {} \<and> current \<noteq> ms_identity s) \<and>
   (buffered_wasReplaced b current \<longleftrightarrow> {current, bs_pathIdentity b} \<inter> {0} = {} \<and> current \<noteq> bs_pathIdentity b) \<and>
   \<not> (mapped_wasReplaced s current \<and> mapped_originVanished current)"
  by (auto simp: mapped_wasReplaced_def buffered_wasReplaced_def mapped_originVanished_def)

end
