(* ===== verification/SerialProfile.thy ===== *)
theory SerialProfile
  imports Prelude
begin

text \<open>
  \<open>src/core/SerialProfile\<close>: the preset of a serial line, what an edit of it costs a log that is being
  read, and its place in a JSON settings file. Of JSON the theory has the values and the readers of
  \<open>QJsonValue\<close> the code uses: \<open>toString\<close>, \<open>toInt\<close> with a default, \<open>toArray\<close>.
\<close>

section \<open>JSON values\<close>

datatype json = JNull | JBool bool | JNum int | JStr string | JArr "json list" | JObj "string \<rightharpoonup> json"

type_synonym json_object = "string \<rightharpoonup> json"

fun toString :: "json option \<Rightarrow> string" where
  "toString (Some (JStr s)) = s"
| "toString _ = []"

definition int32 :: "int \<Rightarrow> bool" where
  "int32 n \<longleftrightarrow> - 2147483648 \<le> n \<and> n \<le> 2147483647"

fun toInt :: "int \<Rightarrow> json option \<Rightarrow> int" where
  "toInt d (Some (JNum n)) = (if int32 n then n else d)"
| "toInt d _ = d"

fun toArray :: "json option \<Rightarrow> json list" where
  "toArray (Some (JArr xs)) = xs"
| "toArray _ = []"

section \<open>The preset\<close>

datatype parity = ParityNone | ParityEven | ParityOdd | ParityMark | ParitySpace
datatype stop_bits = StopOne | StopOneAndHalf | StopTwo
datatype flow = FlowNone | FlowHardware | FlowSoftware

record serial_profile =
  sp_name :: string
  baud :: int
  dataBits :: int
  sp_parity :: parity
  stopBits :: stop_bits
  sp_flow :: flow
  loginPromptRe :: string
  passwordPromptRe :: string
  promptTimeoutMs :: int
  attempts :: int
  startupCommands :: "string list"
  rebootRe :: string
  pollMs :: int

definition builtIn :: serial_profile where
  "builtIn = \<lparr>sp_name = [], baud = 115200, dataBits = 8, sp_parity = ParityNone, stopBits = StopOne,
     sp_flow = FlowNone, loginPromptRe = ''(?:login|[Uu]sername)'' @ [CHR 0x5C] @ ''s*:'',
     passwordPromptRe = ''[Pp]assword'' @ [CHR 0x5C] @ ''s*:'', promptTimeoutMs = 5000, attempts = 3,
     startupCommands = [], rebootRe = [], pollMs = 2000\<rparr>"

fun parityName :: "parity \<Rightarrow> string" where
  "parityName ParityNone = ''none''"
| "parityName ParityEven = ''even''"
| "parityName ParityOdd = ''odd''"
| "parityName ParityMark = ''mark''"
| "parityName ParitySpace = ''space''"

definition parityFromName :: "string \<Rightarrow> parity" where
  "parityFromName s =
     (if s = ''even'' then ParityEven else if s = ''odd'' then ParityOdd
      else if s = ''mark'' then ParityMark else if s = ''space'' then ParitySpace else ParityNone)"

fun stopBitsName :: "stop_bits \<Rightarrow> string" where
  "stopBitsName StopOne = ''1''"
| "stopBitsName StopOneAndHalf = ''1.5''"
| "stopBitsName StopTwo = ''2''"

definition stopBitsFromName :: "string \<Rightarrow> stop_bits" where
  "stopBitsFromName s = (if s = ''1.5'' then StopOneAndHalf else if s = ''2'' then StopTwo else StopOne)"

fun flowName :: "flow \<Rightarrow> string" where
  "flowName FlowNone = ''none''"
| "flowName FlowHardware = ''hardware''"
| "flowName FlowSoftware = ''software''"

definition flowFromName :: "string \<Rightarrow> flow" where
  "flowFromName s = (if s = ''hardware'' then FlowHardware else if s = ''software'' then FlowSoftware else FlowNone)"

section \<open>What an edit costs\<close>

datatype change_cost = CostNothing | InPlace | Relogin | ReopenPort

definition serialChangeCost :: "serial_profile \<Rightarrow> serial_profile \<Rightarrow> change_cost" where
  "serialChangeCost p q =
     (if p = q then CostNothing
      else if baud p \<noteq> baud q \<or> dataBits p \<noteq> dataBits q \<or> sp_parity p \<noteq> sp_parity q \<or>
        stopBits p \<noteq> stopBits q \<or> sp_flow p \<noteq> sp_flow q then ReopenPort
      else if loginPromptRe p \<noteq> loginPromptRe q \<or> passwordPromptRe p \<noteq> passwordPromptRe q \<or>
        promptTimeoutMs p \<noteq> promptTimeoutMs q \<or> attempts p \<noteq> attempts q \<or>
        startupCommands p \<noteq> startupCommands q then Relogin
      else InPlace)"

section \<open>Storing a preset\<close>

definition serialProfileToJson :: "serial_profile \<Rightarrow> json_object" where
  "serialProfileToJson p =
     [''name'' \<mapsto> JStr (sp_name p), ''baud'' \<mapsto> JNum (baud p), ''dataBits'' \<mapsto> JNum (dataBits p),
      ''parity'' \<mapsto> JStr (parityName (sp_parity p)), ''stopBits'' \<mapsto> JStr (stopBitsName (stopBits p)),
      ''flow'' \<mapsto> JStr (flowName (sp_flow p)), ''loginPrompt'' \<mapsto> JStr (loginPromptRe p),
      ''passwordPrompt'' \<mapsto> JStr (passwordPromptRe p), ''promptTimeoutMs'' \<mapsto> JNum (promptTimeoutMs p),
      ''attempts'' \<mapsto> JNum (attempts p), ''rebootPattern'' \<mapsto> JStr (rebootRe p), ''pollMs'' \<mapsto> JNum (pollMs p),
      ''startupCommands'' \<mapsto> JArr (map JStr (startupCommands p))]"

definition serialProfileFromJson :: "json_object \<Rightarrow> serial_profile" where
  "serialProfileFromJson obj =
     \<lparr>sp_name = toString (obj ''name''),
      baud = toInt (baud builtIn) (obj ''baud''),
      dataBits = toInt (dataBits builtIn) (obj ''dataBits''),
      sp_parity = parityFromName (toString (obj ''parity'')),
      stopBits = stopBitsFromName (toString (obj ''stopBits'')),
      sp_flow = flowFromName (toString (obj ''flow'')),
      loginPromptRe = (if obj ''loginPrompt'' \<noteq> None then toString (obj ''loginPrompt'') else loginPromptRe builtIn),
      passwordPromptRe =
        (if obj ''passwordPrompt'' \<noteq> None then toString (obj ''passwordPrompt'') else passwordPromptRe builtIn),
      promptTimeoutMs = toInt (promptTimeoutMs builtIn) (obj ''promptTimeoutMs''),
      attempts = toInt (attempts builtIn) (obj ''attempts''),
      startupCommands = filter (\<lambda>c. c \<noteq> []) (map (\<lambda>v. toString (Some v)) (toArray (obj ''startupCommands''))),
      rebootRe = toString (obj ''rebootPattern''),
      pollMs = toInt (pollMs builtIn) (obj ''pollMs'')\<rparr>"

lemma parity_roundtrip [simp]: "parityFromName (parityName p) = p"
  by (cases p) (simp_all add: parityFromName_def)

lemma stopBits_roundtrip [simp]: "stopBitsFromName (stopBitsName s) = s"
  by (cases s) (simp_all add: stopBitsFromName_def)

lemma flow_roundtrip [simp]: "flowFromName (flowName f) = f"
  by (cases f) (simp_all add: flowFromName_def)

text \<open>A preset whose numbers are 32-bit ints reads back from JSON as it was written,
  except that empty startup commands are dropped; with none of these the preset is unchanged and
  reopening it costs a running log nothing. An empty object reads as a preset with every default.\<close>

theorem serial_preset_storage:
  assumes "\<forall>n \<in> {baud p, dataBits p, promptTimeoutMs p, attempts p, pollMs p}. int32 n"
  shows "serialProfileFromJson (serialProfileToJson p) =
      p\<lparr>startupCommands := filter (\<lambda>c. c \<noteq> []) (startupCommands p)\<rparr> \<and>
    ([] \<notin> set (startupCommands p) \<longrightarrow>
      serialChangeCost p (serialProfileFromJson (serialProfileToJson p)) = CostNothing) \<and>
    serialProfileFromJson Map.empty = builtIn"
proof -
  have read: "serialProfileFromJson (serialProfileToJson p) =
      p\<lparr>startupCommands := filter (\<lambda>c. c \<noteq> []) (startupCommands p)\<rparr>"
    using assms by (cases p) (simp add: serialProfileFromJson_def serialProfileToJson_def comp_def)
  moreover have "filter (\<lambda>c. c \<noteq> []) cs = cs" if "[] \<notin> set cs" for cs :: "string list"
    using that by (induction cs) auto
  then have "[] \<notin> set (startupCommands p) \<longrightarrow>
      serialChangeCost p (serialProfileFromJson (serialProfileToJson p)) = CostNothing"
    unfolding read by (simp add: serialChangeCost_def)
  moreover have "serialProfileFromJson Map.empty = builtIn"
    by (simp add: serialProfileFromJson_def builtIn_def parityFromName_def stopBitsFromName_def flowFromName_def)
  ultimately show ?thesis by blast
qed

theorem serial_preset_storage_witness:
  "serialProfileFromJson (serialProfileToJson (builtIn\<lparr>attempts := 5, startupCommands := [''dmesg -n 1'']\<rparr>)) =
     builtIn\<lparr>attempts := 5, startupCommands := [''dmesg -n 1'']\<rparr>"
  using serial_preset_storage [of "builtIn\<lparr>attempts := 5, startupCommands := [''dmesg -n 1'']\<rparr>"]
  by (simp add: builtIn_def int32_def)

text \<open>The tier is the highest any changed field implies.\<close>

lemma cheaper_edit_keeps_line:
  "serialChangeCost p q \<noteq> ReopenPort \<Longrightarrow>
     baud p = baud q \<and> dataBits p = dataBits q \<and> sp_parity p = sp_parity q \<and> stopBits p = stopBits q \<and>
     sp_flow p = sp_flow q"
  by (auto simp: serialChangeCost_def split: if_splits)

end
