(* ===== verification/Login.thy ===== *)
theory Login
  imports SerialProfile
begin

text \<open>
  \<open>src/core/SerialLoginMachine\<close>: signing in on a serial console, as a state machine over the bytes a
  device prints and the ticks of a clock. Bytes are characters here (the code matches the window as
  Latin-1). The regular expressions, the conversion to UTF-8 and the random number of the marker are
  parameters; a user-facing sentence is the constructor that names it with its arguments, left
  untranslated.
\<close>

section \<open>The machine\<close>

datatype login_step = Idle | Probing | ConfirmShell | SentUser | SentPassword | RunStartup | Ready | Failed

fun loginStepName :: "login_step \<Rightarrow> string" where
  "loginStepName Idle = ''idle''"
| "loginStepName Probing = ''probing''"
| "loginStepName ConfirmShell = ''confirm-shell''"
| "loginStepName SentUser = ''sent-user''"
| "loginStepName SentPassword = ''sent-password''"
| "loginStepName RunStartup = ''run-startup''"
| "loginStepName Ready = ''ready''"
| "loginStepName Failed = ''failed''"

datatype fail_reason =
    UserNotAccepted string string
  | Refused string
  | DidNotAnswer string waiting_text
and waiting_text =
    OpeningConsole string
  | WaitingToSpeak string
  | CheckingForShell string
  | WaitingForPasswordPrompt string
  | WaitingForShell string
  | RunningCommand string string
  | SettingUp string
  | NoText
  | Because "fail_reason option"

datatype action_kind = Wait | Write | Done | Fail | Reboot

record login_action =
  kind :: action_kind
  a_bytes :: string
  sensitive :: bool
  a_reason :: "fail_reason option"

definition no_action :: login_action where
  "no_action = \<lparr>kind = Wait, a_bytes = [], sensitive = False, a_reason = None\<rparr>"

type_synonym regex = "string \<Rightarrow> bool"

record login_machine =
  m_profile :: serial_profile
  m_deviceName :: string
  m_loginUser :: string
  m_password :: string
  m_marker :: string
  m_loginRe :: "regex option"
  m_passwordRe :: "regex option"
  m_rebootRe :: "regex option"
  m_step :: login_step
  m_window :: string
  m_stepSinceMs :: int
  m_attemptsSpent :: int
  m_startupIndex :: nat
  m_sawReboot :: bool
  m_failReason :: "fail_reason option"

definition kWindowBytes :: nat where
  "kWindowBytes = 4096"

text \<open>\<open>compile\<close> answers \<open>None\<close> for a pattern that does not compile. A pattern that is empty or invalid
  matches nothing.\<close>

definition compileOrNothing :: "(string \<Rightarrow> regex option) \<Rightarrow> string \<Rightarrow> regex option" where
  "compileOrNothing compile pattern = (if pattern = [] then None else compile pattern)"

definition hex_alphabet :: string where
  "hex_alphabet = ''0123456789abcdef''"

fun hex_digits :: "nat \<Rightarrow> string" where
  "hex_digits n = (if n < 16 then [hex_alphabet ! n]
                   else hex_digits (n div 16) @ [hex_alphabet ! (n mod 16)])"

declare hex_digits.simps [simp del]

definition login_marker :: "64 word \<Rightarrow> string" where
  "login_marker r = ''LFTL-'' @ hex_digits (unat r)"

definition login_init ::
  "(string \<Rightarrow> regex option) \<Rightarrow> 64 word \<Rightarrow> serial_profile \<Rightarrow> string \<Rightarrow> string \<Rightarrow> string \<Rightarrow> int \<Rightarrow> login_machine" where
  "login_init compile generate64 profile deviceName loginUser password nowMs =
     \<lparr>m_profile = profile, m_deviceName = deviceName, m_loginUser = loginUser, m_password = password,
      m_marker = login_marker generate64,
      m_loginRe = compileOrNothing compile (loginPromptRe profile),
      m_passwordRe = compileOrNothing compile (passwordPromptRe profile),
      m_rebootRe = compileOrNothing compile (rebootRe profile),
      m_step = Idle, m_window = [], m_stepSinceMs = nowMs, m_attemptsSpent = 0, m_startupIndex = 0,
      m_sawReboot = False, m_failReason = None\<rparr>"

definition login_reset :: "login_machine \<Rightarrow> int \<Rightarrow> login_machine" where
  "login_reset m nowMs =
     m\<lparr>m_step := Idle, m_window := [], m_stepSinceMs := nowMs, m_attemptsSpent := 0, m_startupIndex := 0,
       m_sawReboot := False, m_failReason := None\<rparr>"

definition enter :: "login_machine \<Rightarrow> login_step \<Rightarrow> int \<Rightarrow> login_machine" where
  "enter m step nowMs = m\<lparr>m_step := step, m_window := [], m_stepSinceMs := nowMs\<rparr>"

definition write_line ::
  "login_machine \<Rightarrow> string \<Rightarrow> login_step \<Rightarrow> int \<Rightarrow> bool \<Rightarrow> login_machine \<times> login_action" where
  "write_line m data step nowMs sens =
     (enter m step nowMs, no_action\<lparr>kind := Write, a_bytes := data, sensitive := sens\<rparr>)"

definition noteProgress :: "login_machine \<Rightarrow> login_machine" where
  "noteProgress m = m\<lparr>m_attemptsSpent := 0\<rparr>"

definition fail :: "login_machine \<Rightarrow> fail_reason \<Rightarrow> login_machine \<times> login_action" where
  "fail m reason =
     (m\<lparr>m_step := Failed, m_failReason := Some reason\<rparr>, no_action\<lparr>kind := Fail, a_reason := Some reason\<rparr>)"

definition windowMatches :: "login_machine \<Rightarrow> regex option \<Rightarrow> bool" where
  "windowMatches m re = (case re of None \<Rightarrow> False | Some r \<Rightarrow> r (m_window m))"

text \<open>\<open>QByteArray::split\<close> at newlines.\<close>

fun split_lines :: "string \<Rightarrow> string list" where
  "split_lines [] = [[]]"
| "split_lines (c # cs) =
     (if c = CHR 0x0A then [] # split_lines cs
      else (c # hd (split_lines cs)) # tl (split_lines cs))"

definition windowHasMarker :: "login_machine \<Rightarrow> bool" where
  "windowHasMarker m = (\<exists>line \<in> set (split_lines (m_window m)). trimmed_bytes line = m_marker m)"

fun waitingText :: "login_machine \<Rightarrow> waiting_text" where
  "waitingText m =
     (case m_step m of
        Idle \<Rightarrow> OpeningConsole (m_deviceName m)
      | Probing \<Rightarrow> WaitingToSpeak (m_deviceName m)
      | ConfirmShell \<Rightarrow> CheckingForShell (m_deviceName m)
      | SentUser \<Rightarrow> WaitingForPasswordPrompt (m_deviceName m)
      | SentPassword \<Rightarrow> WaitingForShell (m_deviceName m)
      | RunStartup \<Rightarrow>
          (let at = int (m_startupIndex m) - 1
           in if 0 \<le> at \<and> at < int (length (startupCommands (m_profile m)))
              then RunningCommand (startupCommands (m_profile m) ! nat at) (m_deviceName m)
              else SettingUp (m_deviceName m))
      | Ready \<Rightarrow> NoText
      | Failed \<Rightarrow> Because (m_failReason m))"

section \<open>Feeding and ticking\<close>

definition send_user :: "(string \<Rightarrow> string) \<Rightarrow> login_machine \<Rightarrow> int \<Rightarrow> login_machine \<times> login_action" where
  "send_user toUtf8 m nowMs = write_line m (toUtf8 (m_loginUser m) @ [CHR 0x0A]) SentUser nowMs False"

definition send_password :: "login_machine \<Rightarrow> int \<Rightarrow> login_machine \<times> login_action" where
  "send_password m nowMs = write_line m (m_password m @ [CHR 0x0A]) SentPassword nowMs True"

definition send_marker :: "login_machine \<Rightarrow> int \<Rightarrow> login_machine \<times> login_action" where
  "send_marker m nowMs = write_line m (''echo '' @ m_marker m @ [CHR 0x0A]) ConfirmShell nowMs False"

definition classify :: "(string \<Rightarrow> string) \<Rightarrow> login_machine \<Rightarrow> int \<Rightarrow> login_machine \<times> login_action" where
  "classify toUtf8 m nowMs =
     (if windowMatches m (m_loginRe m) then send_user toUtf8 (noteProgress m) nowMs
      else if windowMatches m (m_passwordRe m) then send_password (noteProgress m) nowMs
      else (m, no_action))"

definition command_line :: "(string \<Rightarrow> string) \<Rightarrow> string \<Rightarrow> string \<Rightarrow> string" where
  "command_line toUtf8 marker command = toUtf8 command @ ''; echo '' @ marker @ [CHR 0x0A]"

definition runNextStartupCommand ::
  "(string \<Rightarrow> string) \<Rightarrow> login_machine \<Rightarrow> int \<Rightarrow> login_machine \<times> login_action" where
  "runNextStartupCommand toUtf8 m nowMs =
     (if length (startupCommands (m_profile m)) \<le> m_startupIndex m
      then (enter m Ready nowMs, no_action\<lparr>kind := Done\<rparr>)
      else (let command = startupCommands (m_profile m) ! m_startupIndex m;
                m' = m\<lparr>m_startupIndex := m_startupIndex m + 1\<rparr>
            in write_line m' (command_line toUtf8 (m_marker m') command) RunStartup nowMs False))"

definition arrive :: "login_machine \<Rightarrow> string \<Rightarrow> login_machine" where
  "arrive m arrived =
     (let w = m_window m @ arrived
      in m\<lparr>m_window := (if kWindowBytes < length w then drop (length w - kWindowBytes) w else w)\<rparr>)"

definition feed ::
  "(string \<Rightarrow> string) \<Rightarrow> login_machine \<Rightarrow> string \<Rightarrow> int \<Rightarrow> login_machine \<times> login_action" where
  "feed toUtf8 m0 arrived nowMs =
     (let m = arrive m0 arrived in
      if m_step m \<noteq> Failed \<and> windowMatches m (m_rebootRe m) then
        (m\<lparr>m_sawReboot := True, m_window := []\<rparr>, no_action\<lparr>kind := Reboot\<rparr>)
      else
        (case m_step m of
           Idle \<Rightarrow> classify toUtf8 m nowMs
         | Probing \<Rightarrow> classify toUtf8 m nowMs
         | ConfirmShell \<Rightarrow>
             if windowHasMarker m then runNextStartupCommand toUtf8 (noteProgress m) nowMs
             else if windowMatches m (m_loginRe m) then send_user toUtf8 (noteProgress m) nowMs
             else if windowMatches m (m_passwordRe m) then send_password (noteProgress m) nowMs
             else (m, no_action)
         | SentUser \<Rightarrow>
             if windowMatches m (m_passwordRe m) then send_password (noteProgress m) nowMs
             else if windowMatches m (m_loginRe m) then
               (let m' = m\<lparr>m_attemptsSpent := m_attemptsSpent m + 1\<rparr>
                in if attempts (m_profile m') \<le> m_attemptsSpent m'
                   then fail m' (UserNotAccepted (m_deviceName m') (m_loginUser m'))
                   else send_user toUtf8 m' nowMs)
             else (m, no_action)
         | SentPassword \<Rightarrow>
             if windowMatches m (m_loginRe m) then fail m (Refused (m_deviceName m)) else (m, no_action)
         | RunStartup \<Rightarrow>
             if windowHasMarker m then runNextStartupCommand toUtf8 (noteProgress m) nowMs
             else (m, no_action)
         | Ready \<Rightarrow> (m, no_action)
         | Failed \<Rightarrow> (m, no_action)))"

definition tick :: "login_machine \<Rightarrow> int \<Rightarrow> login_machine \<times> login_action" where
  "tick m nowMs =
     (if m_step m = Ready \<or> m_step m = Failed then (m, no_action)
      else if m_step m = Idle then write_line m [CHR 0x0A] Probing nowMs False
      else if nowMs - m_stepSinceMs m < promptTimeoutMs (m_profile m) then (m, no_action)
      else
        (let m1 = m\<lparr>m_attemptsSpent := m_attemptsSpent m + 1\<rparr> in
         if attempts (m_profile m1) \<le> m_attemptsSpent m1
         then fail m1 (DidNotAnswer (m_deviceName m1) (waitingText m1))
         else
           (let m2 = m1\<lparr>m_stepSinceMs := nowMs\<rparr> in
            case m_step m2 of
              Probing \<Rightarrow> send_marker m2 nowMs
            | ConfirmShell \<Rightarrow> write_line m2 [CHR 0x0A] Probing nowMs False
            | SentUser \<Rightarrow> send_marker m2 nowMs
            | SentPassword \<Rightarrow> send_marker m2 nowMs
            | RunStartup \<Rightarrow> (m2, no_action)
            | _ \<Rightarrow> (m2, no_action))))"

text \<open>A conversation: what the transport hands the machine, and what came back, each action with the
  step it left the machine in.\<close>

datatype login_event = Arrived string int | Ticked int

fun login_event_step ::
  "(string \<Rightarrow> string) \<Rightarrow> login_machine \<Rightarrow> login_event \<Rightarrow> login_machine \<times> (login_step \<times> login_action) list" where
  "login_event_step u m (Arrived b t) = (let (m', a) = feed u m b t in (m', [(m_step m', a)]))"
| "login_event_step u m (Ticked t) = (let (m', a) = tick m t in (m', [(m_step m', a)]))"

abbreviation talk where
  "talk u \<equiv> run_out (login_event_step u)"

lemmas login_defs = feed_def tick_def classify_def send_user_def send_password_def send_marker_def
  write_line_def enter_def fail_def noteProgress_def runNextStartupCommand_def no_action_def

lemma talk_Cons:
  "talk u m (e # es) =
     (fst (talk u (fst (login_event_step u m e)) es),
      snd (login_event_step u m e) @ snd (talk u (fst (login_event_step u m e)) es))"
  by (rule run_out_Cons)

lemma event_step_fst [simp]:
  "fst (login_event_step u m (Arrived b t)) = fst (feed u m b t)"
  "fst (login_event_step u m (Ticked t)) = fst (tick m t)"
  by (simp_all add: split_def Let_def)

lemma event_step_snd [simp]:
  "snd (login_event_step u m (Arrived b t)) = [(m_step (fst (feed u m b t)), snd (feed u m b t))]"
  "snd (login_event_step u m (Ticked t)) = [(m_step (fst (tick m t)), snd (tick m t))]"
  by (simp_all add: split_def Let_def)

declare login_event_step.simps [simp del]

section \<open>The invariant of the machine\<close>

definition login_inv :: "login_machine \<Rightarrow> bool" where
  "login_inv m \<longleftrightarrow>
     length (m_window m) \<le> kWindowBytes \<and>
     m_startupIndex m \<le> length (startupCommands (m_profile m)) \<and>
     (m_step m = Ready \<longrightarrow> m_startupIndex m = length (startupCommands (m_profile m))) \<and>
     (m_step m = RunStartup \<longrightarrow> 0 < m_startupIndex m) \<and>
     (m_step m = Failed \<longleftrightarrow> m_failReason m \<noteq> None) \<and>
     0 \<le> m_attemptsSpent m \<and>
     (m_step m \<noteq> Failed \<longrightarrow> m_attemptsSpent m < max 1 (attempts (m_profile m)))"

lemma arrive_frame [simp]:
  "m_step (arrive m b) = m_step m" "m_profile (arrive m b) = m_profile m" "m_password (arrive m b) = m_password m"
  "m_marker (arrive m b) = m_marker m" "m_startupIndex (arrive m b) = m_startupIndex m"
  "m_attemptsSpent (arrive m b) = m_attemptsSpent m" "m_stepSinceMs (arrive m b) = m_stepSinceMs m"
  "m_failReason (arrive m b) = m_failReason m" "m_loginRe (arrive m b) = m_loginRe m"
  "m_passwordRe (arrive m b) = m_passwordRe m" "m_rebootRe (arrive m b) = m_rebootRe m"
  "m_loginUser (arrive m b) = m_loginUser m" "m_deviceName (arrive m b) = m_deviceName m"
  "m_sawReboot (arrive m b) = m_sawReboot m"
  by (simp_all add: arrive_def Let_def)

lemma arrive_window: "length (m_window (arrive m b)) \<le> kWindowBytes"
  by (simp add: arrive_def Let_def kWindowBytes_def) arith

lemma feed_inv: "login_inv m \<Longrightarrow> login_inv (fst (feed u m b t))"
  using arrive_window [of m b]
  by (cases "m_step m") (auto simp: login_inv_def login_defs Let_def kWindowBytes_def)

lemma tick_inv: "login_inv m \<Longrightarrow> login_inv (fst (tick m t))"
  by (cases "m_step m") (auto simp: login_inv_def login_defs Let_def kWindowBytes_def)

lemma event_inv: "login_inv m \<Longrightarrow> login_inv (fst (login_event_step u m e))"
  by (cases e) (simp_all add: feed_inv tick_inv)

lemma login_init_inv: "login_inv (login_init compile r p dev user pw t)"
  by (simp add: login_inv_def login_init_def)

lemma login_reset_inv: "login_inv m \<Longrightarrow> login_inv (login_reset m t)"
  by (simp add: login_inv_def login_reset_def)

text \<open>The preset, the credentials, the marker and the patterns never change.\<close>

lemma event_frame [simp]:
  "m_profile (fst (login_event_step u m e)) = m_profile m"
  "m_marker (fst (login_event_step u m e)) = m_marker m"
  "m_password (fst (login_event_step u m e)) = m_password m"
  by (cases e; cases "m_step m"; simp add: login_defs Let_def)+

lemma talk_frame:
  "m_profile (fst (talk u m es)) = m_profile m \<and> m_marker (fst (talk u m es)) = m_marker m"
  by (induction es arbitrary: m) (simp_all add: talk_Cons del: run_out.simps(2))

section \<open>The transcript does not depend on the password\<close>

definition censor :: "login_step \<times> login_action \<Rightarrow> login_step \<times> login_action" where
  "censor = (\<lambda>(s, a). (s, if sensitive a then a\<lparr>a_bytes := []\<rparr> else a))"

lemma arrive_password: "arrive (m\<lparr>m_password := pw\<rparr>) b = (arrive m b)\<lparr>m_password := pw\<rparr>"
  by (simp add: arrive_def Let_def)

lemma password_matches [simp]:
  "windowMatches (m\<lparr>m_password := pw\<rparr>) re = windowMatches m re"
  "windowHasMarker (m\<lparr>m_password := pw\<rparr>) = windowHasMarker m"
  by (simp_all add: windowMatches_def windowHasMarker_def split: option.split)

lemma feed_password:
  "fst (feed u (m\<lparr>m_password := pw\<rparr>) b t) = (fst (feed u m b t))\<lparr>m_password := pw\<rparr> \<and>
   censor (s, snd (feed u (m\<lparr>m_password := pw\<rparr>) b t)) = censor (s, snd (feed u m b t))"
  by (cases "m_step m") (simp_all add: login_defs Let_def arrive_password censor_def)

lemma tick_password:
  "fst (tick (m\<lparr>m_password := pw\<rparr>) t) = (fst (tick m t))\<lparr>m_password := pw\<rparr> \<and>
   snd (tick (m\<lparr>m_password := pw\<rparr>) t) = snd (tick m t)"
  by (cases "m_step m") (simp_all add: login_defs Let_def)

lemma event_password:
  "fst (login_event_step u (m\<lparr>m_password := pw\<rparr>) e) = (fst (login_event_step u m e))\<lparr>m_password := pw\<rparr> \<and>
   map censor (snd (login_event_step u (m\<lparr>m_password := pw\<rparr>) e)) = map censor (snd (login_event_step u m e))"
  by (cases e) (simp_all add: feed_password tick_password)

lemma talk_password:
  "fst (talk u (m\<lparr>m_password := pw\<rparr>) es) = (fst (talk u m es))\<lparr>m_password := pw\<rparr> \<and>
   map censor (snd (talk u (m\<lparr>m_password := pw\<rparr>) es)) = map censor (snd (talk u m es))"
proof (induction es arbitrary: m)
  case (Cons e es)
  then show ?case by (simp add: talk_Cons event_password del: run_out.simps)
qed simp

lemma event_sensitive:
  "\<forall>x \<in> set (snd (login_event_step u m e)). sensitive (snd x) \<longrightarrow> x =
     (SentPassword, \<lparr>kind = Write, a_bytes = m_password m @ [CHR 0x0A], sensitive = True, a_reason = None\<rparr>)"
  by (cases e; cases "m_step m") (auto simp: login_defs Let_def)

lemma talk_sensitive:
  "\<forall>x \<in> set (snd (talk u m es)). sensitive (snd x) \<longrightarrow> x =
     (SentPassword, \<lparr>kind = Write, a_bytes = m_password m @ [CHR 0x0A], sensitive = True, a_reason = None\<rparr>)"
proof (rule run_out_all [where P = "\<lambda>s. m_password s = m_password m"])
  fix s :: login_machine and e
  assume "m_password s = m_password m"
  then show "\<forall>x \<in> set (snd (login_event_step u s e)). sensitive (snd x) \<longrightarrow> x =
     (SentPassword, \<lparr>kind = Write, a_bytes = m_password m @ [CHR 0x0A], sensitive = True, a_reason = None\<rparr>)"
    using event_sensitive [of u s e] by simp
qed simp_all

section \<open>Startup commands\<close>

definition commands_written :: "(login_step \<times> login_action) list \<Rightarrow> string list" where
  "commands_written log = map (\<lambda>(s, a). a_bytes a) (filter (\<lambda>(s, a). s = RunStartup \<and> kind a = Write) log)"

lemma commands_written_append: "commands_written (xs @ ys) = commands_written xs @ commands_written ys"
  by (simp add: commands_written_def)

lemma event_commands:
  assumes "m_startupIndex m \<le> length (startupCommands (m_profile m))"
  shows "map (command_line u (m_marker m)) (take (m_startupIndex m) (startupCommands (m_profile m))) @
      commands_written (snd (login_event_step u m e)) =
    map (command_line u (m_marker m))
      (take (m_startupIndex (fst (login_event_step u m e))) (startupCommands (m_profile m)))"
  using assms
  by (cases e; cases "m_step m") (auto simp: login_defs Let_def commands_written_def take_Suc_conv_app_nth)

lemma talk_commands:
  assumes "login_inv m"
  shows "map (command_line u (m_marker m)) (take (m_startupIndex m) (startupCommands (m_profile m))) @
      commands_written (snd (talk u m es)) =
    map (command_line u (m_marker m))
      (take (m_startupIndex (fst (talk u m es))) (startupCommands (m_profile m)))"
  using assms
proof (induction es arbitrary: m)
  case Nil
  then show ?case by (simp add: commands_written_def)
next
  case (Cons e es)
  have ix: "m_startupIndex m \<le> length (startupCommands (m_profile m))"
    using Cons.prems by (simp add: login_inv_def)
  from Cons.IH [OF event_inv [OF Cons.prems, of u e]] show ?case
    by (simp add: talk_Cons commands_written_append event_commands [OF ix, of u e, symmetric] del: run_out.simps)
qed

section \<open>A device that never answers\<close>

fun unrecognised :: "(string \<Rightarrow> string) \<Rightarrow> login_machine \<Rightarrow> login_event list \<Rightarrow> bool" where
  "unrecognised u m [] = True"
| "unrecognised u m (Arrived b t # es) =
     (kind (snd (feed u m b t)) = Wait \<and> unrecognised u (fst (feed u m b t)) es)"
| "unrecognised u m (Ticked t # es) = unrecognised u (fst (tick m t)) es"

fun tick_times :: "login_event list \<Rightarrow> int list" where
  "tick_times [] = []"
| "tick_times (Arrived b t # es) = tick_times es"
| "tick_times (Ticked t # es) = t # tick_times es"

lemma feed_waits_or_acts: "kind (snd (feed u m b t)) \<noteq> Wait \<or> fst (feed u m b t) = arrive m b"
  by (cases "m_step m") (simp_all add: login_defs Let_def)

lemma feed_waits: "kind (snd (feed u m b t)) = Wait \<Longrightarrow> fst (feed u m b t) = arrive m b"
  using feed_waits_or_acts by blast

lemma feed_failed: "m_step m = Failed \<Longrightarrow> m_step (fst (feed u m b t)) = Failed"
  by (simp add: feed_def Let_def)

lemma talk_failed: "m_step m = Failed \<Longrightarrow> m_step (fst (talk u m es)) = Failed"
proof (induction es arbitrary: m)
  case (Cons e es)
  have "m_step (fst (login_event_step u m e)) = Failed"
    using Cons.prems by (cases e) (simp_all add: feed_failed tick_def)
  from Cons.IH [OF this] show ?case by (simp add: talk_Cons del: run_out.simps)
qed simp

lemma overdue_tick:
  assumes "m_step m \<notin> {Idle, Ready, Failed}" and "promptTimeoutMs (m_profile m) \<le> t - m_stepSinceMs m"
  shows "m_step (fst (tick m t)) = Failed \<or>
    (m_step (fst (tick m t)) \<notin> {Idle, Ready, Failed} \<and> m_stepSinceMs (fst (tick m t)) = t \<and>
     m_attemptsSpent (fst (tick m t)) = m_attemptsSpent m + 1 \<and>
     m_attemptsSpent m + 1 < attempts (m_profile m))"
  using assms by (cases "m_step m") (auto simp: login_defs Let_def)

lemma silent_fails:
  assumes "m_step m \<notin> {Idle, Ready, Failed}" and "unrecognised u m es"
    and "successively (\<lambda>a b. promptTimeoutMs (m_profile m) \<le> b - a) (m_stepSinceMs m # tick_times es)"
    and "max 1 (attempts (m_profile m)) - m_attemptsSpent m \<le> int (length (tick_times es))"
    and "m_attemptsSpent m < max 1 (attempts (m_profile m))"
  shows "m_step (fst (talk u m es)) = Failed"
  using assms
proof (induction es arbitrary: m)
  case Nil
  then show ?case by (auto simp: max_def split: if_splits)
next
  case (Cons e es)
  show ?case
  proof (cases e)
    case (Arrived b t)
    have "fst (feed u m b t) = arrive m b" using Cons.prems(2) Arrived by (simp add: feed_waits)
    with Cons.IH [of "arrive m b"] Cons.prems Arrived show ?thesis
      by (simp add: talk_Cons del: run_out.simps)
  next
    case (Ticked t)
    have due: "promptTimeoutMs (m_profile m) \<le> t - m_stepSinceMs m"
      using Cons.prems(3) Ticked by simp
    have prof: "m_profile (fst (tick m t)) = m_profile m"
      using event_frame(1) [of u m "Ticked t"] by simp
    from overdue_tick [OF Cons.prems(1) due] show ?thesis
    proof
      assume "m_step (fst (tick m t)) = Failed"
      from talk_failed [OF this] Ticked show ?thesis by (simp add: talk_Cons del: run_out.simps)
    next
      assume next_step: "m_step (fst (tick m t)) \<notin> {Idle, Ready, Failed} \<and> m_stepSinceMs (fst (tick m t)) = t \<and>
        m_attemptsSpent (fst (tick m t)) = m_attemptsSpent m + 1 \<and>
        m_attemptsSpent m + 1 < attempts (m_profile m)"
      have "m_step (fst (talk u (fst (tick m t)) es)) = Failed"
        by (rule Cons.IH) (use Cons.prems next_step Ticked prof in auto)
      with Ticked show ?thesis by (simp add: talk_Cons del: run_out.simps)
    qed
  qed
qed

lemma idle_silent_fails:
  assumes "m_step m = Idle" and "m_attemptsSpent m = 0" and "unrecognised u m es"
    and "successively (\<lambda>a b. promptTimeoutMs (m_profile m) \<le> b - a) (tick_times es)"
    and "max 1 (attempts (m_profile m)) + 1 \<le> int (length (tick_times es))"
  shows "m_step (fst (talk u m es)) = Failed"
  using assms
proof (induction es arbitrary: m)
  case Nil
  then show ?case by simp
next
  case (Cons e es)
  show ?case
  proof (cases e)
    case (Arrived b t)
    have "fst (feed u m b t) = arrive m b" using Cons.prems(3) Arrived by (simp add: feed_waits)
    with Cons.IH [of "arrive m b"] Cons.prems Arrived show ?thesis
      by (simp add: talk_Cons del: run_out.simps)
  next
    case (Ticked t)
    have first: "m_step (fst (tick m t)) = Probing \<and> m_stepSinceMs (fst (tick m t)) = t \<and>
        m_attemptsSpent (fst (tick m t)) = 0 \<and> m_profile (fst (tick m t)) = m_profile m"
      using Cons.prems(1,2) by (simp add: tick_def write_line_def enter_def)
    have "m_step (fst (talk u (fst (tick m t)) es)) = Failed"
      by (rule silent_fails) (use Cons.prems first Ticked in auto)
    with Ticked show ?thesis by (simp add: talk_Cons del: run_out.simps)
  qed
qed

section \<open>The echo of the marker command\<close>

lemma split_lines_nonempty [simp]: "split_lines s \<noteq> []"
  by (cases s) auto

lemma split_lines_no_newline: "CHR 0x0A \<notin> set s \<Longrightarrow> split_lines s = [s]"
  by (induction s) auto

lemma split_lines_append_newline:
  "split_lines (xs @ CHR 0x0A # ys) = split_lines xs @ split_lines ys"
  by (induction xs) (auto simp: hd_append tl_append split: list.splits)

lemma split_lines_append_plain:
  "CHR 0x0A \<notin> set ys \<Longrightarrow> split_lines (xs @ ys) = butlast (split_lines xs) @ [List.last (split_lines xs) @ ys]"
proof (induction xs)
  case Nil
  then show ?case by (simp add: split_lines_no_newline)
next
  case (Cons c xs)
  then show ?case
    by (cases "split_lines xs") (auto simp: split_lines_nonempty)
qed

lemma hex_digit: "n < 16 \<Longrightarrow> hex_alphabet ! n \<in> set hex_alphabet"
  by (rule nth_mem) (simp add: hex_alphabet_def)

lemma hex_digits_chars: "set (hex_digits n) \<subseteq> set hex_alphabet"
proof (induction n rule: hex_digits.induct)
  case (1 n)
  then show ?case by (subst hex_digits.simps) (auto intro: hex_digit)
qed

lemma login_marker_plain: "CHR '' '' \<notin> set (login_marker r) \<and> CHR 0x0A \<notin> set (login_marker r)"
  using hex_digits_chars [of "unat r"] by (auto simp: login_marker_def hex_alphabet_def)

lemma echo_line_differs:
  "trimmed_bytes (p @ ''echo '' @ login_marker r @ q) \<noteq> login_marker r"
proof
  assume eq: "trimmed_bytes (p @ ''echo '' @ login_marker r @ q) = login_marker r"
  have "\<not> ascii_space (CHR ''o'')" "\<not> ascii_space (CHR ''L'')"
    by (simp_all add: ascii_space_def code_def)
  then obtain x y where "trimmed_bytes ((p @ ''ech'') @ CHR ''o'' # '' '' @ CHR ''L'' #
      (''FTL-'' @ hex_digits (unat r) @ q)) = x @ CHR ''o'' # '' '' @ CHR ''L'' # y"
    using trimmed_inner by blast
  then have "CHR '' '' \<in> set (trimmed_bytes (p @ ''echo '' @ login_marker r @ q))"
    by (simp add: login_marker_def)
  with eq login_marker_plain show False by simp
qed

lemma echo_not_marker:
  assumes "\<not> windowHasMarker (m\<lparr>m_window := w\<rparr>)" and "m_marker m = login_marker r"
  shows "\<not> windowHasMarker (m\<lparr>m_window := w @ ''echo '' @ m_marker m @ [CHR 0x0D, CHR 0x0A]\<rparr>)"
proof -
  let ?e = "''echo '' @ login_marker r @ [CHR 0x0D]"
  have plain: "CHR 0x0A \<notin> set ?e" using login_marker_plain by simp
  have "split_lines (w @ ?e @ [CHR 0x0A]) = butlast (split_lines w) @ [List.last (split_lines w) @ ?e] @ [[]]"
    using split_lines_append_newline [of "w @ ?e" "[]"] split_lines_append_plain [OF plain, of w] by simp
  moreover have "trimmed_bytes l \<noteq> login_marker r" if "l \<in> set (butlast (split_lines w))" for l
    using that assms by (auto simp: windowHasMarker_def dest: in_set_butlastD)
  moreover have "trimmed_bytes [] \<noteq> login_marker r" by (simp add: trimmed_bytes_def login_marker_def)
  ultimately show ?thesis
    using echo_line_differs [of "List.last (split_lines w)" r "[CHR 0x0D]"] assms(2)
    by (auto simp: windowHasMarker_def)
qed

section \<open>Properties\<close>

text \<open>Whatever a device prints and whenever the clock ticks, the window never
  exceeds its 4096 bytes, the attempts spent stay below the bound until the machine gives up, it has
  a reason exactly when it gave up, and it is ready only once every startup command has gone.\<close>

theorem login_machine_invariant:
  "login_inv (fst (talk u (login_init compile r p dev user pw t) es))"
  by (rule run_out_invariant) (simp_all add: login_init_inv event_inv)

text \<open>C35: login_transcript_keeps_password. With the bytes of the actions flagged sensitive left out, the
  whole conversation, every action with the step it leads to, is the same for any two
  passwords; and the only actions flagged are writes of the password with a newline.\<close>

theorem login_transcript_keeps_password:
  "map censor (snd (talk u (login_init compile r p dev user pw t) es)) =
     map censor (snd (talk u (login_init compile r p dev user pw' t) es)) \<and>
   set (filter (\<lambda>(s, a). sensitive a) (snd (talk u (login_init compile r p dev user pw t) es))) \<subseteq>
     {(SentPassword, \<lparr>kind = Write, a_bytes = pw @ [CHR 0x0A], sensitive = True, a_reason = None\<rparr>)}"
proof (intro conjI)
  have "login_init compile r p dev user pw' t = (login_init compile r p dev user pw t)\<lparr>m_password := pw'\<rparr>"
    by (simp add: login_init_def)
  then show "map censor (snd (talk u (login_init compile r p dev user pw t) es)) =
      map censor (snd (talk u (login_init compile r p dev user pw' t) es))"
    by (simp add: talk_password)
  show "set (filter (\<lambda>(s, a). sensitive a) (snd (talk u (login_init compile r p dev user pw t) es))) \<subseteq>
     {(SentPassword, \<lparr>kind = Write, a_bytes = pw @ [CHR 0x0A], sensitive = True, a_reason = None\<rparr>)}"
    using talk_sensitive [of u "login_init compile r p dev user pw t" es] by (auto simp: login_init_def)
qed

text \<open>The startup commands written in a conversation are the first ones of the
  preset, in order, each once and with its completion marker; a conversation that ends ready has
  written all of them.\<close>

theorem login_startup_in_order:
  "commands_written (snd (talk u (login_init compile r p dev user pw t) es)) =
     map (command_line u (login_marker r))
       (take (m_startupIndex (fst (talk u (login_init compile r p dev user pw t) es))) (startupCommands p)) \<and>
   (m_step (fst (talk u (login_init compile r p dev user pw t) es)) = Ready \<longrightarrow>
      commands_written (snd (talk u (login_init compile r p dev user pw t) es)) =
        map (command_line u (login_marker r)) (startupCommands p))"
proof -
  let ?m = "login_init compile r p dev user pw t"
  have inv: "login_inv (fst (talk u ?m es))"
    by (rule run_out_invariant) (simp_all add: login_init_inv event_inv)
  have "m_profile (fst (talk u ?m es)) = p" by (simp add: talk_frame, simp add: login_init_def)
  with inv have "m_step (fst (talk u ?m es)) = Ready \<longrightarrow> m_startupIndex (fst (talk u ?m es)) = length (startupCommands p)"
    by (simp add: login_inv_def)
  with talk_commands [OF login_init_inv, of u compile r p dev user pw t es] show ?thesis
    by (simp add: login_init_def)
qed

definition sample_profile :: serial_profile where
  "sample_profile = \<lparr>sp_name = [], baud = 115200, dataBits = 8, sp_parity = ParityNone, stopBits = StopOne,
     sp_flow = FlowNone, loginPromptRe = ''login:'', passwordPromptRe = ''Password:'',
     promptTimeoutMs = 5000, attempts = 3, startupCommands = [''dmesg -n 1''], rebootRe = [], pollMs = 2000\<rparr>"

definition sample_login :: login_machine where
  "sample_login = login_init (\<lambda>p. Some (\<lambda>w. w = p)) 7 sample_profile ''board'' ''root'' ''pw'' 0"

definition sample_talk :: "login_event list" where
  "sample_talk = [Ticked 0, Arrived ''log'' 1, Arrived ''in:'' 2, Arrived ''Password:'' 3, Ticked 5003,
     Arrived ''LFTL-7'' 5004, Arrived ''LFTL-7'' 5005]"

theorem login_startup_in_order_witness:
  "m_step (fst (talk (\<lambda>s. s) sample_login sample_talk)) = Ready \<and>
   commands_written (snd (talk (\<lambda>s. s) sample_login sample_talk)) = [''dmesg -n 1; echo LFTL-7'' @ [CHR 0x0A]]"
proof -
  have ready: "m_step (fst (talk (\<lambda>s. s) sample_login sample_talk)) = Ready" by code_simp
  have cmd: "map (command_line (\<lambda>s. s) (login_marker 7)) (startupCommands sample_profile) =
      [''dmesg -n 1; echo LFTL-7'' @ [CHR 0x0A]]" by code_simp
  show ?thesis
    using login_startup_in_order [THEN conjunct2, THEN mp, OF ready [unfolded sample_login_def]] ready
    unfolding cmd sample_login_def by (rule conjI [rotated])
qed

text \<open>If nothing a device prints is recognised, a login gives up: once the
  machine has been ticked one time more than the attempts allow, each tick a prompt timeout after
  the one before, it has failed, whatever noise arrived in between.\<close>

theorem login_silent_device_fails:
  assumes "unrecognised u (login_init compile r p dev user pw t) es"
    and "successively (\<lambda>a b. promptTimeoutMs p \<le> b - a) (tick_times es)"
    and "max 1 (attempts p) + 1 \<le> int (length (tick_times es))"
  shows "m_step (fst (talk u (login_init compile r p dev user pw t) es)) = Failed"
  by (rule idle_silent_fails) (use assms in \<open>simp_all add: login_init_def\<close>)

theorem login_silent_device_fails_witness:
  "m_step (fst (talk (\<lambda>s. s) sample_login [Arrived ''noise'' 0, Ticked 0, Arrived ''log'' 1, Ticked 5000, Ticked 10000, Ticked 15000])) = Failed"
  unfolding sample_login_def
  by (rule login_silent_device_fails) code_simp+

text \<open>The echo of the command that asks for the marker, which contains the
  marker, never confirms a shell: a window without a marker line still has none when the echoed
  command is appended to it.\<close>

theorem login_echo_is_no_shell:
  assumes "\<not> windowHasMarker (m\<lparr>m_window := w\<rparr>)" and "m_marker m = login_marker r"
  shows "\<not> windowHasMarker (m\<lparr>m_window := w @ ''echo '' @ m_marker m @ [CHR 0x0D, CHR 0x0A]\<rparr>)"
  by (rule echo_not_marker [OF assms])

theorem login_echo_is_no_shell_witness:
  "\<not> windowHasMarker (sample_login\<lparr>m_window := ''# '' @ ''echo '' @ m_marker sample_login @ [CHR 0x0D, CHR 0x0A]\<rparr>) \<and>
   windowHasMarker (sample_login\<lparr>m_window := CHR 0x0A # ''LFTL-7''\<rparr>)"
proof
  have "\<not> windowHasMarker (sample_login\<lparr>m_window := ''# ''\<rparr>)" by code_simp
  moreover have "m_marker sample_login = login_marker 7" by code_simp
  ultimately show "\<not> windowHasMarker (sample_login\<lparr>m_window := ''# '' @ ''echo '' @ m_marker sample_login @ [CHR 0x0D, CHR 0x0A]\<rparr>)"
    by (rule login_echo_is_no_shell)
  show "windowHasMarker (sample_login\<lparr>m_window := CHR 0x0A # ''LFTL-7''\<rparr>)"
    by code_simp
qed

text \<open>A device that takes longer than the prompt timeout to refuse a password: prompt, prompt, silence past
  the timeout, and then the login prompt again, which is the next round's first line.\<close>

definition slow_round :: "int \<Rightarrow> login_event list" where
  "slow_round t = [Arrived ''login:'' t, Arrived ''Password:'' t, Ticked (t + 5000)]"

fun slow_rounds :: "nat \<Rightarrow> int \<Rightarrow> login_event list" where
  "slow_rounds 0 t = []"
| "slow_rounds (Suc n) t = slow_round t @ slow_rounds n (t + 5000)"

definition between_rounds :: "regex \<Rightarrow> regex \<Rightarrow> login_machine \<Rightarrow> bool" where
  "between_rounds l p m \<longleftrightarrow>
     m_step m \<in> {Probing, ConfirmShell} \<and> m_window m = [] \<and> m_loginRe m = Some l \<and>
     m_passwordRe m = Some p \<and> m_rebootRe m = None \<and> m_profile m = builtIn \<and>
     (\<exists>r. m_marker m = login_marker r)"

lemma login_line_is_no_marker: "trimmed_bytes ''login:'' \<noteq> login_marker r"
proof -
  have "trimmed_bytes ''login:'' = ''login:''" by code_simp
  then show ?thesis by (simp add: login_marker_def)
qed

lemma slow_round_step:
  assumes m: "between_rounds l p m" and l: "l ''login:''" and p: "p ''Password:''"
  shows "between_rounds l p (fst (talk u m (slow_round t))) \<and>
    length (filter (\<lambda>(s, a). sensitive a) (snd (talk u m (slow_round t)))) = 1"
proof -
  obtain r where r: "m_marker m = login_marker r" using m by (auto simp: between_rounds_def)
  have nm: "\<not> windowHasMarker (m\<lparr>m_window := ''login:''\<rparr>)"
    using login_line_is_no_marker [of r] r by (simp add: windowHasMarker_def)
  have short: "arrive x b = x\<lparr>m_window := b\<rparr>" if "m_window x = []" "length b \<le> 4096" for x :: login_machine and b
    using that by (simp add: arrive_def kWindowBytes_def)
  let ?a = "m\<lparr>m_attemptsSpent := 0, m_step := SentUser, m_window := [], m_stepSinceMs := t\<rparr>"
  have 1: "feed u m ''login:'' t =
      (?a, \<lparr>kind = Write, a_bytes = u (m_loginUser m) @ [CHR 0x0A], sensitive = False, a_reason = None\<rparr>)"
    using m l nm by (auto simp: between_rounds_def feed_def short classify_def send_user_def write_line_def
        enter_def noteProgress_def no_action_def windowMatches_def)
  let ?b = "m\<lparr>m_attemptsSpent := 0, m_step := SentPassword, m_window := [], m_stepSinceMs := t\<rparr>"
  have 2: "feed u ?a ''Password:'' t =
      (?b, \<lparr>kind = Write, a_bytes = m_password m @ [CHR 0x0A], sensitive = True, a_reason = None\<rparr>)"
    using m p by (auto simp: between_rounds_def feed_def short send_password_def write_line_def
        enter_def noteProgress_def no_action_def windowMatches_def)
  let ?c = "m\<lparr>m_attemptsSpent := 1, m_step := ConfirmShell, m_window := [], m_stepSinceMs := t + 5000\<rparr>"
  have 3: "tick ?b (t + 5000) = (?c, \<lparr>kind = Write, a_bytes = ''echo '' @ m_marker m @ [CHR 0x0A],
      sensitive = False, a_reason = None\<rparr>)"
    using m by (auto simp: between_rounds_def tick_def send_marker_def write_line_def enter_def no_action_def
        Let_def builtIn_def)
  have "talk u m (slow_round t) = (?c, [(SentUser, snd (feed u m ''login:'' t)),
      (SentPassword, snd (feed u ?a ''Password:'' t)), (ConfirmShell, snd (tick ?b (t + 5000)))])"
    unfolding slow_round_def by (simp add: talk_Cons 1 2 3 del: run_out.simps(2))
  then show ?thesis using m by (auto simp: 1 2 3 between_rounds_def)
qed

lemma slow_rounds_run:
  assumes "between_rounds l p m" and "l ''login:''" and "p ''Password:''"
  shows "between_rounds l p (fst (talk u m (slow_rounds n t))) \<and>
    length (filter (\<lambda>(s, a). sensitive a) (snd (talk u m (slow_rounds n t)))) = n"
  using assms
proof (induction n arbitrary: m t)
  case (Suc n)
  note one = slow_round_step [OF Suc.prems, of u t]
  from Suc.IH [OF conjunct1 [OF one] Suc.prems(2,3), of "t + 5000"] one show ?case
    by (auto simp: run_out_append split_def Let_def)
qed simp

text \<open>With the default preset, a device that refuses the password only after
  the prompt timeout is sent it again, and the attempts bound nothing: after any number of rounds the
  password has gone out once in each and the login has not failed.\<close>

theorem login_slow_refusal_unbounded:
  assumes "compile (loginPromptRe builtIn) = Some l" and "compile (passwordPromptRe builtIn) = Some p"
    and "l ''login:''" and "p ''Password:''"
  shows "m_step (fst (talk u (login_init compile r builtIn dev user pw 0) (Ticked 0 # slow_rounds n 0))) \<noteq> Failed \<and>
    length (filter (\<lambda>(s, a). sensitive a)
      (snd (talk u (login_init compile r builtIn dev user pw 0) (Ticked 0 # slow_rounds n 0)))) = n"
proof -
  let ?m = "fst (tick (login_init compile r builtIn dev user pw 0) 0)"
  have "between_rounds l p ?m"
    using assms(1,2) by (auto simp: between_rounds_def login_init_def tick_def write_line_def enter_def
        compileOrNothing_def builtIn_def)
  from slow_rounds_run [OF this assms(3,4), of u n 0]
  have "m_step (fst (talk u ?m (slow_rounds n 0))) \<noteq> Failed"
    and "length (filter (\<lambda>(s, a). sensitive a) (snd (talk u ?m (slow_rounds n 0)))) = n"
    by (auto simp: between_rounds_def)
  moreover have "\<not> sensitive (snd (tick (login_init compile r builtIn dev user pw 0) 0))"
    by (simp add: login_init_def tick_def write_line_def no_action_def)
  ultimately show ?thesis by (simp add: talk_Cons split_def del: run_out.simps(2))
qed

theorem login_slow_refusal_unbounded_witness:
  "length (filter (\<lambda>(s, a). sensitive a)
     (snd (talk (\<lambda>s. s) (login_init (\<lambda>p. Some (\<lambda>w. w \<in> {''login:'', ''Password:''})) 7 builtIn ''board'' ''root'' ''pw'' 0)
       (Ticked 0 # slow_rounds 1000 0)))) = 1000"
  using login_slow_refusal_unbounded [of "\<lambda>p. Some (\<lambda>w. w \<in> {''login:'', ''Password:''})"
      "\<lambda>w. w \<in> {''login:'', ''Password:''}" "\<lambda>w. w \<in> {''login:'', ''Password:''}" "\<lambda>s. s" 7 "''board''" "''root''" "''pw''" 1000]
  by simp

end
