(* ===== verification/Bytes.thy ===== *)
theory Bytes
  imports Prelude
begin

text \<open>
  The operations of \<open>QByteArray\<close> on text that the console and command code share: searching, cutting,
  trimming, decimal numbers. Positions are \<open>nat\<close> where the code's are never negative, and -1 is \<open>None\<close>.
\<close>

section \<open>Searching and cutting\<close>

definition LF :: char where "LF = CHR 0x0A"
definition CR :: char where "CR = CHR 0x0D"

text \<open>\<open>QByteArray::indexOf\<close> and \<open>QByteArray::mid\<close>.\<close>

fun find_sub :: "string \<Rightarrow> string \<Rightarrow> nat option" where
  "find_sub p [] = (if p = [] then Some 0 else None)"
| "find_sub p (c # cs) =
     (if take (length p) (c # cs) = p then Some 0 else map_option Suc (find_sub p cs))"

definition indexOf :: "string \<Rightarrow> string \<Rightarrow> nat \<Rightarrow> nat option" where
  "indexOf buffer p start = map_option (\<lambda>i. start + i) (find_sub p (drop start buffer))"

definition mid :: "string \<Rightarrow> nat \<Rightarrow> nat \<Rightarrow> string" where
  "mid buffer pos len = take len (drop pos buffer)"

definition startsWith :: "string \<Rightarrow> string \<Rightarrow> bool" where
  "startsWith s p \<longleftrightarrow> take (length p) s = p"

lemma find_sub_bound: "find_sub p s = Some i \<Longrightarrow> i \<le> length s \<and> take (length p) (drop i s) = p"
proof (induction s arbitrary: i)
  case Nil
  then show ?case by (simp split: if_splits)
next
  case (Cons c s)
  then show ?case by (cases i) (auto split: if_splits)
qed

lemma newline_found: "indexOf b [c] start = Some i \<Longrightarrow> start \<le> i \<and> i < length b"
proof -
  assume "indexOf b [c] start = Some i"
  then obtain k where k: "i = start + k" "find_sub [c] (drop start b) = Some k" by (auto simp: indexOf_def)
  have "take 1 (drop k (drop start b)) = [c]" using find_sub_bound [OF k(2)] by simp
  then have "drop (k + start) b \<noteq> []" by (intro notI) simp
  with k(1) show ?thesis by simp
qed

definition bslash :: char where "bslash = CHR 0x5C"
definition squote :: char where "squote = CHR 0x27"

text \<open>\<open>QByteArray::toInt\<close> in base 10, on trimmed text.\<close>

fun digits_value :: "string \<Rightarrow> nat \<Rightarrow> nat option" where
  "digits_value [] acc = Some acc"
| "digits_value (c # cs) acc = (if isDigit c then digits_value cs (10 * acc + (code c - 48)) else None)"

definition toInt :: "string \<Rightarrow> int option" where
  "toInt s =
     (let (neg, ds) = (case s of [] \<Rightarrow> (False, []) | c # cs \<Rightarrow>
                         if c = CHR ''-'' then (True, cs) else if c = CHR ''+'' then (False, cs) else (False, s))
      in if ds = [] then None
         else (case digits_value ds 0 of
                 None \<Rightarrow> None
               | Some n \<Rightarrow> (let v = (if neg then - int n else int n)
                           in if - 2147483648 \<le> v \<and> v \<le> 2147483647 then Some v else None)))"

section \<open>Lines\<close>

definition unlines :: "string list \<Rightarrow> string" where
  "unlines ls = concat (map (\<lambda>l. l @ [LF]) ls)"

lemma unlines_simps [simp]: "unlines [] = []" "unlines (l # ls) = l @ LF # unlines ls"
  by (simp_all add: unlines_def)

lemma find_newline_at: "LF \<notin> set l \<Longrightarrow> find_sub [LF] (l @ LF # post) = Some (length l)"
  by (induction l) auto

lemma newline_at: "LF \<notin> set l \<Longrightarrow> indexOf (pre @ l @ LF # post) [LF] (length pre) = Some (length pre + length l)"
  by (simp add: indexOf_def find_newline_at)

definition spaces :: "string \<Rightarrow> bool" where
  "spaces s \<longleftrightarrow> (\<forall>c \<in> set s. ascii_space c \<and> c \<noteq> LF)"

definition solid :: "string \<Rightarrow> bool" where
  "solid s \<longleftrightarrow> s \<noteq> [] \<and> \<not> ascii_space (hd s) \<and> \<not> ascii_space (List.last s)"

lemma dropWhile_spaces: "\<forall>c \<in> set p. ascii_space c \<Longrightarrow> dropWhile ascii_space (rev p @ x) = dropWhile ascii_space x"
  by (rule dropWhile_append2) auto

lemma trimmed_solid:
  assumes "solid s" and "\<forall>c \<in> set pad. ascii_space c"
  shows "trimmed_bytes (s @ pad) = s"
proof -
  obtain c cs where c: "s = c # cs" "\<not> ascii_space c" using assms(1) by (cases s) (auto simp: solid_def)
  obtain ds d where d: "s = ds @ [d]" "\<not> ascii_space d"
    using assms(1) by (cases s rule: rev_cases) (auto simp: solid_def)
  have "dropWhile ascii_space (s @ pad) = s @ pad" using c by simp
  moreover have "dropWhile ascii_space (rev (s @ pad)) = rev s"
    using d dropWhile_spaces [OF assms(2), of "rev s"] by simp
  ultimately show ?thesis by (simp add: trimmed_bytes_def)
qed

lemma LF_space: "ascii_space LF"
  by (simp add: ascii_space_def code_def LF_def)

lemma startsWith_append [simp]: "startsWith (p @ x) p"
  by (simp add: startsWith_def)

section \<open>Numbers\<close>

fun dec :: "nat \<Rightarrow> string" where
  "dec n = (if n < 10 then [char_of (48 + n)] else dec (n div 10) @ [char_of (48 + n mod 10)])"

declare dec.simps [simp del]

lemma code_digit: "k < 10 \<Longrightarrow> code (char_of (48 + k)) = 48 + k"
  by (simp add: code_def of_char_of)

lemma digits_value_append:
  "digits_value (xs @ ys) acc = (case digits_value xs acc of None \<Rightarrow> None | Some a \<Rightarrow> digits_value ys a)"
  by (induction xs arbitrary: acc) auto

lemma digits_value_dec: "digits_value (dec n) 0 = Some n"
proof (induction n rule: dec.induct)
  case (1 n)
  have one: "digits_value [char_of (48 + k)] acc = Some (10 * acc + k)" if "k < 10" for k acc
    using code_digit [OF that] that by (simp add: isDigit_def)
  show ?case
  proof (cases "n < 10")
    case True
    then show ?thesis using one [OF True, of 0] by (subst dec.simps) simp
  next
    case False
    with 1 have "digits_value (dec (n div 10)) 0 = Some (n div 10)" by simp
    with False one [of "n mod 10" "n div 10"] show ?thesis
      by (subst dec.simps) (simp add: digits_value_append)
  qed
qed

lemma dec_digits: "dec n \<noteq> [] \<and> (\<forall>c \<in> set (dec n). 48 \<le> code c \<and> code c \<le> 57)"
proof (induction n rule: dec.induct)
  case (1 n)
  then show ?case
    by (cases "n < 10") (subst (1 2) dec.simps, simp add: code_digit)+
qed

lemma dec_facts: "solid (dec n)" "LF \<notin> set (dec n)" "\<forall>c \<in> set (dec n). \<not> ascii_space c"
proof -
  show sp: "\<forall>c \<in> set (dec n). \<not> ascii_space c"
    using dec_digits [of n] by (auto simp: ascii_space_def)
  with dec_digits [of n] show "solid (dec n)" by (auto simp: solid_def)
  show "LF \<notin> set (dec n)" using sp LF_space by blast
qed

lemma toInt_dec: "int n \<le> 2147483647 \<Longrightarrow> toInt (dec n) = Some (int n)"
proof -
  assume n: "int n \<le> 2147483647"
  obtain c cs where c: "dec n = c # cs" using dec_digits [of n] by (cases "dec n") auto
  then have "48 \<le> code c" using dec_digits [of n] by auto
  then have "c \<noteq> CHR ''-''" "c \<noteq> CHR ''+''" by (auto simp: code_def)
  then show ?thesis using c digits_value_dec [of n] n by (simp add: toInt_def)
qed

lemma trimmed_lead: "ascii_space c \<Longrightarrow> trimmed_bytes (c # s) = trimmed_bytes s"
  by (simp add: trimmed_bytes_def)

section \<open>Fields\<close>

text \<open>\<open>QByteArray::split\<close> at the characters of a class, empty pieces kept.\<close>

fun split_by :: "(char \<Rightarrow> bool) \<Rightarrow> string \<Rightarrow> string list" where
  "split_by P [] = [[]]"
| "split_by P (c # cs) =
     (if P c then [] # split_by P cs
      else (case split_by P cs of [] \<Rightarrow> [[c]] | w # ws \<Rightarrow> (c # w) # ws))"

definition words :: "string \<Rightarrow> string list" where
  "words s = filter (\<lambda>w. w \<noteq> []) (split_by ascii_space s)"

fun join :: "string \<Rightarrow> string list \<Rightarrow> string" where
  "join sep [] = []"
| "join sep [w] = w"
| "join sep (w # ws) = w @ sep @ join sep ws"

text \<open>\<open>QByteArray::simplified\<close>: white space off both ends and runs of it inside made one space.\<close>

definition simplified_bytes :: "string \<Rightarrow> string" where
  "simplified_bytes s = join '' '' (words s)"

text \<open>\<open>simplified().split(' ')\<close>, which is one empty field for a blank text.\<close>

definition text_fields :: "string \<Rightarrow> string list" where
  "text_fields s = split_by (\<lambda>c. c = CHR '' '') (simplified_bytes s)"

text \<open>\<open>QByteArray::toLongLong\<close> in base 10, on text without white space.\<close>

definition toLongLong :: "string \<Rightarrow> int option" where
  "toLongLong s =
     (let (neg, ds) = (case s of [] \<Rightarrow> (False, []) | c # cs \<Rightarrow>
                         if c = CHR ''-'' then (True, cs) else if c = CHR ''+'' then (False, cs) else (False, s))
      in if ds = [] then None
         else (case digits_value ds 0 of
                 None \<Rightarrow> None
               | Some n \<Rightarrow> (let v = (if neg then - int n else int n)
                           in if qint64_min \<le> v \<and> v \<le> qint64_max then Some v else None)))"

lemma split_by_ne [simp]: "split_by P s \<noteq> []"
  by (induction s) (auto split: list.split)

lemma split_by_none: "\<forall>c \<in> set s. \<not> P c \<Longrightarrow> split_by P s = [s]"
  by (induction s) auto

lemma split_by_at: "\<forall>c \<in> set s. \<not> P c \<Longrightarrow> P d \<Longrightarrow> split_by P (s @ d # t) = s # split_by P t"
  by (induction s) auto

lemma split_by_append: "P d \<Longrightarrow> split_by P (s @ d # t) = split_by P s @ split_by P t"
proof (induction s)
  case (Cons c s)
  then show ?case by (cases "split_by P s") auto
qed simp

lemma split_by_class: "\<forall>w \<in> set (split_by P s). \<forall>c \<in> set w. \<not> P c"
proof (induction s)
  case (Cons d s)
  then show ?case by (cases "split_by P s") auto
qed simp

text \<open>The words of a line put together from words are those words.\<close>

definition word_ok :: "string \<Rightarrow> bool" where
  "word_ok w \<longleftrightarrow> w \<noteq> [] \<and> (\<forall>c \<in> set w. \<not> ascii_space c)"

lemma space_class: "ascii_space (CHR '' '')"
  by (simp add: ascii_space_def code_def)

lemma words_word: "word_ok w \<Longrightarrow> words w = [w]"
  by (simp add: words_def word_ok_def split_by_none)

lemma words_at: "word_ok w \<Longrightarrow> ascii_space d \<Longrightarrow> words (w @ d # t) = w # words t"
  by (simp add: words_def word_ok_def split_by_at)

lemma words_join: "\<forall>w \<in> set ws. word_ok w \<Longrightarrow> words (join '' '' ws) = ws"
proof (induction ws rule: induct_list012)
  case (3 w v ws)
  then show ?case using words_at [OF _ space_class, of w "join '' '' (v # ws)"] by simp
qed (simp_all add: words_def [of "[]"] words_word)

end
