(* ===== verification/Framing.thy ===== *)
theory Framing
  imports Bytes
begin

text \<open>
  \<open>src/core/SerialFraming\<close>: one command on a console, one answer out of the bytes that come back. Bytes are
  characters, and their operations are those of \<open>Bytes\<close>.
\<close>

record serial_frame =
  token :: string
  expected :: int

datatype answer_state = Incomplete | Complete | Corrupt

record framed_answer =
  shortPayload :: bool
  ans_state :: answer_state
  ans_output :: string
  exitCode :: int
  consumed :: nat

definition empty_answer :: framed_answer where
  "empty_answer = \<lparr>shortPayload = False, ans_state = Incomplete, ans_output = [], exitCode = 0, consumed = 0\<rparr>"

section \<open>Framing a command\<close>

definition beginMarker :: "string \<Rightarrow> string" where
  "beginMarker tok = ''LFB-'' @ tok"

definition endMarker :: "string \<Rightarrow> string" where
  "endMarker tok = ''LFE-'' @ tok"

definition framedCommand :: "(string \<Rightarrow> string) \<Rightarrow> string \<Rightarrow> serial_frame \<Rightarrow> bool \<Rightarrow> string" where
  "framedCommand toUtf8 command frame keepStdErr =
     (let redirect = (if keepStdErr then '' 2>&1'' else '' 2>/dev/null'')
      in ''printf '' @ [squote, bslash, CHR ''n'', CHR ''%'', CHR ''s'', bslash, CHR ''n'', squote, CHR '' '']
         @ beginMarker (token frame) @ ''; '' @ toUtf8 command @ redirect @ ''; printf ''
         @ [squote, bslash, CHR ''n'', CHR ''%'', CHR ''s'', CHR '' '', CHR ''%'', CHR ''d'', bslash, CHR ''n'', squote, CHR '' '']
         @ endMarker (token frame) @ '' '' @ [CHR 0x22, CHR ''$'', CHR ''?'', CHR 0x22, LF])"

section \<open>Reading an answer\<close>

function endOfMarkerLine :: "string \<Rightarrow> string \<Rightarrow> nat \<Rightarrow> nat option" where
  "endOfMarkerLine buffer marker at =
     (if at < length buffer then
        (case indexOf buffer [LF] at of
           None \<Rightarrow> None
         | Some lineEnd \<Rightarrow>
             (if startsWith (trimmed_bytes (mid buffer at (lineEnd - at))) marker then Some (lineEnd + 1)
              else endOfMarkerLine buffer marker (lineEnd + 1)))
      else None)"
  by pat_completeness auto
termination
  by (relation "measure (\<lambda>(buffer, marker, at). length buffer - at)") (auto dest: newline_found)

declare endOfMarkerLine.simps [simp del]

text \<open>The status line: the position of the end marker's line and of what follows it.\<close>

function status_line :: "string \<Rightarrow> string \<Rightarrow> nat \<Rightarrow> (nat \<times> nat) option" where
  "status_line buffer marker at =
     (if at < length buffer then
        (case indexOf buffer [LF] at of
           None \<Rightarrow> None
         | Some lineEnd \<Rightarrow>
             (if startsWith (trimmed_bytes (mid buffer at (lineEnd - at))) marker then Some (at, lineEnd + 1)
              else status_line buffer marker (lineEnd + 1)))
      else None)"
  by pat_completeness auto
termination
  by (relation "measure (\<lambda>(buffer, marker, at). length buffer - at)") (auto dest: newline_found)

declare status_line.simps [simp del]

text \<open>Where a length-delimited payload ends: \<open>None\<close> while it is not closed, otherwise whether it came short
  and, when it did not, its end.\<close>

definition payload_bound :: "string \<Rightarrow> serial_frame \<Rightarrow> nat \<Rightarrow> (bool \<times> nat option) option" where
  "payload_bound buffer frame payloadStart =
     (let fullEnd = payloadStart + nat (expected frame);
          terminator = LF # endMarker (token frame)
      in if fullEnd + length terminator \<le> length buffer \<and> mid buffer fullEnd (length terminator) = terminator
         then Some (False, Some fullEnd)
         else (case indexOf buffer terminator payloadStart of
                 None \<Rightarrow> if length buffer < fullEnd + length terminator then None else Some (False, Some fullEnd)
               | Some at \<Rightarrow>
                   if endOfMarkerLine buffer (endMarker (token frame)) (at + 1) = None then
                     (if length buffer < fullEnd + length terminator then None else Some (False, Some fullEnd))
                   else if at < fullEnd then Some (True, None)
                   else Some (False, Some fullEnd)))"

definition scanned_end :: "string \<Rightarrow> serial_frame \<Rightarrow> nat \<Rightarrow> nat \<Rightarrow> nat" where
  "scanned_end buffer frame payloadStart statusLineStart =
     (if payloadStart < statusLineStart \<and> buffer ! (statusLineStart - 1) = LF then
        (if expected frame < 0 \<and> payloadStart < statusLineStart - 1 \<and> buffer ! (statusLineStart - 2) = CR
         then statusLineStart - 2 else statusLineStart - 1)
      else statusLineStart)"

definition finish_answer ::
  "string \<Rightarrow> serial_frame \<Rightarrow> framed_answer \<Rightarrow> nat \<Rightarrow> nat option \<Rightarrow> framed_answer" where
  "finish_answer buffer frame out payloadStart payloadEnd =
     (let end_marker = endMarker (token frame);
          searchFrom = (case payloadEnd of None \<Rightarrow> payloadStart | Some e \<Rightarrow> e)
      in case status_line buffer end_marker searchFrom of
           None \<Rightarrow> out
         | Some (statusLineStart, statusLineEnd) \<Rightarrow>
             (let pe = (case payloadEnd of None \<Rightarrow> scanned_end buffer frame payloadStart statusLineStart
                                          | Some e \<Rightarrow> e)
              in if statusLineStart < pe then out\<lparr>ans_state := Corrupt, consumed := statusLineEnd\<rparr>
                 else
                   (let status = trimmed_bytes (drop (length end_marker)
                          (trimmed_bytes (mid buffer statusLineStart (statusLineEnd - statusLineStart))));
                        code = toInt status
                    in out\<lparr>ans_output := mid buffer payloadStart (pe - payloadStart),
                           exitCode := (case code of Some c \<Rightarrow> c | None \<Rightarrow> - 1),
                           consumed := statusLineEnd,
                           ans_state := (if code \<noteq> None then Complete else Corrupt)\<rparr>)))"

definition readFramedAnswer :: "string \<Rightarrow> serial_frame \<Rightarrow> framed_answer" where
  "readFramedAnswer buffer frame =
     (case endOfMarkerLine buffer (beginMarker (token frame)) 0 of
        None \<Rightarrow> empty_answer
      | Some payloadStart \<Rightarrow>
          if 0 \<le> expected frame then
            (case payload_bound buffer frame payloadStart of
               None \<Rightarrow> empty_answer
             | Some (short, payloadEnd) \<Rightarrow>
                 finish_answer buffer frame (empty_answer\<lparr>shortPayload := short\<rparr>) payloadStart payloadEnd)
          else finish_answer buffer frame empty_answer payloadStart None)"

section \<open>Bounding the buffer\<close>

definition kFrameBufferCap :: nat where
  "kFrameBufferCap = 4 * 1024 * 1024"

definition capFrameBuffer :: "string \<Rightarrow> serial_frame \<Rightarrow> string" where
  "capFrameBuffer buffer frame =
     (if length buffer \<le> kFrameBufferCap then buffer
      else (case indexOf buffer (beginMarker (token frame)) 0 of
              Some markerAt \<Rightarrow> if 0 < markerAt then drop markerAt buffer else buffer
            | None \<Rightarrow> drop (length buffer - kFrameBufferCap) buffer))"

section \<open>Lines and markers\<close>

text \<open>Both scans walk line by line.\<close>

lemma marker_step:
  "LF \<notin> set l \<Longrightarrow> endOfMarkerLine (pre @ l @ LF # post) m (length pre) =
     (if startsWith (trimmed_bytes l) m then Some (length pre + length l + 1)
      else endOfMarkerLine (pre @ l @ LF # post) m (length pre + length l + 1))"
  by (subst endOfMarkerLine.simps) (simp add: newline_at mid_def)

lemma status_step:
  "LF \<notin> set l \<Longrightarrow> status_line (pre @ l @ LF # post) m (length pre) =
     (if startsWith (trimmed_bytes l) m then Some (length pre, length pre + length l + 1)
      else status_line (pre @ l @ LF # post) m (length pre + length l + 1))"
  by (subst status_line.simps) (simp add: newline_at mid_def)

definition no_marker :: "string \<Rightarrow> string list \<Rightarrow> bool" where
  "no_marker m ls \<longleftrightarrow> (\<forall>l \<in> set ls. LF \<notin> set l \<and> \<not> startsWith (trimmed_bytes l) m)"

lemma no_marker_simps [simp]:
  "no_marker m []" "no_marker m (l # ls) \<longleftrightarrow> LF \<notin> set l \<and> \<not> startsWith (trimmed_bytes l) m \<and> no_marker m ls"
  by (auto simp: no_marker_def)

lemma marker_skip:
  assumes "no_marker m ls" and "LF \<notin> set l" and "startsWith (trimmed_bytes l) m"
  shows "endOfMarkerLine (pre @ unlines ls @ l @ LF # post) m (length pre) =
    Some (length pre + length (unlines ls) + length l + 1)"
  using assms(1)
proof (induction ls arbitrary: pre)
  case Nil
  then show ?case using marker_step [OF assms(2), of pre post m] assms(3) by simp
next
  case (Cons k ls)
  from Cons.IH [of "pre @ k @ [LF]"] Cons.prems marker_step [of k pre "unlines ls @ l @ LF # post" m]
  show ?case by simp
qed

lemma status_skip:
  assumes "no_marker m ls" and "LF \<notin> set l" and "startsWith (trimmed_bytes l) m"
  shows "status_line (pre @ unlines ls @ l @ LF # post) m (length pre) =
    Some (length pre + length (unlines ls), length pre + length (unlines ls) + length l + 1)"
  using assms(1)
proof (induction ls arbitrary: pre)
  case Nil
  then show ?case using status_step [OF assms(2), of pre post m] assms(3) by simp
next
  case (Cons k ls)
  from Cons.IH [of "pre @ k @ [LF]"] Cons.prems status_step [of k pre "unlines ls @ l @ LF # post" m]
  show ?case by simp
qed

definition plain_token :: "string \<Rightarrow> bool" where
  "plain_token t \<longleftrightarrow> t \<noteq> [] \<and> (\<forall>c \<in> set t. \<not> ascii_space c)"

lemma marker_facts:
  assumes "plain_token t"
  shows "solid (beginMarker t)" "solid (endMarker t)" "LF \<notin> set (beginMarker t)" "LF \<notin> set (endMarker t)"
    "\<forall>c \<in> set (endMarker t). \<not> ascii_space c"
proof -
  have l: "\<forall>c \<in> set ''LFBE-''. \<not> ascii_space c" by (simp add: ascii_space_def code_def)
  then have b: "\<forall>c \<in> set (beginMarker t). \<not> ascii_space c" and e: "\<forall>c \<in> set (endMarker t). \<not> ascii_space c"
    using assms by (auto simp: beginMarker_def endMarker_def plain_token_def)
  show "\<forall>c \<in> set (endMarker t). \<not> ascii_space c" by (rule e)
  have ne: "beginMarker t \<noteq> []" "endMarker t \<noteq> []" by (simp_all add: beginMarker_def endMarker_def)
  show "solid (beginMarker t)" "solid (endMarker t)"
    using b e ne by (simp_all add: solid_def)
  show "LF \<notin> set (beginMarker t)" "LF \<notin> set (endMarker t)"
    using b e LF_space by auto
qed

section \<open>A whole frame\<close>

definition status_text :: "string \<Rightarrow> nat \<Rightarrow> string" where
  "status_text tok n = endMarker tok @ CHR '' '' # dec n"

definition framed :: "string \<Rightarrow> string list \<Rightarrow> string \<Rightarrow> string \<Rightarrow> nat \<Rightarrow> string \<Rightarrow> string \<Rightarrow> string" where
  "framed tok noise pad payload n pad2 rest =
     unlines noise @ beginMarker tok @ pad @ LF # payload @ LF # status_text tok n @ pad2 @ LF # rest"

definition good_frame :: "string \<Rightarrow> string list \<Rightarrow> string \<Rightarrow> nat \<Rightarrow> string \<Rightarrow> bool" where
  "good_frame tok noise pad n pad2 \<longleftrightarrow>
     plain_token tok \<and> no_marker (beginMarker tok) noise \<and> spaces pad \<and> spaces pad2 \<and> int n \<le> 2147483647"

definition payload_start :: "string \<Rightarrow> string list \<Rightarrow> string \<Rightarrow> nat" where
  "payload_start tok noise pad = length (unlines noise) + length (beginMarker tok @ pad) + 1"

lemma spaces_facts: "spaces p \<Longrightarrow> (\<forall>c \<in> set p. ascii_space c) \<and> LF \<notin> set p"
  by (auto simp: spaces_def)

lemma status_facts:
  assumes "plain_token tok" and "\<forall>c \<in> set p. ascii_space c"
  shows "trimmed_bytes (status_text tok n @ p) = status_text tok n" and "LF \<notin> set (status_text tok n)"
    and "startsWith (status_text tok n) (endMarker tok)"
    and "trimmed_bytes (drop (length (endMarker tok)) (status_text tok n)) = dec n"
proof -
  note e = marker_facts [OF assms(1)] and d = dec_facts [of n]
  have "solid (status_text tok n)"
    using e(2) d(1) by (simp add: status_text_def solid_def hd_append)
  then show "trimmed_bytes (status_text tok n @ p) = status_text tok n"
    by (rule trimmed_solid) (rule assms(2))
  show "LF \<notin> set (status_text tok n)" using e(4) d(2) by (auto simp: status_text_def LF_def)
  show "startsWith (status_text tok n) (endMarker tok)" by (simp add: status_text_def)
  show "trimmed_bytes (drop (length (endMarker tok)) (status_text tok n)) = dec n"
    using trimmed_solid [OF d(1), of "[]"] by (simp add: status_text_def trimmed_lead ascii_space_def code_def)
qed

lemma framed_start:
  assumes "good_frame tok noise pad n pad2"
  shows "endOfMarkerLine (framed tok noise pad payload n pad2 rest) (beginMarker tok) 0 =
    Some (payload_start tok noise pad)"
proof -
  have p: "plain_token tok" and sp: "\<forall>c \<in> set pad. ascii_space c" "LF \<notin> set pad"
    and nm: "no_marker (beginMarker tok) noise"
    using assms spaces_facts by (auto simp: good_frame_def)
  have "trimmed_bytes (beginMarker tok @ pad) = beginMarker tok"
    by (rule trimmed_solid) (use marker_facts [OF p] sp in auto)
  then have "startsWith (trimmed_bytes (beginMarker tok @ pad)) (beginMarker tok)"
    by (simp add: startsWith_def)
  from marker_skip [OF nm _ this, of "[]"] marker_facts(3) [OF p] sp(2) show ?thesis
    by (simp add: framed_def payload_start_def)
qed

lemma finish_framed:
  assumes g: "good_frame tok noise pad n pad2" and frame: "token frame = tok"
    and b: "b = framed tok noise pad payload n pad2 rest"
    and ls: "payload @ [LF] = unlines ls" "no_marker (endMarker tok) ls"
    and e: "scanned_end b frame (payload_start tok noise pad) (payload_start tok noise pad + length payload + 1) =
      payload_start tok noise pad + k" and k: "k \<le> length payload"
  shows "finish_answer b frame out (payload_start tok noise pad) None =
    out\<lparr>ans_output := take k payload, exitCode := int n, consumed := length b - length rest, ans_state := Complete\<rparr>"
proof -
  let ?pre = "unlines noise @ beginMarker tok @ pad @ [LF]" and ?l = "status_text tok n @ pad2"
  have p: "plain_token tok" and sp: "\<forall>c \<in> set pad2. ascii_space c" "LF \<notin> set pad2" and n: "int n \<le> 2147483647"
    using g spaces_facts by (auto simp: good_frame_def)
  note st = status_facts [OF p]
  have bb: "b = ?pre @ unlines ls @ ?l @ LF # rest" unfolding b framed_def ls(1) [symmetric] by simp
  have pl: "length (unlines ls) = length payload + 1" unfolding ls(1) [symmetric] by simp
  have ps: "payload_start tok noise pad = length ?pre" by (simp add: payload_start_def)
  have "status_line b (endMarker tok) (length ?pre) =
      Some (length ?pre + length (unlines ls), length ?pre + length (unlines ls) + length ?l + 1)"
    unfolding bb by (rule status_skip) (use ls(2) st sp in auto)
  then have s: "status_line b (endMarker tok) (payload_start tok noise pad) =
      Some (payload_start tok noise pad + length payload + 1,
            payload_start tok noise pad + length payload + 1 + length ?l + 1)"
    unfolding ps pl by simp
  have m: "mid b (payload_start tok noise pad + length payload + 1) (length ?l + 1) = ?l @ [LF]"
    unfolding mid_def bb ps using pl by simp
  have t: "trimmed_bytes (?l @ [LF]) = status_text tok n"
    using st(1) [of "pad2 @ [LF]"] sp(1) LF_space by auto
  have o: "mid b (payload_start tok noise pad) k = take k payload"
    unfolding mid_def b framed_def payload_start_def using k by simp
  have c: "length b - length rest = payload_start tok noise pad + length payload + 1 + length ?l + 1"
    unfolding bb ps using pl by simp
  show ?thesis
    unfolding finish_answer_def frame option.case Let_def s prod.case e
    using m t o c k st(4) [of "[]"] toInt_dec [OF n] by (simp add: add.assoc [symmetric] add.commute [of _ 1])
qed

lemma finish_full:
  assumes g: "good_frame tok noise pad n pad2" and frame: "token frame = tok"
    and b: "b = framed tok noise pad payload n pad2 rest"
  shows "finish_answer b frame out (payload_start tok noise pad)
      (Some (payload_start tok noise pad + length payload)) =
    out\<lparr>ans_output := payload, exitCode := int n, consumed := length b - length rest, ans_state := Complete\<rparr>"
proof -
  let ?pre = "unlines noise @ beginMarker tok @ pad @ LF # payload" and ?l = "status_text tok n @ pad2"
  have p: "plain_token tok" and sp: "\<forall>c \<in> set pad2. ascii_space c" "LF \<notin> set pad2" and n: "int n \<le> 2147483647"
    using g spaces_facts by (auto simp: good_frame_def)
  note st = status_facts [OF p]
  have bb: "b = ?pre @ unlines [[]] @ ?l @ LF # rest" unfolding b framed_def by simp
  have ps: "payload_start tok noise pad + length payload = length ?pre" by (simp add: payload_start_def)
  have nil: "no_marker (endMarker tok) [[]]"
    by (simp add: trimmed_bytes_def startsWith_def endMarker_def)
  have s: "status_line b (endMarker tok) (length ?pre) =
      Some (length ?pre + 1, length ?pre + 1 + length ?l + 1)"
    unfolding bb by (subst status_skip [OF nil]) (use st sp in auto)
  have m: "mid b (length ?pre + 1) (length ?l + 1) = ?l @ [LF]"
    unfolding mid_def bb by simp
  have t: "trimmed_bytes (?l @ [LF]) = status_text tok n"
    using st(1) [of "pad2 @ [LF]"] sp(1) LF_space by auto
  have o: "mid b (payload_start tok noise pad) (length payload) = payload"
    unfolding mid_def b framed_def payload_start_def by simp
  have c: "length b - length rest = length ?pre + 1 + length ?l + 1"
    unfolding bb by simp
  show ?thesis
    unfolding finish_answer_def frame option.case Let_def ps s prod.case
    using m t o c st(4) [of "[]"] toInt_dec [OF n] ps
    by (simp add: add.assoc [symmetric] add.commute [of _ 1])
qed

lemma framed_terminator:
  "mid (framed tok noise pad payload n pad2 rest) (payload_start tok noise pad + length payload)
     (length (LF # endMarker tok)) = LF # endMarker tok \<and>
   payload_start tok noise pad + length payload + length (LF # endMarker tok) \<le>
     length (framed tok noise pad payload n pad2 rest)"
  by (simp add: mid_def framed_def payload_start_def status_text_def)

text \<open>C36: frame_length_delimited. A frame whose payload has the announced length is read back exactly, whatever
  the payload holds, this run's own markers included: the output is the payload, the exit code is the
  one printed, and what follows the frame is left unconsumed; complete noise lines before the frame
  and carriage returns or blanks after its markers do not matter.\<close>

theorem frame_length_delimited:
  assumes "good_frame tok noise pad n pad2"
  shows "readFramedAnswer (framed tok noise pad payload n pad2 rest)
      \<lparr>token = tok, expected = int (length payload)\<rparr> =
    \<lparr>shortPayload = False, ans_state = Complete, ans_output = payload, exitCode = int n,
     consumed = length (framed tok noise pad payload n pad2 rest) - length rest\<rparr>"
proof -
  let ?b = "framed tok noise pad payload n pad2 rest"
  let ?f = "\<lparr>token = tok, expected = int (length payload)\<rparr>"
  have bound: "payload_bound ?b ?f (payload_start tok noise pad) =
      Some (False, Some (payload_start tok noise pad + length payload))"
    using framed_terminator [of tok noise pad payload n pad2 rest] by (simp add: payload_bound_def)
  have tok: "token ?f = tok" "0 \<le> expected ?f" by simp_all
  show ?thesis
    unfolding readFramedAnswer_def tok framed_start [OF assms] option.case bound prod.case
      finish_full [OF assms tok(1) refl]
    by (simp add: empty_answer_def)
qed

theorem frame_length_delimited_witness:
  "ans_output (readFramedAnswer (framed ''a1'' [''# '', ''echo''] [CR] (''x'' @ [LF] @ ''LFE-a1 9'' @ [LF]) 0 [CR] ''# '')
     \<lparr>token = ''a1'', expected = 11\<rparr>) = ''x'' @ [LF] @ ''LFE-a1 9'' @ [LF]"
proof -
  have "good_frame ''a1'' [''# '', ''echo''] [CR] 0 [CR]" by code_simp
  from frame_length_delimited [OF this, of "''x'' @ [LF] @ ''LFE-a1 9'' @ [LF]" "''# ''"] show ?thesis by simp
qed

lemma framed_nth:
  assumes "i < length payload"
  shows "framed tok noise pad payload n pad2 rest ! (payload_start tok noise pad + i) = payload ! i"
proof -
  have "framed tok noise pad payload n pad2 rest =
      (unlines noise @ beginMarker tok @ pad @ [LF]) @ payload @ LF # status_text tok n @ pad2 @ LF # rest"
    by (simp add: framed_def)
  moreover have "payload_start tok noise pad = length (unlines noise @ beginMarker tok @ pad @ [LF])"
    by (simp add: payload_start_def)
  ultimately show ?thesis using assms by (simp only: nth_append_length_plus) (simp add: nth_append)
qed

lemma framed_nth_LF:
  "framed tok noise pad payload n pad2 rest ! (payload_start tok noise pad + length payload) = LF"
proof -
  have "framed tok noise pad payload n pad2 rest =
      (unlines noise @ beginMarker tok @ pad @ LF # payload) @ LF # status_text tok n @ pad2 @ LF # rest"
    by (simp add: framed_def)
  moreover have "payload_start tok noise pad + length payload =
      length (unlines noise @ beginMarker tok @ pad @ LF # payload)"
    by (simp add: payload_start_def)
  ultimately show ?thesis by (simp only: nth_append_length)
qed

definition without_cr :: "string \<Rightarrow> string" where
  "without_cr s = (if s \<noteq> [] \<and> List.last s = CR then butlast s else s)"

lemma scanned_framed:
  "scanned_end (framed tok noise pad payload n pad2 rest) frame (payload_start tok noise pad)
     (payload_start tok noise pad + length payload + 1) =
   payload_start tok noise pad +
     (if expected frame < 0 \<and> payload \<noteq> [] \<and> List.last payload = CR then length payload - 1 else length payload)"
proof (cases "payload = []")
  case True
  then show ?thesis using framed_nth_LF [of tok noise pad payload n pad2 rest] by (simp add: scanned_end_def)
next
  case False
  then obtain m where m: "length payload = Suc m" by (cases payload) auto
  then have "framed tok noise pad payload n pad2 rest ! (payload_start tok noise pad + m) = List.last payload"
    using framed_nth [of m payload tok noise pad n pad2 rest] False by (simp add: last_conv_nth)
  with False m framed_nth_LF [of tok noise pad payload n pad2 rest] show ?thesis
    by (auto simp: scanned_end_def)
qed

text \<open>A textual answer, read with no announced length, comes back as printed with its exit
  code when no line of it begins with the end marker; only the newline the frame adds, and a
  carriage return before that newline, are taken off.\<close>

theorem frame_scanned:
  assumes "good_frame tok noise pad n pad2" and "payload @ [LF] = unlines ls" and "no_marker (endMarker tok) ls"
  shows "readFramedAnswer (framed tok noise pad payload n pad2 rest) \<lparr>token = tok, expected = - 1\<rparr> =
    \<lparr>shortPayload = False, ans_state = Complete, ans_output = without_cr payload, exitCode = int n,
     consumed = length (framed tok noise pad payload n pad2 rest) - length rest\<rparr>"
proof -
  let ?f = "\<lparr>token = tok, expected = - 1\<rparr>" and ?b = "framed tok noise pad payload n pad2 rest"
  let ?k = "if payload \<noteq> [] \<and> List.last payload = CR then length payload - 1 else length payload"
  have tok: "token ?f = tok" "\<not> 0 \<le> expected ?f" by simp_all
  have e: "scanned_end ?b ?f (payload_start tok noise pad) (payload_start tok noise pad + length payload + 1) =
      payload_start tok noise pad + ?k"
    unfolding scanned_framed by simp
  have "?k \<le> length payload" by simp
  note fin = finish_framed [OF assms(1) tok(1) refl assms(2,3) e this, of empty_answer]
  have "take ?k payload = without_cr payload" by (auto simp: without_cr_def butlast_conv_take)
  then show ?thesis
    unfolding readFramedAnswer_def tok framed_start [OF assms(1)] option.case if_False fin
    by (simp add: empty_answer_def)
qed

theorem frame_scanned_witness:
  "readFramedAnswer (framed ''a1'' [''# ''] [] (''12 LFE-a1'' @ [CR]) 3 [CR] ''# '') \<lparr>token = ''a1'', expected = - 1\<rparr> =
     \<lparr>shortPayload = False, ans_state = Complete, ans_output = ''12 LFE-a1'', exitCode = 3,
      consumed = length (framed ''a1'' [''# ''] [] (''12 LFE-a1'' @ [CR]) 3 [CR] ''# '') - 2\<rparr>"
proof -
  have g: "good_frame ''a1'' [''# ''] [] 3 [CR]" and l: "(''12 LFE-a1'' @ [CR]) @ [LF] = unlines [''12 LFE-a1'' @ [CR]]"
    and m: "no_marker (endMarker ''a1'') [''12 LFE-a1'' @ [CR]]" by code_simp+
  have c: "without_cr (''12 LFE-a1'' @ [CR]) = ''12 LFE-a1''" by code_simp
  show ?thesis using frame_scanned [OF g l m, of "''# ''"] unfolding c by simp
qed

text \<open>A length-delimited frame that arrives in pieces. The payload below, 17 bytes long, holds a line that
  begins with the end marker of its own run.\<close>

definition marked_payload :: string where
  "marked_payload = ''x'' @ [LF] @ ''LFE-a1 0'' @ [LF] @ ''yyyyyy''"

text \<open>A length-delimited payload that holds a line beginning with its own end marker is
  read whole once the frame has arrived, but when that line has arrived and the rest has not, the
  answer is already taken for complete and short, and the payload is cut there.\<close>

theorem frame_raw_cut_in_flight:
  "length marked_payload = 17 \<and>
   ans_output (readFramedAnswer (framed ''a1'' [] [] marked_payload 0 [] []) \<lparr>token = ''a1'', expected = 17\<rparr>) = marked_payload \<and>
   readFramedAnswer (take 20 (framed ''a1'' [] [] marked_payload 0 [] [])) \<lparr>token = ''a1'', expected = 17\<rparr> =
     \<lparr>shortPayload = True, ans_state = Complete, ans_output = ''x'', exitCode = 0, consumed = 18\<rparr>"
proof (intro conjI)
  show len: "length marked_payload = 17" by code_simp
  show "ans_output (readFramedAnswer (framed ''a1'' [] [] marked_payload 0 [] []) \<lparr>token = ''a1'', expected = 17\<rparr>) = marked_payload"
    by code_simp
  show "readFramedAnswer (take 20 (framed ''a1'' [] [] marked_payload 0 [] [])) \<lparr>token = ''a1'', expected = 17\<rparr> =
     \<lparr>shortPayload = True, ans_state = Complete, ans_output = ''x'', exitCode = 0, consumed = 18\<rparr>"
    by code_simp
qed

section \<open>The cap and the echo\<close>

lemma find_skip:
  assumes "p \<noteq> []" and "hd p \<notin> set xs"
  shows "find_sub p (xs @ ys) = map_option (\<lambda>i. length xs + i) (find_sub p ys)"
  using assms(2)
proof (induction xs)
  case Nil
  then show ?case by (simp add: option.map_ident)
next
  case (Cons x xs)
  with assms(1) have "take (length p) (x # xs @ ys) \<noteq> p" by (cases p) auto
  with Cons show ?case by (simp add: option.map_comp comp_def)
qed

lemma find_here: "find_sub p (p @ ys) = Some 0"
  by (cases p; cases ys) auto

text \<open>The echo of a command: what is in front of the begin marker, and what follows it on the line.\<close>

definition echo_head :: string where
  "echo_head = ''printf '' @ [squote, bslash, CHR ''n'', CHR ''%'', CHR ''s'', bslash, CHR ''n'', squote, CHR '' '']"

definition echo_tail :: "(string \<Rightarrow> string) \<Rightarrow> string \<Rightarrow> serial_frame \<Rightarrow> bool \<Rightarrow> string" where
  "echo_tail u command frame keep = ''; '' @ u command @ (if keep then '' 2>&1'' else '' 2>/dev/null'') @ ''; printf ''
    @ [squote, bslash, CHR ''n'', CHR ''%'', CHR ''s'', CHR '' '', CHR ''%'', CHR ''d'', bslash, CHR ''n'', squote, CHR '' '']
    @ endMarker (token frame) @ '' '' @ [CHR 0x22, CHR ''$'', CHR ''?'', CHR 0x22]"

lemma framed_line:
  "framedCommand u command frame keep = echo_head @ beginMarker (token frame) @ echo_tail u command frame keep @ [LF]"
  by (simp add: framedCommand_def echo_head_def echo_tail_def)

lemma echo_plain:
  assumes "plain_token (token frame)" and "LF \<notin> set (u command)"
  shows "LF \<notin> set (echo_head @ beginMarker (token frame) @ echo_tail u command frame keep)"
  using marker_facts [OF assms(1)] assms(2)
  by (auto simp: echo_head_def echo_tail_def LF_def squote_def bslash_def)

lemma solid_echo: "x \<noteq> [] \<Longrightarrow> \<not> ascii_space (hd x) \<Longrightarrow> solid (x @ echo_tail u command frame keep)"
  by (simp add: solid_def echo_tail_def ascii_space_def code_def)

lemma echo_begins_nothing:
  assumes "plain_token (token frame)" and "LF \<notin> set (u command)"
  shows "endOfMarkerLine (replicate (Suc j) (CHR ''.'') @ framedCommand u command frame keep) (beginMarker (token frame)) 0 = None"
proof -
  let ?l = "(replicate (Suc j) (CHR ''.'') @ echo_head @ beginMarker (token frame)) @ echo_tail u command frame keep"
  have "solid ?l" by (rule solid_echo) (simp_all add: ascii_space_def code_def)
  then have "trimmed_bytes ?l = ?l" using trimmed_solid [of ?l "[]"] by simp
  then have "\<not> startsWith (trimmed_bytes ?l) (beginMarker (token frame))"
    by (simp add: startsWith_def beginMarker_def)
  moreover have "LF \<notin> set ?l" using echo_plain [of frame u command keep, OF assms] by (auto simp: LF_def)
  ultimately show ?thesis
    using marker_step [of ?l "[]" "[]" "beginMarker (token frame)"]
    by (simp add: framed_line endOfMarkerLine.simps)
qed

lemma cap_keeps_echo:
  assumes "kFrameBufferCap \<le> k"
  shows "capFrameBuffer (replicate k (CHR ''.'') @ framedCommand u command frame keep) frame =
    beginMarker (token frame) @ echo_tail u command frame keep @ [LF]"
proof -
  let ?bm = "beginMarker (token frame)" and ?t = "echo_tail u command frame keep @ [LF]"
  have "hd ?bm \<notin> set (replicate k (CHR ''.'') @ echo_head)" "?bm \<noteq> []"
    by (auto simp: beginMarker_def echo_head_def squote_def bslash_def)
  from find_skip [OF this(2,1), of "?bm @ ?t"]
  have "find_sub ?bm ((replicate k (CHR ''.'') @ echo_head) @ ?bm @ ?t) = Some (k + length echo_head)"
    unfolding find_here by simp
  then have "indexOf (replicate k (CHR ''.'') @ framedCommand u command frame keep) ?bm 0 = Some (k + length echo_head)"
    unfolding framed_line by (simp add: indexOf_def)
  moreover have "0 < k" using assms by (simp add: kFrameBufferCap_def)
  ultimately show ?thesis using assms by (simp add: capFrameBuffer_def framed_line)
qed

text \<open>A console that echoes shows the command's own line, which holds the begin
  marker, before any answer. That echo begins no answer; but once the buffer exceeds its cap while
  the device is printing, what is before the marker is dropped, the echo then starts the buffer, and
  its line is taken for the begin marker's.\<close>

theorem frame_cap_promotes_echo:
  assumes "plain_token (token frame)" and "LF \<notin> set (u command)" and "kFrameBufferCap \<le> k"
  shows "endOfMarkerLine (replicate k (CHR ''.'') @ framedCommand u command frame keep) (beginMarker (token frame)) 0 = None \<and>
    endOfMarkerLine (capFrameBuffer (replicate k (CHR ''.'') @ framedCommand u command frame keep) frame)
      (beginMarker (token frame)) 0 \<noteq> None"
proof
  obtain j where "k = Suc j" using assms(3) by (cases k) (simp_all add: kFrameBufferCap_def)
  with echo_begins_nothing [of frame u command _ keep, OF assms(1,2)]
  show "endOfMarkerLine (replicate k (CHR ''.'') @ framedCommand u command frame keep) (beginMarker (token frame)) 0 = None"
    by simp
  let ?l = "beginMarker (token frame) @ echo_tail u command frame keep"
  have "solid ?l" by (rule solid_echo) (use marker_facts [OF assms(1)] in \<open>auto simp: solid_def\<close>)
  then have "startsWith (trimmed_bytes ?l) (beginMarker (token frame))" using trimmed_solid [of ?l "[]"] by simp
  then show "endOfMarkerLine (capFrameBuffer (replicate k (CHR ''.'') @ framedCommand u command frame keep) frame)
      (beginMarker (token frame)) 0 \<noteq> None"
    using marker_step [of ?l "[]" "[]" "beginMarker (token frame)"] echo_plain [of frame u command keep, OF assms(1,2)]
    unfolding cap_keeps_echo [of k u command frame keep, OF assms(3)] by simp
qed

theorem frame_cap_promotes_echo_witness:
  "endOfMarkerLine (capFrameBuffer (replicate kFrameBufferCap (CHR ''.'') @ framedCommand (\<lambda>s. s) ''pwd'' \<lparr>token = ''a1'', expected = - 1\<rparr> False)
     \<lparr>token = ''a1'', expected = - 1\<rparr>) (beginMarker ''a1'') 0 \<noteq> None"
proof -
  have "plain_token (token \<lparr>token = ''a1'', expected = - 1\<rparr>)" "LF \<notin> set ''pwd''" by code_simp+
  from frame_cap_promotes_echo [of _ "\<lambda>s. s", OF this order_refl] show ?thesis by simp
qed

end
