(* ===== verification/Runs.thy ===== *)
theory Runs
  imports Context Decode
begin

text \<open>
  The runs of a log, \<open>src/core/Document.cpp\<close>: finding them in the index, folding appended records into
  them, selecting one of them, the interval of the view that follows, and the memoised baselines
  and counts of a run. \<open>fl\<close> is the document's first line of a record, \<open>recordFirstLine\<close> on the source as
  it is when the operation runs; ordinals are \<open>nat\<close> or, where -1 has a meaning, \<open>int\<close>.
\<close>

section \<open>State\<close>

record run =
  startRecord :: nat
  startOffset :: int
  startTimestamp :: int
  firstLine :: string
  isPreamble :: bool

record baseline =
  ts :: int
  b_scanned :: int

definition baseline_default :: baseline where
  "baseline_default = \<lparr>ts = kNoTimestamp, b_scanned = - 1\<rparr>"

record run_stats =
  firstTimestamp :: int
  lastTimestamp :: int
  fatal :: int
  error :: int
  warn :: int

definition stats_default :: run_stats where
  "stats_default = \<lparr>firstTimestamp = kNoTimestamp, lastTimestamp = kNoTimestamp, fatal = 0, error = 0, warn = 0\<rparr>"

record run_stats_memo =
  stats :: run_stats
  s_scanned :: int

definition memo_default :: run_stats_memo where
  "memo_default = \<lparr>stats = stats_default, s_scanned = - 1\<rparr>"

record doc_runs =
  m_runs :: "run list"
  m_selectedRun :: int
  m_followLastRun :: bool
  m_runStartMatcher :: text_matcher
  m_runStartActive :: bool
  m_view :: view_bound
  m_runBase :: "baseline list"
  m_fileBase :: baseline
  m_runHint :: int
  m_runStats :: "run_stats_memo list"
  m_fileStats :: run_stats_memo

definition recordFirstLine ::
  "(encoding \<Rightarrow> bytes \<Rightarrow> string) \<Rightarrow> decoder \<Rightarrow> (int \<Rightarrow> int \<Rightarrow> bytes) \<Rightarrow> log_record \<Rightarrow> string" where
  "recordFirstLine conv d rd r =
     (let bs = rd (offset r) (uint (byteLength r)) in
      if bs = [] then []
      else (let (firstEnd, hadNl) = lineEnd d bs 0;
                firstContentLen = firstEnd - (if hadNl then m_unitSize d else 0)
            in decodeLine conv d (take firstContentLen bs)))"

section \<open>The view interval and the selection\<close>

definition lastRunIndex :: "doc_runs \<Rightarrow> int" where
  "lastRunIndex s = int (length (m_runs s)) - 1"

definition recomputeViewBounds :: "doc_runs \<Rightarrow> doc_runs" where
  "recomputeViewBounds s =
     (if \<not> m_runStartActive s \<or> m_selectedRun s < 0 \<or> int (length (m_runs s)) \<le> m_selectedRun s then
        s\<lparr>m_view := \<lparr>m_viewRestricted = False, m_viewStart = qint64_min, m_viewEnd = qint64_max\<rparr>\<rparr>
      else
        s\<lparr>m_view := \<lparr>m_viewRestricted = True,
            m_viewStart = startOffset (m_runs s ! nat (m_selectedRun s)),
            m_viewEnd = (if m_selectedRun s + 1 < int (length (m_runs s))
                         then startOffset (m_runs s ! nat (m_selectedRun s + 1)) else qint64_max)\<rparr>\<rparr>)"

definition invalidateRunMemos :: "doc_runs \<Rightarrow> doc_runs" where
  "invalidateRunMemos s =
     s\<lparr>m_runBase := [], m_fileBase := baseline_default, m_runHint := - 1, m_runStats := [],
       m_fileStats := memo_default\<rparr>"

definition selectRun :: "doc_runs \<Rightarrow> int \<Rightarrow> doc_runs" where
  "selectRun s ix =
     (let s1 = s\<lparr>m_selectedRun := (if 0 \<le> ix \<and> ix < int (length (m_runs s)) then ix else - 1)\<rparr>;
          s2 = s1\<lparr>m_followLastRun := (0 \<le> m_selectedRun s1 \<and> m_selectedRun s1 = lastRunIndex s1)\<rparr>
      in recomputeViewBounds s2)"

definition selectLastRun :: "doc_runs \<Rightarrow> doc_runs" where
  "selectLastRun s = recomputeViewBounds (s\<lparr>m_followLastRun := True, m_selectedRun := lastRunIndex s\<rparr>)"

definition retargetLastRun :: "doc_runs \<Rightarrow> doc_runs \<times> bool" where
  "retargetLastRun s =
     (if \<not> m_followLastRun s then (s, False)
      else if lastRunIndex s = m_selectedRun s then (s, False)
      else (recomputeViewBounds (s\<lparr>m_selectedRun := lastRunIndex s\<rparr>), True))"

fun find_run :: "(run \<Rightarrow> bool) \<Rightarrow> run list \<Rightarrow> int \<Rightarrow> int" where
  "find_run P [] i = - 1"
| "find_run P (r # rs) i = (if P r then i else find_run P rs (i + 1))"

definition selectRunByStart :: "doc_runs \<Rightarrow> int \<Rightarrow> int \<Rightarrow> doc_runs" where
  "selectRunByStart s off stamp =
     (let b1 = find_run (\<lambda>r. startOffset r = off) (m_runs s) 0;
          b2 = (if b1 < 0 \<and> stamp \<noteq> kNoTimestamp
                then find_run (\<lambda>r. startTimestamp r = stamp) (m_runs s) 0 else b1)
      in if 0 \<le> b2 then selectRun s b2 else selectLastRun s)"

section \<open>Finding the runs\<close>

definition makeRun :: "(log_record \<Rightarrow> string) \<Rightarrow> log_record list \<Rightarrow> nat \<Rightarrow> bool \<Rightarrow> run" where
  "makeRun fl recs i preamble =
     \<lparr>startRecord = i, startOffset = offset (recs ! i), startTimestamp = timestamp (recs ! i),
      firstLine = fl (recs ! i), isPreamble = preamble\<rparr>"

definition detect_step ::
  "(log_record \<Rightarrow> string) \<Rightarrow> (string \<Rightarrow> bool) \<Rightarrow> log_record list \<Rightarrow> nat \<Rightarrow> int \<times> run list \<Rightarrow> int \<times> run list" where
  "detect_step fl mt recs i st =
     (let (firstMarker, runs) = st in
      if mt (fl (recs ! i)) then
        (if firstMarker < 0 then
           (int i, (if 0 < i then runs @ [makeRun fl recs 0 True] else runs) @ [makeRun fl recs i False])
         else (firstMarker, runs @ [makeRun fl recs i False]))
      else st)"

definition splitting :: "doc_runs \<Rightarrow> bool" where
  "splitting s \<longleftrightarrow> m_runStartActive s \<and> m_pattern (m_runStartMatcher s) \<noteq> [] \<and> m_valid (m_runStartMatcher s)"

definition detectRuns :: "regex_engine \<Rightarrow> (log_record \<Rightarrow> string) \<Rightarrow> log_record list \<Rightarrow> doc_runs \<Rightarrow> doc_runs" where
  "detectRuns eng fl recs s0 =
     (let s = invalidateRunMemos (s0\<lparr>m_runs := []\<rparr>) in
      if \<not> splitting s then recomputeViewBounds s
      else
        (let runs = snd (fold (detect_step fl (matches eng (m_runStartMatcher s)) recs) [0..<length recs] (- 1, []));
             s1 = s\<lparr>m_runs := runs\<rparr>;
             s2 = (if m_followLastRun s1 \<or> int (length (m_runs s1)) \<le> m_selectedRun s1
                   then s1\<lparr>m_selectedRun := lastRunIndex s1\<rparr> else s1)
         in recomputeViewBounds s2))"

definition setRunStart ::
  "regex_engine \<Rightarrow> (log_record \<Rightarrow> string) \<Rightarrow> log_record list \<Rightarrow> doc_runs \<Rightarrow> string \<Rightarrow> bool \<Rightarrow> bool \<Rightarrow> doc_runs" where
  "setRunStart eng fl recs s pattern regex cs =
     selectLastRun (detectRuns eng fl recs
       (s\<lparr>m_runStartMatcher := matcher_set eng pattern regex cs, m_runStartActive := (pattern \<noteq> [])\<rparr>))"

definition append_step ::
  "(log_record \<Rightarrow> string) \<Rightarrow> (string \<Rightarrow> bool) \<Rightarrow> log_record list \<Rightarrow> nat \<Rightarrow> run list \<times> bool \<Rightarrow> run list \<times> bool" where
  "append_step fl mt recs i st =
     (let (runs, changed) = st in
      if \<not> mt (fl (recs ! i)) then st
      else ((if runs = [] \<and> 0 < i then runs @ [makeRun fl recs 0 True] else runs) @ [makeRun fl recs i False], True))"

definition updateRunsAfterAppend ::
  "regex_engine \<Rightarrow> (log_record \<Rightarrow> string) \<Rightarrow> log_record list \<Rightarrow> doc_runs \<Rightarrow> int \<Rightarrow> doc_runs \<times> bool" where
  "updateRunsAfterAppend eng fl recs s oldRecordCount =
     (if \<not> splitting s then (s, False)
      else
        (let (runs, changed) = fold (append_step fl (matches eng (m_runStartMatcher s)) recs)
                [nat (max 0 oldRecordCount)..<length recs] (m_runs s, False);
             s1 = s\<lparr>m_runs := runs\<rparr>
         in (if changed then recomputeViewBounds s1 else s1, changed)))"

section \<open>Baselines and counts\<close>




definition run_end :: "log_record list \<Rightarrow> run list \<Rightarrow> int \<Rightarrow> int" where
  "run_end recs runs k =
     (if k + 1 < int (length runs) then int (startRecord (runs ! nat (k + 1))) else int (length recs))"



definition count_record :: "log_record \<Rightarrow> run_stats \<Rightarrow> run_stats" where
  "count_record r s =
     (let s1 = (if timestamp r \<noteq> kNoTimestamp then
                  (if firstTimestamp s = kNoTimestamp then s\<lparr>firstTimestamp := timestamp r\<rparr> else s)
                    \<lparr>lastTimestamp := timestamp r\<rparr>
                else s)
      in case prio r of
           Fatal \<Rightarrow> s1\<lparr>fatal := fatal s1 + 1\<rparr>
         | Error \<Rightarrow> s1\<lparr>error := error s1 + 1\<rparr>
         | Warn \<Rightarrow> s1\<lparr>warn := warn s1 + 1\<rparr>
         | _ \<Rightarrow> s1)"

definition foldStats :: "log_record list \<Rightarrow> run_stats_memo \<Rightarrow> int \<Rightarrow> int \<Rightarrow> run_stats_memo" where
  "foldStats recs memo start e =
     (let m1 = (if s_scanned memo < start \<or> e < s_scanned memo
                then \<lparr>stats = stats_default, s_scanned = start\<rparr> else memo)
      in \<lparr>stats = fold (\<lambda>i s. count_record (recs ! i) s) [nat (s_scanned m1)..<nat e] (stats m1),
          s_scanned = max (s_scanned m1) e\<rparr>)"


definition fileStats :: "log_record list \<Rightarrow> doc_runs \<Rightarrow> doc_runs \<times> run_stats" where
  "fileStats recs s =
     (let memo = foldStats recs (m_fileStats s) 0 (int (length recs))
      in (s\<lparr>m_fileStats := memo\<rparr>, stats memo))"

definition runRecordCount :: "log_record list \<Rightarrow> doc_runs \<Rightarrow> int \<Rightarrow> int" where
  "runRecordCount recs s i =
     (if i < 0 \<or> int (length (m_runs s)) \<le> i then 0
      else run_end recs (m_runs s) i - int (startRecord (m_runs s ! nat i)))"

section \<open>What detection finds\<close>

definition markers :: "(log_record \<Rightarrow> string) \<Rightarrow> (string \<Rightarrow> bool) \<Rightarrow> log_record list \<Rightarrow> nat \<Rightarrow> nat \<Rightarrow> nat list" where
  "markers fl mt recs a b = filter (\<lambda>i. mt (fl (recs ! i))) [a..<b]"

definition run_list :: "(log_record \<Rightarrow> string) \<Rightarrow> (string \<Rightarrow> bool) \<Rightarrow> log_record list \<Rightarrow> run list" where
  "run_list fl mt recs =
     (case markers fl mt recs 0 (length recs) of
        [] \<Rightarrow> []
      | i # is \<Rightarrow> (if 0 < i then [makeRun fl recs 0 True] else []) @ map (\<lambda>i. makeRun fl recs i False) (i # is))"

lemma markers_Suc:
  "a \<le> b \<Longrightarrow> markers fl mt recs a (Suc b) =
     markers fl mt recs a b @ (if mt (fl (recs ! b)) then [b] else [])"
  by (simp add: markers_def)

lemma detect_fold:
  "fold (detect_step fl mt recs) [0..<n] (- 1, []) =
     (case markers fl mt recs 0 n of
        [] \<Rightarrow> (- 1, [])
      | i # is \<Rightarrow> (int i, (if 0 < i then [makeRun fl recs 0 True] else []) @
          map (\<lambda>i. makeRun fl recs i False) (i # is)))"
proof (induction n)
  case 0
  then show ?case by (simp add: markers_def)
next
  case (Suc n)
  then show ?case
    by (cases "markers fl mt recs 0 n") (auto simp: markers_Suc detect_step_def)
qed

lemma detect_run_list: "snd (fold (detect_step fl mt recs) [0..<length recs] (- 1, [])) = run_list fl mt recs"
  unfolding detect_fold run_list_def by (simp split: list.split)

lemma append_fold:
  assumes "a \<le> n"
  shows "fold (append_step fl mt recs) [a..<n] (runs, c) =
     (case markers fl mt recs a n of
        [] \<Rightarrow> (runs, c)
      | i # is \<Rightarrow> (runs @ (if runs = [] \<and> 0 < i then [makeRun fl recs 0 True] else []) @
          map (\<lambda>i. makeRun fl recs i False) (i # is), True))"
  using assms
proof (induction n rule: dec_induct)
  case base
  then show ?case by (simp add: markers_def)
next
  case (step n)
  then show ?case
    by (cases "markers fl mt recs a n") (auto simp: markers_Suc append_step_def)
qed

lemma markers_split: "a \<le> b \<Longrightarrow> b \<le> c \<Longrightarrow> markers fl mt recs a c = markers fl mt recs a b @ markers fl mt recs b c"
  using upt_add_eq_append [of a b "c - b"] by (simp add: markers_def flip: filter_append)

definition settled ::
  "(log_record \<Rightarrow> string) \<Rightarrow> log_record list \<Rightarrow> (log_record \<Rightarrow> string) \<Rightarrow> log_record list \<Rightarrow> bool" where
  "settled fl recs fl' recs' \<longleftrightarrow> length recs \<le> length recs' \<and>
     (\<forall>i < length recs. offset (recs' ! i) = offset (recs ! i) \<and> timestamp (recs' ! i) = timestamp (recs ! i) \<and>
        fl' (recs' ! i) = fl (recs ! i))"

lemma settled_markers: "settled fl recs fl' recs' \<Longrightarrow> markers fl' mt recs' 0 (length recs) = markers fl mt recs 0 (length recs)"
  by (auto simp: settled_def markers_def intro: filter_cong)

lemma settled_run: "settled fl recs fl' recs' \<Longrightarrow> i < length recs \<Longrightarrow> makeRun fl' recs' i p = makeRun fl recs i p"
  by (simp add: settled_def makeRun_def)

lemma markers_less: "i \<in> set (markers fl mt recs a b) \<Longrightarrow> a \<le> i \<and> i < b"
  by (simp add: markers_def)

lemma append_is_detection:
  assumes "settled fl recs fl' recs'"
  shows "fst (fold (append_step fl' mt recs') [length recs..<length recs'] (run_list fl mt recs, False)) =
    run_list fl' mt recs'"
proof -
  let ?m = "markers fl mt recs 0 (length recs)" and ?m' = "markers fl' mt recs' (length recs) (length recs')"
  have le: "length recs \<le> length recs'" using assms by (simp add: settled_def)
  have all: "markers fl' mt recs' 0 (length recs') = ?m @ ?m'"
    using markers_split [OF _ le, of 0 fl' mt recs'] settled_markers [OF assms, of mt] by simp
  show ?thesis
  proof (cases ?m)
    case Nil
    then show ?thesis
      unfolding append_fold [OF le] run_list_def all by (simp split: list.split)
  next
    case (Cons i "is")
    have in_old: "k < length recs" if "k \<in> set (i # is)" for k
      using markers_less [of k fl mt recs 0 "length recs"] that unfolding Cons by blast
    have pos: "0 < length recs" using in_old [of i] by (cases recs) simp_all
    have "map (\<lambda>i. makeRun fl' recs' i False) (i # is) = map (\<lambda>i. makeRun fl recs i False) (i # is)"
      by (rule map_cong [OF refl]) (use settled_run [OF assms] in_old in blast)
    moreover have "makeRun fl' recs' 0 True = makeRun fl recs 0 True"
      by (rule settled_run [OF assms pos])
    ultimately show ?thesis
      unfolding append_fold [OF le] run_list_def all Cons by (simp split: list.split)
  qed
qed

section \<open>The view is a run's records\<close>

definition increasing :: "log_record list \<Rightarrow> bool" where
  "increasing recs \<longleftrightarrow> sorted_wrt (\<lambda>a b. offset a < offset b) recs \<and> (\<forall>r \<in> set recs. offset r < qint64_max)"

lemma increasing_less: "increasing recs \<Longrightarrow> i < length recs \<Longrightarrow> j < length recs \<Longrightarrow>
    offset (recs ! i) < offset (recs ! j) \<longleftrightarrow> i < j"
  unfolding increasing_def sorted_wrt_iff_nth_less
  by (metis linorder_neqE_nat order_less_asym order_less_irrefl)

lemma run_list_starts:
  "map startRecord (run_list fl mt recs) =
     (case markers fl mt recs 0 (length recs) of [] \<Rightarrow> [] | i # is \<Rightarrow> (if 0 < i then [0] else []) @ i # is)"
  by (auto simp: run_list_def makeRun_def comp_def split: list.split)

lemma markers_sorted: "sorted_wrt (<) (markers fl mt recs a b)"
  unfolding markers_def by (rule sorted_wrt_filter) (simp add: strict_sorted_iff [symmetric])

lemma run_list_ascending: "sorted_wrt (<) (map startRecord (run_list fl mt recs))"
  using markers_sorted [of fl mt recs 0 "length recs"] unfolding run_list_starts
  by (fastforce split: list.split)

lemma run_list_made:
  assumes "r \<in> set (run_list fl mt recs)"
  shows "\<exists>i p. i < length recs \<and> r = makeRun fl recs i p"
proof (cases "markers fl mt recs 0 (length recs)")
  case Nil
  with assms show ?thesis by (simp add: run_list_def)
next
  case (Cons i "is")
  have "k < length recs" if "k \<in> set (i # is)" for k
    using markers_less [of k fl mt recs 0 "length recs"] that unfolding Cons by blast
  moreover from this have "0 < length recs" by force
  moreover have "r = makeRun fl recs 0 True \<or> (\<exists>k \<in> set (i # is). r = makeRun fl recs k False)"
    using assms unfolding run_list_def Cons by (auto split: if_splits)
  ultimately show ?thesis by blast
qed

lemma run_list_valid: "r \<in> set (run_list fl mt recs) \<Longrightarrow> startRecord r < length recs \<and>
    startOffset r = offset (recs ! startRecord r)"
  using run_list_made by (fastforce simp: makeRun_def)

lemma run_list_first: "run_list fl mt recs \<noteq> [] \<Longrightarrow> startRecord (run_list fl mt recs ! 0) = 0"
  by (auto simp: run_list_def makeRun_def split: list.split_asm)

lemma detectRuns_runs: "splitting s \<Longrightarrow> m_runs (detectRuns eng fl recs s) =
    run_list fl (matches eng (m_runStartMatcher s)) recs"
  by (simp add: detectRuns_def splitting_def invalidateRunMemos_def recomputeViewBounds_def detect_run_list Let_def)

lemma detectRuns_active [simp]:
  "m_runStartActive (detectRuns eng fl recs s) = m_runStartActive s"
  "m_runStartMatcher (detectRuns eng fl recs s) = m_runStartMatcher s"
  by (simp_all add: detectRuns_def splitting_def invalidateRunMemos_def recomputeViewBounds_def Let_def)

lemma selectRun_view:
  assumes "m_runStartActive s" and "k < length (m_runs s)"
  shows "m_view (selectRun s (int k)) =
    \<lparr>m_viewRestricted = True, m_viewStart = startOffset (m_runs s ! k),
     m_viewEnd = (if k + 1 < length (m_runs s) then startOffset (m_runs s ! (k + 1)) else qint64_max)\<rparr>"
proof -
  have "nat (int k + 1) = Suc k" by simp
  then show ?thesis using assms by (simp add: selectRun_def recomputeViewBounds_def Let_def)
qed

lemma view_of_run:
  assumes inc: "increasing recs" and runs: "runs = run_list fl mt recs" and k: "k < length runs" and i: "i < length recs"
  shows "(startOffset (runs ! k) \<le> offset (recs ! i) \<and>
      offset (recs ! i) < (if k + 1 < length runs then startOffset (runs ! (k + 1)) else qint64_max)) \<longleftrightarrow>
    int (startRecord (runs ! k)) \<le> int i \<and> int i < run_end recs runs (int k)"
proof -
  have v: "startRecord (runs ! j) < length recs" "startOffset (runs ! j) = offset (recs ! startRecord (runs ! j))"
    if "j < length runs" for j
    using run_list_valid [of "runs ! j" fl mt recs] that unfolding runs by simp_all
  have less: "offset (recs ! i) < startOffset (runs ! j) \<longleftrightarrow> i < startRecord (runs ! j)" if "j < length runs" for j
    using increasing_less [OF inc i v(1) [OF that]] v(2) [OF that] by simp
  have max: "offset (recs ! i) < qint64_max" using inc i by (simp add: increasing_def)
  have e: "run_end recs runs (int k) =
      (if k + 1 < length runs then int (startRecord (runs ! (k + 1))) else int (length recs))"
    using nat_int_add [of k 1] by (simp add: run_end_def)
  show ?thesis
    using less [OF k] less [of "k + 1"] max i unfolding e by auto
qed

section \<open>Memoised counts\<close>

definition fresh_stats :: "log_record list \<Rightarrow> nat \<Rightarrow> nat \<Rightarrow> run_stats" where
  "fresh_stats recs a b = fold (\<lambda>i s. count_record (recs ! i) s) [a..<b] stats_default"

definition memo_ok :: "log_record list \<Rightarrow> nat \<Rightarrow> run_stats_memo \<Rightarrow> bool" where
  "memo_ok recs a memo \<longleftrightarrow> s_scanned memo < int a \<or>
     (s_scanned memo \<le> int (length recs) \<and> stats memo = fresh_stats recs a (nat (s_scanned memo)))"

lemma foldStats_fresh:
  assumes "memo_ok recs a memo" and "a \<le> e"
  shows "foldStats recs memo (int a) (int e) = \<lparr>stats = fresh_stats recs a e, s_scanned = int e\<rparr>"
proof (cases "s_scanned memo < int a \<or> int e < s_scanned memo")
  case True
  then show ?thesis using assms(2) by (auto simp: foldStats_def fresh_stats_def Let_def)
next
  case False
  then obtain m where m: "s_scanned memo = int m" "a \<le> m" "m \<le> e"
    by (metis int_nat_eq le_less_trans linorder_not_less not_le of_nat_0_le_iff of_nat_le_iff order.trans)
  have "[a..<e] = [a..<m] @ [m..<e]" using m upt_add_eq_append [of a m "e - m"] by simp
  then show ?thesis
    using assms m by (simp add: foldStats_def memo_ok_def fresh_stats_def Let_def)
qed


lemma memo_default_ok [simp]: "memo_ok recs a memo_default"
  by (simp add: memo_ok_def memo_default_def)


text \<open>The counts of adjacent stretches add up.\<close>

definition tally_prio :: "priority \<Rightarrow> log_record list \<Rightarrow> nat \<Rightarrow> nat \<Rightarrow> int" where
  "tally_prio p recs a b = int (length (filter (\<lambda>i. prio (recs ! i) = p) [a..<b]))"

lemma counted:
  "fatal (count_record r s) = fatal s + (if prio r = Fatal then 1 else 0)"
  "error (count_record r s) = error s + (if prio r = Error then 1 else 0)"
  "warn (count_record r s) = warn s + (if prio r = Warn then 1 else 0)"
  by (cases "prio r"; simp add: count_record_def)+

lemma fold_counts:
  "fatal (fold (\<lambda>i s. count_record (recs ! i) s) is s) = fatal s + int (length (filter (\<lambda>i. prio (recs ! i) = Fatal) is))"
  "error (fold (\<lambda>i s. count_record (recs ! i) s) is s) = error s + int (length (filter (\<lambda>i. prio (recs ! i) = Error) is))"
  "warn (fold (\<lambda>i s. count_record (recs ! i) s) is s) = warn s + int (length (filter (\<lambda>i. prio (recs ! i) = Warn) is))"
  by (induction "is" arbitrary: s) (simp_all add: counted)

lemma fresh_counts:
  "fatal (fresh_stats recs a b) = tally_prio Fatal recs a b"
  "error (fresh_stats recs a b) = tally_prio Error recs a b"
  "warn (fresh_stats recs a b) = tally_prio Warn recs a b"
  by (simp_all add: fresh_stats_def fold_counts tally_prio_def stats_default_def)


lemma tally_all: "tally_prio p recs 0 (length recs) = int (length (filter (\<lambda>r. prio r = p) recs))"
  using arg_cong [OF filter_map [of "\<lambda>r. prio r = p" "\<lambda>i. recs ! i" "[0..<length recs]"], of length]
  by (simp add: tally_prio_def map_nth comp_def)






section \<open>Properties\<close>

lemma append_runs:
  assumes "settled fl recs fl' recs'" and "splitting s" and "m_runs s = run_list fl (matches eng (m_runStartMatcher s)) recs"
  shows "m_runs (fst (updateRunsAfterAppend eng fl' recs' s (int (length recs)))) = run_list fl' (matches eng (m_runStartMatcher s)) recs'"
proof -
  have "m_runs (fst (updateRunsAfterAppend eng fl' recs' s (int (length recs)))) =
      fst (fold (append_step fl' (matches eng (m_runStartMatcher s)) recs') [length recs..<length recs'] (m_runs s, False))"
    using assms(2) by (simp add: updateRunsAfterAppend_def recomputeViewBounds_def Let_def split_def)
  then show ?thesis unfolding assms(3) append_is_detection [OF assms(1)] .
qed

lemma detectRuns_splitting [simp]: "splitting (detectRuns eng fl recs s) = splitting s"
  by (simp add: splitting_def)

lemma detectRuns_none: "\<not> splitting s \<Longrightarrow> m_runs (detectRuns eng fl recs s) = []"
  by (simp add: detectRuns_def splitting_def invalidateRunMemos_def recomputeViewBounds_def Let_def)

text \<open>C37: runs_incremental_is_detection. Folding appended records into the runs gives the runs a fresh detection
  finds, when the records indexed before keep their offset, timestamp and first line: a run for each record whose first
  line matches, after one for what stands before the first of them. With no run pattern that can be used neither finds
  any.\<close>

theorem runs_incremental_is_detection:
  assumes "settled fl recs fl' recs'"
  shows "m_runs (fst (updateRunsAfterAppend eng fl' recs' (detectRuns eng fl recs s) (int (length recs)))) =
      (if splitting s then run_list fl' (matches eng (m_runStartMatcher s)) recs' else []) \<and>
    m_runs (detectRuns eng fl' recs' s) =
      (if splitting s then run_list fl' (matches eng (m_runStartMatcher s)) recs' else [])"
proof (cases "splitting s")
  case True
  with append_runs [OF assms, of "detectRuns eng fl recs s" eng] show ?thesis by (simp add: detectRuns_runs)
next
  case False
  then show ?thesis by (simp add: detectRuns_none updateRunsAfterAppend_def)
qed

definition sample_record :: "int \<Rightarrow> priority \<Rightarrow> log_record" where
  "sample_record off p = \<lparr>offset = off, timestamp = 1000 + off, byteLength = 10, loggerId = 0, threadId = 0,
     lineCount = 1, prio = p\<rparr>"

definition sample_lines :: "log_record \<Rightarrow> string" where
  "sample_lines r = (if offset r \<in> {10, 30} then ''start'' else ''work'')"

definition sample_runs :: doc_runs where
  "sample_runs = \<lparr>m_runs = [], m_selectedRun = - 1, m_followLastRun = True,
     m_runStartMatcher = \<lparr>m_pattern = ''start'', m_regex = False, m_cs = True, m_re = None, m_valid = True\<rparr>,
     m_runStartActive = True, m_view = \<lparr>m_viewRestricted = False, m_viewStart = 0, m_viewEnd = 0\<rparr>,
     m_runBase = [], m_fileBase = baseline_default, m_runHint = - 1, m_runStats = [], m_fileStats = memo_default\<rparr>"

lemma sample_splitting: "splitting sample_runs"
  by (simp add: splitting_def sample_runs_def)

theorem runs_incremental_is_detection_witness:
  "m_runs (fst (updateRunsAfterAppend plain_engine sample_lines (map (\<lambda>x. sample_record x Info) [0, 10, 20, 30])
       (detectRuns plain_engine sample_lines (map (\<lambda>x. sample_record x Info) [0, 10]) sample_runs) 2)) =
   m_runs (detectRuns plain_engine sample_lines (map (\<lambda>x. sample_record x Info) [0, 10, 20, 30]) sample_runs)"
proof -
  have "settled sample_lines (map (\<lambda>x. sample_record x Info) [0, 10]) sample_lines
      (map (\<lambda>x. sample_record x Info) [0, 10, 20, 30])"
    by (simp add: settled_def less_Suc_eq)
  from runs_incremental_is_detection [OF this, of plain_engine sample_runs] show ?thesis by simp
qed

text \<open>After a detection, selecting run \<open>k\<close> bounds the view to exactly the
  records from the run's first to the one before the next run's first, the last run's to the end of
  the log; the runs found start at record 0 and ascend, so every record is in one run's view.\<close>

theorem selected_run_shows_its_records:
  assumes "splitting s" and "increasing recs" and "k < length (m_runs (detectRuns eng fl recs s))" and "i < length recs"
  shows "(inRunBound (m_view (selectRun (detectRuns eng fl recs s) (int k))) (recs ! i) \<longleftrightarrow>
      int (startRecord (m_runs (detectRuns eng fl recs s) ! k)) \<le> int i \<and>
      int i < run_end recs (m_runs (detectRuns eng fl recs s)) (int k)) \<and>
    startRecord (m_runs (detectRuns eng fl recs s) ! 0) = 0 \<and>
    sorted_wrt (<) (map startRecord (m_runs (detectRuns eng fl recs s)))"
proof (intro conjI)
  let ?d = "detectRuns eng fl recs s"
  note runs = detectRuns_runs [OF assms(1), of eng fl recs]
  have act: "m_runStartActive ?d" using assms(1) by (simp add: splitting_def)
  show "inRunBound (m_view (selectRun ?d (int k))) (recs ! i) \<longleftrightarrow>
      int (startRecord (m_runs ?d ! k)) \<le> int i \<and> int i < run_end recs (m_runs ?d) (int k)"
    using view_of_run [OF assms(2) runs assms(3,4)] selectRun_view [OF act assms(3)]
    by (simp add: inRunBound_def)
  show "startRecord (m_runs ?d ! 0) = 0"
    using assms(3) unfolding runs by (intro run_list_first notI) simp
  show "sorted_wrt (<) (map startRecord (m_runs ?d))"
    unfolding runs by (rule run_list_ascending)
qed

theorem selected_run_shows_its_records_witness:
  "inRunBound (m_view (selectRun (detectRuns plain_engine sample_lines
     (map (\<lambda>x. sample_record x Info) [0, 10, 20, 30]) sample_runs) 1)) (sample_record 20 Info)"
proof -
  let ?r = "map (\<lambda>x. sample_record x Info) [0, 10, 20, 30]"
  have runs: "map startRecord (m_runs (detectRuns plain_engine sample_lines ?r sample_runs)) = [0, 1, 3]" by code_simp
  have len: "length (m_runs (detectRuns plain_engine sample_lines ?r sample_runs)) = 3"
    using arg_cong [OF runs, of length] by simp
  have inc: "increasing ?r" by (simp add: increasing_def sample_record_def qint64_max_def)
  have "startRecord (m_runs (detectRuns plain_engine sample_lines ?r sample_runs) ! j) = [0, 1, 3] ! j" if "j < 3" for j
    using arg_cong [OF runs, of "\<lambda>l. l ! j"] that len by simp
  from this [of 1] this [of 2] selected_run_shows_its_records [OF sample_splitting inc, of 1 plain_engine sample_lines 2]
  show ?thesis unfolding len by (simp add: run_end_def len numeral_2_eq_2)
qed

lemma detection_memos: "m_runStats (detectRuns eng fl recs s) = [] \<and> m_fileStats (detectRuns eng fl recs s) = memo_default"
  by (simp add: detectRuns_def invalidateRunMemos_def recomputeViewBounds_def Let_def)


section \<open>A document while it is counted\<close>









lemma append_frame:
  "m_runStats (fst (updateRunsAfterAppend eng fl recs s n)) = m_runStats s"
  "m_fileStats (fst (updateRunsAfterAppend eng fl recs s n)) = m_fileStats s"
  "m_runStartMatcher (fst (updateRunsAfterAppend eng fl recs s n)) = m_runStartMatcher s"
  "m_runStartActive (fst (updateRunsAfterAppend eng fl recs s n)) = m_runStartActive s"
  by (simp_all add: updateRunsAfterAppend_def recomputeViewBounds_def Let_def split_def)

lemma append_nothing: "length recs \<le> n \<Longrightarrow> fst (updateRunsAfterAppend eng fl recs s (int n)) = s"
  by (simp add: updateRunsAfterAppend_def)








text \<open>C39: runs_miss_completed_record. The last record of a live log is provisional: it is read again when more of it
  arrives. An append that completes it as a record that starts a run and is now a warning, an error or fatal, which it was
  not, leaves the runs as they were, where a detection finds one more that starts at the record; and the file's counts,
  once asked for, stay those taken before, which are not those of the records.\<close>

theorem runs_miss_completed_record:
  assumes "splitting s" and "mt = matches eng (m_runStartMatcher s)"
    and "\<not> mt (fl r)" and "mt (fl' r')" and "\<forall>x \<in> set recs. fl' x = fl x"
    and "prio r \<noteq> prio r'" and "prio r' \<in> {Warn, Error, Fatal}"
    and "counted = fst (fileStats (recs @ [r]) (detectRuns eng fl (recs @ [r]) s))"
    and "after = fst (updateRunsAfterAppend eng fl' (recs @ [r']) counted (int (length (recs @ [r]))))"
  shows "m_runs after = m_runs (detectRuns eng fl (recs @ [r]) s) \<and>
    map startRecord (m_runs (detectRuns eng fl' (recs @ [r']) s)) =
      map startRecord (m_runs after) @ (if m_runs after = [] \<and> recs \<noteq> [] then [0] else []) @ [length recs] \<and>
    snd (fileStats (recs @ [r']) after) = snd (fileStats (recs @ [r]) (detectRuns eng fl (recs @ [r]) s)) \<and>
    snd (fileStats (recs @ [r']) after) \<noteq> snd (fileStats (recs @ [r']) (detectRuns eng fl' (recs @ [r']) s))"
proof (intro conjI)
  let ?n = "length recs"
  note d = detectRuns_runs [OF assms(1), of eng, folded assms(2)]
  have same: "markers fl' mt (recs @ [x]) 0 ?n = markers fl mt (recs @ [y]) 0 ?n" for x y
    unfolding markers_def using assms(5) by (intro filter_cong) (auto simp: nth_append)
  have old: "markers fl mt (recs @ [r]) 0 (Suc ?n) = markers fl mt (recs @ [r]) 0 ?n"
    and new: "markers fl' mt (recs @ [r']) 0 (Suc ?n) = markers fl mt (recs @ [r]) 0 ?n @ [?n]"
    using assms(3,4) same [of r' r] by (simp_all add: markers_Suc nth_append)
  have count: "fileStats rs (detectRuns eng g rs s) = ((detectRuns eng g rs s)\<lparr>m_fileStats :=
      \<lparr>stats = fresh_stats rs 0 (length rs), s_scanned = int (length rs)\<rparr>\<rparr>, fresh_stats rs 0 (length rs))" for g rs
    using foldStats_fresh [of rs 0 memo_default "length rs"] by (simp add: fileStats_def detection_memos Let_def)
  show runs: "m_runs after = m_runs (detectRuns eng fl (recs @ [r]) s)"
    unfolding assms(8,9) count by (subst append_nothing) simp_all
  show "map startRecord (m_runs (detectRuns eng fl' (recs @ [r']) s)) =
      map startRecord (m_runs after) @ (if m_runs after = [] \<and> recs \<noteq> [] then [0] else []) @ [?n]"
  proof -
    have "m_runs after = [] \<longleftrightarrow> map startRecord (run_list fl mt (recs @ [r])) = []" unfolding runs d by simp
    then show ?thesis unfolding runs d run_list_starts by (simp add: old new split: list.split)
  qed
  have "m_fileStats after = \<lparr>stats = fresh_stats (recs @ [r]) 0 (Suc ?n), s_scanned = int (Suc ?n)\<rparr>"
    unfolding assms(8,9) append_frame count by simp
  then have stale: "snd (fileStats (recs @ [r']) after) = fresh_stats (recs @ [r]) 0 (length (recs @ [r]))"
    by (simp add: fileStats_def foldStats_def Let_def)
  then show "snd (fileStats (recs @ [r']) after) = snd (fileStats (recs @ [r]) (detectRuns eng fl (recs @ [r]) s))"
    by (simp add: count)
  have "tally_prio p (recs @ [r']) 0 (length (recs @ [r'])) \<noteq> tally_prio p (recs @ [r]) 0 (length (recs @ [r]))" if "prio r' = p" for p
    unfolding tally_all using that assms(6) by auto
  then have "fresh_stats (recs @ [r]) 0 (length (recs @ [r])) \<noteq> fresh_stats (recs @ [r']) 0 (length (recs @ [r']))"
    using assms(7) fresh_counts by (metis insertE singletonD)
  then show "snd (fileStats (recs @ [r']) after) \<noteq> snd (fileStats (recs @ [r']) (detectRuns eng fl' (recs @ [r']) s))"
    unfolding stale count snd_conv .
qed

definition completed_line :: "log_record \<Rightarrow> string" where
  "completed_line r = (if offset r = 0 then ''x'' else ''restart'')"

definition partial_line :: "log_record \<Rightarrow> string" where
  "partial_line r = (if offset r = 0 then ''x'' else ''res'')"

theorem runs_miss_completed_record_witness:
  "m_runs (fst (updateRunsAfterAppend plain_engine completed_line [sample_record 0 Info, sample_record 5 Error]
     (fst (fileStats [sample_record 0 Info, sample_record 5 Unknown]
       (detectRuns plain_engine partial_line [sample_record 0 Info, sample_record 5 Unknown] sample_runs))) 2)) = []
   \<and> map startRecord (m_runs (detectRuns plain_engine completed_line [sample_record 0 Info, sample_record 5 Error] sample_runs)) = [0, 1]"
proof -
  let ?mt = "matches plain_engine (m_runStartMatcher sample_runs)"
  have h: "\<not> ?mt (partial_line (sample_record 5 Unknown))" "?mt (completed_line (sample_record 5 Error))"
    "\<forall>x \<in> set [sample_record 0 Info]. completed_line x = partial_line x"
    "prio (sample_record 5 Unknown) \<noteq> prio (sample_record 5 Error)" "prio (sample_record 5 Error) \<in> {Warn, Error, Fatal}"
    by (code_simp, code_simp, simp_all add: completed_line_def partial_line_def sample_record_def)
  have none: "m_runs (detectRuns plain_engine partial_line [sample_record 0 Info, sample_record 5 Unknown] sample_runs) = []"
    by code_simp
  from runs_miss_completed_record [OF sample_splitting refl h refl refl] none show ?thesis by simp
qed

end
