(* ===== verification/Criteria.thy ===== *)
theory Criteria
  imports Filters Index SerialProfile
begin

text \<open>
  \<open>src/core/MatchCriteria\<close>: the portable form of the five match axes, names and wall clock, and its
  resolution into the \<open>FilterSet\<close> of interned ids and UTC milliseconds that records are tested
  with. A time bound is a wall-clock instant or none (an invalid \<open>QDateTime\<close>); the display zone is
  the function \<open>utc\<close> from wall clock to UTC milliseconds, with no answer for a wall clock the zone does
  not have (in a gap it is an invalid \<open>QDateTime\<close>), and \<open>iso_date\<close>, \<open>from_iso\<close> and the
  case-insensitive sort of names are Qt's.
\<close>

section \<open>The criteria\<close>

datatype absent_field = Matches | DoesNotMatch
datatype no_op_axes = Collapse | Keep

definition kPriorityByIndex :: "priority list" where
  "kPriorityByIndex = [Trace, Debug, Info, Warn, Error, Fatal]"

definition choice_count :: int where
  "choice_count = int (length kPriorityByIndex)"

definition choice_at :: "int \<Rightarrow> priority" where
  "choice_at i = kPriorityByIndex ! nat (max 0 (min (choice_count - 1) i))"

fun choice_scan :: "priority \<Rightarrow> priority list \<Rightarrow> int \<Rightarrow> int" where
  "choice_scan p [] i = 0"
| "choice_scan p (q # qs) i = (if q = p then i else choice_scan p qs (i + 1))"

definition choice_indexOf :: "priority \<Rightarrow> int" where
  "choice_indexOf p = choice_scan p kPriorityByIndex 0"

record match_criteria =
  c_priorityEnabled :: bool
  c_minPriority :: priority
  c_loggerEnabled :: bool
  loggerNames :: "string list"
  c_threadEnabled :: bool
  threadNames :: "string list"
  loggerCoversAll :: bool
  threadCoversAll :: bool
  loggerRestrictive :: bool
  threadRestrictive :: bool
  c_timeEnabled :: bool
  c_start :: "int option"
  c_end :: "int option"
  c_text :: text_filter

definition criteria_anyActive :: "match_criteria \<Rightarrow> bool" where
  "criteria_anyActive c \<longleftrightarrow> c_priorityEnabled c \<or> c_loggerEnabled c \<or> c_threadEnabled c \<or> c_timeEnabled c \<or>
     tf_active (c_text c)"

section \<open>Resolution\<close>

definition resolveIds :: "intern_table \<Rightarrow> string list \<Rightarrow> quint32 set" where
  "resolveIds table names =
     fold (\<lambda>name ids. let (i, found) = idOf table name in if found then insert i ids else ids) names {}"

text \<open>The defaults of a \<open>FilterSet\<close>'s time bounds.\<close>

definition resolve_criteria ::
  "(int \<Rightarrow> int option) \<Rightarrow> match_criteria \<Rightarrow> record_index \<Rightarrow> scan_format \<Rightarrow> absent_field \<Rightarrow> no_op_axes \<Rightarrow> filter_set" where
  "resolve_criteria utc c idx f absent noOps =
     (let collapse = (noOps = Collapse);
          timed = (c_timeEnabled c \<and> 0 < dateGroup f);
          zoned_start = Option.bind (c_start c) utc; zoned_end = Option.bind (c_end c) utc
      in \<lparr>priorityEnabled = (c_priorityEnabled c \<and> (\<not> collapse \<or> c_minPriority c \<noteq> kPriorityByIndex ! 0)),
          minPriority = c_minPriority c,
          loggerEnabled = (c_loggerEnabled c \<and> \<not> (collapse \<and> loggerCoversAll c)),
          loggerIds = resolveIds (loggers idx) (loggerNames c),
          threadEnabled = (c_threadEnabled c \<and> \<not> (collapse \<and> threadCoversAll c) \<and> 0 < threadGroup f),
          threadIds = resolveIds (threads idx) (threadNames c),
          timeEnabled = timed,
          startMs = (if timed \<and> zoned_start \<noteq> None then the zoned_start else qint64_min),
          endMs = (if timed \<and> zoned_end \<noteq> None then the zoned_end else qint64_max),
          text_axis = c_text c,
          absentFieldMatches = (absent = Matches)\<rparr>)"

section \<open>Storage\<close>

fun toBool :: "bool \<Rightarrow> json option \<Rightarrow> bool" where
  "toBool d (Some (JBool b)) = b"
| "toBool d _ = d"

definition namesToArray :: "(string list \<Rightarrow> string list) \<Rightarrow> string list \<Rightarrow> json" where
  "namesToArray sort_ci names = JArr (map JStr (sort_ci names))"

definition arrayToNames :: "json list \<Rightarrow> string list" where
  "arrayToNames a =
     fold (\<lambda>v out. let s = toString (Some v) in if s \<noteq> [] \<and> s \<notin> set out then out @ [s] else out) a []"

definition insert_if :: "bool \<Rightarrow> string \<Rightarrow> json \<Rightarrow> json_object \<Rightarrow> json_object" where
  "insert_if cond key v obj = (if cond then obj(key \<mapsto> v) else obj)"

definition criteria_toJson ::
  "(string list \<Rightarrow> string list) \<Rightarrow> (int option \<Rightarrow> string) \<Rightarrow> match_criteria \<Rightarrow> json_object" where
  "criteria_toJson sort_ci iso_date c =
     (let o1 = [''priorityEnabled'' \<mapsto> JBool (c_priorityEnabled c),
                ''minPriorityIndex'' \<mapsto> JNum (choice_indexOf (c_minPriority c)),
                ''loggerEnabled'' \<mapsto> JBool (c_loggerEnabled c),
                ''loggerChecked'' \<mapsto> namesToArray sort_ci (loggerNames c),
                ''threadEnabled'' \<mapsto> JBool (c_threadEnabled c),
                ''threadChecked'' \<mapsto> namesToArray sort_ci (threadNames c)];
          o2 = insert_if (loggerRestrictive c) ''loggerRestrictive'' (JBool True) o1;
          o3 = insert_if (threadRestrictive c) ''threadRestrictive'' (JBool True) o2;
          o4 = insert_if (loggerCoversAll c \<noteq> (loggerNames c = [])) ''loggerCoversAll'' (JBool (loggerCoversAll c)) o3;
          o5 = insert_if (threadCoversAll c \<noteq> (threadNames c = [])) ''threadCoversAll'' (JBool (threadCoversAll c)) o4
      in o5(''textEnabled'' \<mapsto> JBool (tf_enabled (c_text c)), ''text'' \<mapsto> JStr (m_pattern (tf_matcher (c_text c))),
            ''textRegex'' \<mapsto> JBool (m_regex (tf_matcher (c_text c))), ''textCase'' \<mapsto> JBool (m_cs (tf_matcher (c_text c))),
            ''textNegate'' \<mapsto> JBool (tf_negate (c_text c)), ''timeEnabled'' \<mapsto> JBool (c_timeEnabled c),
            ''timeStart'' \<mapsto> JStr (iso_date (c_start c)), ''timeEnd'' \<mapsto> JStr (iso_date (c_end c))))"

definition criteria_fromJson ::
  "regex_engine \<Rightarrow> (string \<Rightarrow> int option) \<Rightarrow> json_object \<Rightarrow> match_criteria" where
  "criteria_fromJson eng from_iso obj =
     (let lnames = arrayToNames (toArray (obj ''loggerChecked''));
          tnames = arrayToNames (toArray (obj ''threadChecked''))
      in \<lparr>c_priorityEnabled = toBool True (obj ''priorityEnabled''),
          c_minPriority = choice_at (toInt 0 (obj ''minPriorityIndex'')),
          c_loggerEnabled = toBool True (obj ''loggerEnabled''),
          loggerNames = lnames,
          c_threadEnabled = toBool False (obj ''threadEnabled''),
          threadNames = tnames,
          loggerCoversAll = (if obj ''loggerCoversAll'' \<noteq> None then toBool True (obj ''loggerCoversAll'') else lnames = []),
          threadCoversAll = (if obj ''threadCoversAll'' \<noteq> None then toBool True (obj ''threadCoversAll'') else tnames = []),
          loggerRestrictive = toBool False (obj ''loggerRestrictive''),
          threadRestrictive = toBool False (obj ''threadRestrictive''),
          c_timeEnabled = toBool False (obj ''timeEnabled''),
          c_start = from_iso (toString (obj ''timeStart'')),
          c_end = from_iso (toString (obj ''timeEnd'')),
          c_text = \<lparr>tf_enabled = toBool False (obj ''textEnabled''), tf_negate = toBool False (obj ''textNegate''),
                    tf_matcher = matcher_set eng (toString (obj ''text'')) (toBool False (obj ''textRegex''))
                                   (toBool False (obj ''textCase''))\<rparr>\<rparr>)"

section \<open>Names and ids\<close>

lemma resolveIds_conv: "i \<in> resolveIds t names \<longleftrightarrow> (\<exists>s \<in> set names. idOf t s = (i, True))"
proof -
  have "i \<in> fold (\<lambda>name ids. let (i, found) = idOf t name in if found then insert i ids else ids) names X \<longleftrightarrow>
      i \<in> X \<or> (\<exists>s \<in> set names. idOf t s = (i, True))" for X
    by (induction names arbitrary: X) (auto simp: Let_def split: prod.splits if_splits)
  then show ?thesis by (simp add: resolveIds_def)
qed

lemma resolveIds_names:
  assumes "intern_wf t" and "unat i < length (m_names t)"
  shows "i \<in> resolveIds t names \<longleftrightarrow> nameOf t i \<in> set names"
proof -
  have "idOf t s = (i, True) \<longleftrightarrow> nameOf t i = s" for s
    using assms by (auto simp: idOf_conv intern_wf_def nameOf_def)
  then show ?thesis by (auto simp: resolveIds_conv)
qed

text \<open>A record as an index holds it: its ids are known to the tables, and its time is a \<open>qint64\<close>.\<close>

definition known :: "record_index \<Rightarrow> log_record \<Rightarrow> bool" where
  "known idx r \<longleftrightarrow> unat (loggerId r) < length (m_names (loggers idx)) \<and> unat (threadId r) < length (m_names (threads idx)) \<and>
     qint64_min \<le> timestamp r \<and> timestamp r \<le> qint64_max"

text \<open>A time is between the bounds: not before the instant of the first and not after that of the last, where a bound that is
  not set, or that the zone has no instant for, says nothing.\<close>

definition within :: "(int \<Rightarrow> int option) \<Rightarrow> match_criteria \<Rightarrow> int \<Rightarrow> bool" where
  "within utc c t \<longleftrightarrow> (case Option.bind (c_start c) utc of None \<Rightarrow> True | Some m \<Rightarrow> m \<le> t) \<and>
     (case Option.bind (c_end c) utc of None \<Rightarrow> True | Some m \<Rightarrow> t \<le> m)"

text \<open>C40: criteria_match_names. The filter that criteria resolve to without collapsing accepts a record's fields exactly
  when each enabled axis does in terms of the portable criteria: its severity is at least the
  minimum, the names its ids stand for are among the chosen ones, and its time is between the
  wall-clock bounds read in the display zone, of which one that is not set or that the zone has no instant for leaves
  its side open; a field the record lacks passes or fails as asked, and an
  axis on a field the format does not have is inert.\<close>

theorem criteria_match_names:
  assumes "intern_wf (loggers idx)" and "intern_wf (threads idx)" and "known idx r"
  shows "acceptsIntegerAxes (resolve_criteria utc c idx f absent Keep) r \<longleftrightarrow>
    axis_admits (c_priorityEnabled c) (prio r = Unknown) (absent = Matches) (c_minPriority c \<le> prio r) \<and>
    axis_admits (c_loggerEnabled c) (loggerId r = 0) (absent = Matches)
      (nameOf (loggers idx) (loggerId r) \<in> set (loggerNames c)) \<and>
    axis_admits (c_threadEnabled c \<and> 0 < threadGroup f) (threadId r = 0) (absent = Matches)
      (nameOf (threads idx) (threadId r) \<in> set (threadNames c)) \<and>
    axis_admits (c_timeEnabled c \<and> 0 < dateGroup f) (timestamp r = kNoTimestamp) (absent = Matches)
      (within utc c (timestamp r))"
proof -
  have "startMs (resolve_criteria utc c idx f absent Keep) \<le> timestamp r \<and>
      timestamp r \<le> endMs (resolve_criteria utc c idx f absent Keep) \<longleftrightarrow> within utc c (timestamp r)"
    if "c_timeEnabled c \<and> 0 < dateGroup f"
    using that assms(3)
    by (auto simp: resolve_criteria_def within_def known_def Let_def split: option.split)
  then have "axis_admits (c_timeEnabled c \<and> 0 < dateGroup f) m a
      (startMs (resolve_criteria utc c idx f absent Keep) \<le> timestamp r \<and> timestamp r \<le> endMs (resolve_criteria utc c idx f absent Keep)) \<longleftrightarrow>
    axis_admits (c_timeEnabled c \<and> 0 < dateGroup f) m a (within utc c (timestamp r))" for m a
    by (auto simp: axis_admits_def)
  moreover have "loggerId r \<in> resolveIds (loggers idx) ns \<longleftrightarrow> nameOf (loggers idx) (loggerId r) \<in> set ns"
    "threadId r \<in> resolveIds (threads idx) ns \<longleftrightarrow> nameOf (threads idx) (threadId r) \<in> set ns" for ns
    using assms resolveIds_names by (auto simp: known_def)
  ultimately show ?thesis
    unfolding integer_axes by (simp add: resolve_criteria_def Let_def)
qed

text \<open>Where a missing field passes, collapsing the axes that narrow nothing changes no
  answer: when an axis said to cover everything does hold the name of the record at hand, the
  collapsed filter accepts exactly the records the full one accepts.\<close>

theorem criteria_collapse_exact:
  assumes "intern_wf (loggers idx)" and "intern_wf (threads idx)" and "known idx r"
    and "loggerCoversAll c \<longrightarrow> loggerId r = 0 \<or> nameOf (loggers idx) (loggerId r) \<in> set (loggerNames c)"
    and "threadCoversAll c \<longrightarrow> threadId r = 0 \<or> nameOf (threads idx) (threadId r) \<in> set (threadNames c)"
  shows "fst (accepts eng (resolve_criteria utc c idx f Matches Collapse) r msg) =
    fst (accepts eng (resolve_criteria utc c idx f Matches Keep) r msg)"
proof -
  have "loggerId r \<in> resolveIds (loggers idx) ns \<longleftrightarrow> nameOf (loggers idx) (loggerId r) \<in> set ns"
    "threadId r \<in> resolveIds (threads idx) ns \<longleftrightarrow> nameOf (threads idx) (threadId r) \<in> set ns" for ns
    using assms(1-3) resolveIds_names by (auto simp: known_def)
  then have "axis_admits (e \<and> \<not> loggerCoversAll c) (loggerId r = 0) True (loggerId r \<in> resolveIds (loggers idx) (loggerNames c)) \<longleftrightarrow>
      axis_admits e (loggerId r = 0) True (loggerId r \<in> resolveIds (loggers idx) (loggerNames c))"
    and "axis_admits (e \<and> \<not> threadCoversAll c \<and> x) (threadId r = 0) True (threadId r \<in> resolveIds (threads idx) (threadNames c)) \<longleftrightarrow>
      axis_admits (e \<and> x) (threadId r = 0) True (threadId r \<in> resolveIds (threads idx) (threadNames c))" for e x
    using assms(4,5) by (auto simp: axis_admits_def)
  moreover have "axis_admits (e \<and> c_minPriority c \<noteq> Trace) (prio r = Unknown) True (c_minPriority c \<le> prio r) \<longleftrightarrow>
      axis_admits e (prio r = Unknown) True (c_minPriority c \<le> prio r)" for e
    by (cases "prio r") (auto simp: axis_admits_def less_eq_priority_def)
  ultimately have "acceptsIntegerAxes (resolve_criteria utc c idx f Matches Collapse) r =
      acceptsIntegerAxes (resolve_criteria utc c idx f Matches Keep) r"
    unfolding integer_axes by (simp add: resolve_criteria_def kPriorityByIndex_def Let_def)
  moreover have "text_axis (resolve_criteria utc c idx f Matches n) = c_text c" for n
    by (simp add: resolve_criteria_def Let_def)
  ultimately show ?thesis by (simp add: accepts_def acceptsText_def)
qed

definition sample_criteria :: match_criteria where
  "sample_criteria = \<lparr>c_priorityEnabled = True, c_minPriority = Warn, c_loggerEnabled = True, loggerNames = [''db''],
     c_threadEnabled = True, threadNames = [], loggerCoversAll = False, threadCoversAll = True,
     loggerRestrictive = True, threadRestrictive = False, c_timeEnabled = True, c_start = Some 5, c_end = None,
     c_text = \<lparr>tf_enabled = True, tf_negate = False,
       tf_matcher = \<lparr>m_pattern = ''x'', m_regex = False, m_cs = True, m_re = None, m_valid = True\<rparr>\<rparr>\<rparr>"

definition sample_tables :: record_index where
  "sample_tables = \<lparr>records = [], loggers = fst (intern intern_empty ''db''), threads = intern_empty, m_blockSums = []\<rparr>"

definition sample_hit :: log_record where
  "sample_hit = \<lparr>offset = 0, timestamp = 10, byteLength = 5, loggerId = 1, threadId = 0, lineCount = 1, prio = Error\<rparr>"

lemma sample_tables_ok: "intern_wf (loggers sample_tables)" "intern_wf (threads sample_tables)" "known sample_tables sample_hit"
proof -
  show "intern_wf (threads sample_tables)" by (simp add: sample_tables_def intern_empty_wf)
  show "intern_wf (loggers sample_tables)"
    unfolding sample_tables_def record_index.select_convs
    by (rule intern_wf_step [OF intern_empty_wf]) (simp add: intern_empty_def)
  show "known sample_tables sample_hit"
    by (simp add: known_def sample_tables_def sample_hit_def intern_def intern_empty_def qint64_min_def qint64_max_def)
qed

theorem criteria_match_names_witness:
  "acceptsIntegerAxes (resolve_criteria Some sample_criteria sample_tables hash_format Matches Keep) sample_hit"
  unfolding criteria_match_names [OF sample_tables_ok]
  by (simp add: sample_criteria_def sample_hit_def sample_tables_def axis_admits_def within_def nameOf_def intern_def
      intern_empty_def hash_format_def kNoTimestamp_def qint64_min_def qint64_max_def less_eq_priority_def)

theorem criteria_collapse_exact_witness:
  "fst (accepts plain_engine (resolve_criteria Some sample_criteria sample_tables hash_format Matches Collapse) sample_hit (\<lambda>r. ''x'')) =
   fst (accepts plain_engine (resolve_criteria Some sample_criteria sample_tables hash_format Matches Keep) sample_hit (\<lambda>r. ''x''))"
  by (rule criteria_collapse_exact [OF sample_tables_ok]) (simp_all add: sample_criteria_def sample_hit_def)

section \<open>Storing criteria\<close>

lemma insert_if_apply [simp]: "insert_if b k v m x = (if b \<and> x = k then Some v else m x)"
  by (simp add: insert_if_def)

lemma choice_roundtrip: "p \<noteq> Unknown \<Longrightarrow> choice_at (choice_indexOf p) = p"
  by (cases p) (simp_all add: choice_at_def choice_indexOf_def choice_count_def kPriorityByIndex_def numeral_eq_Suc)

lemma choice_index_int32: "int32 (choice_indexOf p)"
  by (cases p) (simp_all add: choice_indexOf_def kPriorityByIndex_def int32_def)

lemma arrayToNames_names:
  assumes "distinct ns" and "[] \<notin> set ns"
  shows "arrayToNames (map JStr ns) = ns"
proof -
  have "fold (\<lambda>v out. let s = toString (Some v) in if s \<noteq> [] \<and> s \<notin> set out then out @ [s] else out) (map JStr ns) out =
      out @ ns" if "distinct (out @ ns)" "[] \<notin> set ns" for out
    using that by (induction ns arbitrary: out) auto
  from this [of "[]"] assms show ?thesis by (simp add: arrayToNames_def)
qed

text \<open>The names the text box and the value lists hold, as the editor makes them.\<close>

definition storable :: "regex_engine \<Rightarrow> match_criteria \<Rightarrow> bool" where
  "storable eng c \<longleftrightarrow> c_minPriority c \<noteq> Unknown \<and>
     distinct (loggerNames c) \<and> [] \<notin> set (loggerNames c) \<and> distinct (threadNames c) \<and> [] \<notin> set (threadNames c) \<and>
     tf_matcher (c_text c) =
       matcher_set eng (m_pattern (tf_matcher (c_text c))) (m_regex (tf_matcher (c_text c))) (m_cs (tf_matcher (c_text c)))"

text \<open>Criteria as an editor makes them come back from their JSON form unchanged but for the
  order of their names, which are sorted: coverage and restriction of a selection, whose keys are
  written only when needed, included. The dates are as their ISO text reads back.\<close>

theorem criteria_storage:
  assumes "storable eng c" and "\<And>ns. distinct (sort_ci ns) = distinct ns" and "\<And>ns. set (sort_ci ns) = set ns"
  shows "criteria_fromJson eng from_iso (criteria_toJson sort_ci iso_date c) =
    c\<lparr>loggerNames := sort_ci (loggerNames c), threadNames := sort_ci (threadNames c),
      c_start := from_iso (iso_date (c_start c)), c_end := from_iso (iso_date (c_end c))\<rparr>"
proof -
  let ?o = "criteria_toJson sort_ci iso_date c"
  have empty: "sort_ci ns = [] \<longleftrightarrow> ns = []" for ns using assms(3) [of ns] by (metis set_empty)
  have lookups:
    "?o ''priorityEnabled'' = Some (JBool (c_priorityEnabled c))"
    "?o ''minPriorityIndex'' = Some (JNum (choice_indexOf (c_minPriority c)))"
    "?o ''loggerEnabled'' = Some (JBool (c_loggerEnabled c))"
    "?o ''loggerChecked'' = Some (JArr (map JStr (sort_ci (loggerNames c))))"
    "?o ''threadEnabled'' = Some (JBool (c_threadEnabled c))"
    "?o ''threadChecked'' = Some (JArr (map JStr (sort_ci (threadNames c))))"
    "?o ''loggerRestrictive'' = (if loggerRestrictive c then Some (JBool True) else None)"
    "?o ''threadRestrictive'' = (if threadRestrictive c then Some (JBool True) else None)"
    "?o ''loggerCoversAll'' = (if loggerCoversAll c \<noteq> (loggerNames c = []) then Some (JBool (loggerCoversAll c)) else None)"
    "?o ''threadCoversAll'' = (if threadCoversAll c \<noteq> (threadNames c = []) then Some (JBool (threadCoversAll c)) else None)"
    "?o ''textEnabled'' = Some (JBool (tf_enabled (c_text c)))" "?o ''text'' = Some (JStr (m_pattern (tf_matcher (c_text c))))"
    "?o ''textRegex'' = Some (JBool (m_regex (tf_matcher (c_text c))))" "?o ''textCase'' = Some (JBool (m_cs (tf_matcher (c_text c))))"
    "?o ''textNegate'' = Some (JBool (tf_negate (c_text c)))" "?o ''timeEnabled'' = Some (JBool (c_timeEnabled c))"
    "?o ''timeStart'' = Some (JStr (iso_date (c_start c)))" "?o ''timeEnd'' = Some (JStr (iso_date (c_end c)))"
    by (simp_all add: criteria_toJson_def namesToArray_def Let_def)
  have names: "arrayToNames (map JStr (sort_ci (loggerNames c))) = sort_ci (loggerNames c)"
    "arrayToNames (map JStr (sort_ci (threadNames c))) = sort_ci (threadNames c)"
    using assms by (simp_all add: storable_def arrayToNames_names)
  have prio: "choice_at (toInt 0 (Some (JNum (choice_indexOf (c_minPriority c))))) = c_minPriority c"
    using assms(1) choice_index_int32 by (simp add: storable_def choice_roundtrip)
  have query: "\<lparr>tf_enabled = tf_enabled (c_text c), tf_negate = tf_negate (c_text c),
      tf_matcher = matcher_set eng (m_pattern (tf_matcher (c_text c))) (m_regex (tf_matcher (c_text c))) (m_cs (tf_matcher (c_text c)))\<rparr> =
      c_text c"
    using assms(1) by (simp add: storable_def)
  show ?thesis
    unfolding criteria_fromJson_def lookups toString.simps toArray.simps toBool.simps Let_def names prio empty query
    by (cases c) auto
qed

theorem criteria_storage_witness:
  "criteria_fromJson plain_engine (\<lambda>s. if s = [] then None else Some 5)
     (criteria_toJson (\<lambda>ns. ns) (\<lambda>b. if b = None then [] else ''5'') sample_criteria) = sample_criteria"
proof -
  have "storable plain_engine sample_criteria" by (simp add: storable_def sample_criteria_def matcher_set_def)
  from criteria_storage [OF this, of "\<lambda>ns. ns" "\<lambda>s. if s = [] then None else Some 5" "\<lambda>b. if b = None then [] else ''5''"]
  show ?thesis by (simp add: sample_criteria_def)
qed

end
