(* ===== verification/Geometry.thy ===== *)
theory Geometry
  imports BlockIndex
begin

text \<open>
  \<open>src/core/EstimatedGeometry\<close>: the line geometry of the wrapped view, exact for the records that have
  been measured and estimated for the others. The class holds a pointer to the live index; here the
  index as it is at the call is an argument and \<open>g_bound\<close> says whether the pointer is set. The
  arithmetic of \<open>double\<close> is a parameter, \<open>floats\<close>: nothing proved here depends on how it rounds.
\<close>

section \<open>State\<close>

record 'd floats =
  fp_of :: "int \<Rightarrow> 'd"
  fp_mul :: "'d \<Rightarrow> 'd \<Rightarrow> 'd"
  fp_div :: "'d \<Rightarrow> 'd \<Rightarrow> 'd"
  fp_less :: "'d \<Rightarrow> 'd \<Rightarrow> bool"
  llround :: "'d \<Rightarrow> int"
  fp_trunc :: "'d \<Rightarrow> int"

record geometry =
  g_bound :: bool
  m_wrapWidth :: int
  m_blockPhysical :: "int list"
  m_blockLines :: "int list"
  m_blockMeasuredPhysical :: "int list"
  m_recordLines :: "nat \<rightharpoonup> 16 word list"
  m_prefix :: "int list"
  m_total :: int
  m_measuredVisual :: int
  m_measuredPhysical :: int
  m_measuredBlocks :: int
  m_boundRecords :: nat
  m_tailLines :: nat

definition geometry_default :: geometry where
  "geometry_default = \<lparr>g_bound = False, m_wrapWidth = 1, m_blockPhysical = [], m_blockLines = [],
     m_blockMeasuredPhysical = [], m_recordLines = Map.empty, m_prefix = [], m_total = 0,
     m_measuredVisual = 0, m_measuredPhysical = 0, m_measuredBlocks = 0, m_boundRecords = 0, m_tailLines = 0\<rparr>"

definition geometry_clear :: "geometry \<Rightarrow> geometry" where
  "geometry_clear g = geometry_default\<lparr>m_wrapWidth := m_wrapWidth g\<rparr>"

section \<open>Blocks\<close>

definition blockOfRecord :: "nat \<Rightarrow> nat" where
  "blockOfRecord r = r div kBlockSize"

definition blockStartRecord :: "nat \<Rightarrow> nat" where
  "blockStartRecord block = block * kBlockSize"

definition recordsInBlock :: "record_index \<Rightarrow> geometry \<Rightarrow> nat \<Rightarrow> nat" where
  "recordsInBlock idx g block =
     (if \<not> g_bound g then 0
      else (let n = length (records idx); start = block * kBlockSize
            in min (start + kBlockSize) n - start))"

definition measuredRecordsInBlock :: "geometry \<Rightarrow> nat \<Rightarrow> nat" where
  "measuredRecordsInBlock g block =
     (if length (m_blockLines g) \<le> block then 0
      else (case m_recordLines g block of None \<Rightarrow> 0 | Some lines \<Rightarrow> length lines))"

definition isBlockMeasured :: "record_index \<Rightarrow> geometry \<Rightarrow> nat \<Rightarrow> bool" where
  "isBlockMeasured idx g block =
     (let count = recordsInBlock idx g block in 0 < count \<and> measuredRecordsInBlock g block = count)"

definition expansionFactor :: "'d floats \<Rightarrow> geometry \<Rightarrow> 'd" where
  "expansionFactor fp g =
     (if m_measuredPhysical g \<le> 0 then fp_of fp 1
      else (let f = fp_div fp (fp_of fp (m_measuredVisual g)) (fp_of fp (m_measuredPhysical g))
            in if fp_less fp f (fp_of fp 1) then fp_of fp 1 else f))"

definition blockLines :: "'d floats \<Rightarrow> record_index \<Rightarrow> geometry \<Rightarrow> nat \<Rightarrow> int" where
  "blockLines fp idx g block =
     (if length (m_blockPhysical g) \<le> block then 0
      else (let measured = max 0 (m_blockLines g ! block) in
            if isBlockMeasured idx g block then measured
            else (let rest = max 0 (m_blockPhysical g ! block - m_blockMeasuredPhysical g ! block);
                      est = fp_mul fp (fp_of fp rest) (expansionFactor fp g)
                  in measured + max rest (llround fp est))))"

text \<open>The running sum before each of the blocks \<open>b\<close>, \<open>b + 1\<close>, \<open>\<dots>\<close>, and the total last.\<close>

fun prefix_from :: "(nat \<Rightarrow> int) \<Rightarrow> nat \<Rightarrow> nat \<Rightarrow> int \<Rightarrow> int list" where
  "prefix_from f b 0 acc = [acc]"
| "prefix_from f b (Suc k) acc = acc # prefix_from f (Suc b) k (acc + f b)"

definition geometry_rebuild :: "'d floats \<Rightarrow> record_index \<Rightarrow> geometry \<Rightarrow> geometry" where
  "geometry_rebuild fp idx g =
     (let p = prefix_from (blockLines fp idx g) 0 (length (m_blockPhysical g)) 0
      in g\<lparr>m_prefix := p, m_total := last p\<rparr>)"

definition physical_of_block :: "record_index \<Rightarrow> nat \<Rightarrow> int" where
  "physical_of_block idx b =
     (let start = b * kBlockSize; e = min (start + kBlockSize) (length (records idx))
      in firstLineOfRecord idx (int e) - firstLineOfRecord idx (int start))"

definition tail_height :: "record_index \<Rightarrow> nat" where
  "tail_height idx = (if records idx = [] then 0 else displayLines (last (records idx)))"

definition geometry_reset :: "'d floats \<Rightarrow> record_index option \<Rightarrow> geometry \<Rightarrow> int \<Rightarrow> geometry" where
  "geometry_reset fp bound g0 wrapWidth =
     (let g = (geometry_clear g0)\<lparr>g_bound := (bound \<noteq> None), m_wrapWidth := max 1 wrapWidth\<rparr> in
      case bound of
        None \<Rightarrow> g
      | Some idx \<Rightarrow>
          (let n = length (records idx); blocks = (n + kBlockSize - 1) div kBlockSize
           in geometry_rebuild fp idx
                (g\<lparr>m_blockPhysical := map (physical_of_block idx) [0..<blocks],
                   m_blockLines := replicate blocks (- 1), m_blockMeasuredPhysical := replicate blocks 0,
                   m_boundRecords := n, m_tailLines := tail_height idx\<rparr>)))"

section \<open>Width and measurements\<close>

definition invalidateMeasurements :: "'d floats \<Rightarrow> record_index \<Rightarrow> geometry \<Rightarrow> geometry" where
  "invalidateMeasurements fp idx g =
     geometry_rebuild fp idx
       (g\<lparr>m_blockLines := replicate (length (m_blockLines g)) (- 1),
          m_blockMeasuredPhysical := replicate (length (m_blockMeasuredPhysical g)) 0,
          m_recordLines := Map.empty, m_measuredVisual := 0, m_measuredPhysical := 0, m_measuredBlocks := 0\<rparr>)"

definition setWrapWidth :: "'d floats \<Rightarrow> record_index \<Rightarrow> geometry \<Rightarrow> int \<Rightarrow> geometry \<times> bool" where
  "setWrapWidth fp idx g wrapWidth =
     (let w = max 1 wrapWidth in
      if w = m_wrapWidth g then (g, False)
      else (invalidateMeasurements fp idx (g\<lparr>m_wrapWidth := w\<rparr>), True))"

definition setBlockMeasurement :: "record_index \<Rightarrow> geometry \<Rightarrow> nat \<Rightarrow> 16 word list \<Rightarrow> geometry" where
  "setBlockMeasurement idx g block lines =
     (if lines = [] then
        g\<lparr>m_recordLines := (m_recordLines g)(block := None),
          m_blockLines := (m_blockLines g)[block := - 1],
          m_blockMeasuredPhysical := (m_blockMeasuredPhysical g)[block := 0]\<rparr>
      else
        (let start = blockStartRecord block
         in g\<lparr>m_recordLines := (m_recordLines g)(block \<mapsto> lines),
              m_blockLines := (m_blockLines g)[block := sum_list (map uint lines)],
              m_blockMeasuredPhysical := (m_blockMeasuredPhysical g)
                [block := sum_list (map (\<lambda>i. int (displayLines (records idx ! (start + i)))) [0..<length lines])]\<rparr>))"

definition refreshTotals :: "'d floats \<Rightarrow> record_index \<Rightarrow> geometry \<Rightarrow> geometry" where
  "refreshTotals fp idx g =
     (let bs = [0..<length (m_blockLines g)];
          seen = filter (\<lambda>b. 0 \<le> m_blockLines g ! b) bs
      in geometry_rebuild fp idx
           (g\<lparr>m_measuredVisual := sum_list (map (\<lambda>b. m_blockLines g ! b) seen),
              m_measuredPhysical := sum_list (map (\<lambda>b. m_blockMeasuredPhysical g ! b) seen),
              m_measuredBlocks := int (length (filter (isBlockMeasured idx g) bs))\<rparr>))"

definition measureBlock ::
  "'d floats \<Rightarrow> record_index \<Rightarrow> geometry \<Rightarrow> nat \<Rightarrow> 16 word list \<Rightarrow> int \<Rightarrow> geometry" where
  "measureBlock fp idx g block visualLines first0 =
     (if \<not> g_bound g \<or> length (m_blockLines g) \<le> block then g
      else
        (let count = recordsInBlock idx g block in
         if count = 0 then g
         else
           (let first = nat (max first0 0); got = measuredRecordsInBlock g block in
            if got < first then g
            else if first = 0 \<and> got = count then g
            else
              (let cached = (case m_recordLines g block of None \<Rightarrow> [] | Some l \<Rightarrow> l);
                   lines = resize first 0 cached;
                   lines' = lines @ take (count - length lines) visualLines
               in refreshTotals fp idx (setBlockMeasurement idx g block lines')))))"

definition truncateBlockMeasurement :: "record_index \<Rightarrow> geometry \<Rightarrow> nat \<Rightarrow> nat \<Rightarrow> geometry" where
  "truncateBlockMeasurement idx g block keep =
     (if length (m_blockLines g) \<le> block then g
      else (case m_recordLines g block of
              None \<Rightarrow> g
            | Some cached \<Rightarrow> if length cached \<le> keep then g
                             else setBlockMeasurement idx g block (resize keep 0 cached)))"

definition syncTail :: "'d floats \<Rightarrow> record_index \<Rightarrow> geometry \<Rightarrow> geometry \<times> bool" where
  "syncTail fp idx g =
     (if \<not> g_bound g then (g, False)
      else
        (let n = length (records idx); tail = tail_height idx in
         if n = m_boundRecords g \<and> tail = m_tailLines g then (g, False)
         else
           (let firstDirty = min (m_boundRecords g) n - 1;
                firstBlock = firstDirty div kBlockSize;
                blocks = (n + kBlockSize - 1) div kBlockSize;
                had = length (m_blockLines g);
                bl = map (\<lambda>b. if firstBlock < b then - 1 else m_blockLines g ! b) [0..<had];
                bp = map (\<lambda>b. if firstBlock < b then 0 else m_blockMeasuredPhysical g ! b) [0..<had];
                g1 = g\<lparr>m_boundRecords := n, m_tailLines := tail,
                       m_recordLines := (\<lambda>b. if firstBlock < b \<or> blocks \<le> b then None else m_recordLines g b),
                       m_blockLines := resize blocks (- 1) bl,
                       m_blockMeasuredPhysical := resize blocks 0 bp,
                       m_blockPhysical := map (\<lambda>b. if firstBlock \<le> b then physical_of_block idx b
                          else resize blocks 0 (m_blockPhysical g) ! b) [0..<blocks]\<rparr>;
                g2 = truncateBlockMeasurement idx g1 firstBlock (firstDirty - firstBlock * kBlockSize)
            in (refreshTotals fp idx g2, True))))"

section \<open>Mapping\<close>

definition geometry_firstLine :: "'d floats \<Rightarrow> record_index \<Rightarrow> geometry \<Rightarrow> int \<Rightarrow> int" where
  "geometry_firstLine fp idx g r =
     (if \<not> g_bound g \<or> r \<le> 0 \<or> records idx = [] then 0
      else if int (length (records idx)) \<le> r then m_total g
      else
        (let block = blockOfRecord (nat r); start = blockStartRecord block; base = m_prefix g ! block;
             got = measuredRecordsInBlock g block
         in if nat r - start \<le> got then
              base + (case m_recordLines g block of None \<Rightarrow> 0
                      | Some lines \<Rightarrow> sum_list (map uint (take (nat r - start) lines)))
            else
              (let exact = max 0 (m_blockLines g ! block);
                   physMeasured = m_blockMeasuredPhysical g ! block;
                   physRest = m_blockPhysical g ! block - physMeasured;
                   estRest = blockLines fp idx g block - exact
               in if physRest \<le> 0 then base + exact
                  else
                    (let physBefore = firstLineOfRecord idx r - firstLineOfRecord idx (int start) - physMeasured
                     in base + exact +
                        llround fp (fp_div fp (fp_mul fp (fp_of fp (max 0 physBefore)) (fp_of fp estRest)) (fp_of fp physRest))))))"

text \<open>The walks inside a block: the first position at which the running sum passes \<open>target\<close>.\<close>

fun first_past :: "int list \<Rightarrow> int \<Rightarrow> int \<Rightarrow> nat \<Rightarrow> nat option" where
  "first_past [] target acc i = None"
| "first_past (h # hs) target acc i =
     (if target < acc + h then Some i else first_past hs target (acc + h) (Suc i))"

definition geometry_recordAtLine :: "'d floats \<Rightarrow> record_index \<Rightarrow> geometry \<Rightarrow> int \<Rightarrow> int" where
  "geometry_recordAtLine fp idx g line =
     (let n = length (records idx) in
      if \<not> g_bound g then - 1
      else if n = 0 then - 1
      else if line \<le> 0 then 0
      else if m_total g \<le> line then int n - 1
      else
        (let block = search_last (\<lambda>mid. m_prefix g ! mid \<le> line) 0 (length (m_blockPhysical g) - 1);
             start = blockStartRecord block;
             count = recordsInBlock idx g block;
             local = line - m_prefix g ! block;
             got = min (measuredRecordsInBlock g block) count;
             exact = max 0 (m_blockLines g ! block);
             hit = (case m_recordLines g block of
                      None \<Rightarrow> None
                    | Some lines \<Rightarrow> if local < exact then first_past (map uint (take got lines)) local 0 0 else None)
         in case hit of
              Some i \<Rightarrow> int (start + i)
            | None \<Rightarrow>
                if count \<le> got then int start + int count - 1
                else
                  (let physRest = m_blockPhysical g ! block - m_blockMeasuredPhysical g ! block;
                       estRest = blockLines fp idx g block - exact
                   in if physRest \<le> 0 \<or> estRest \<le> 0 then int (start + got)
                      else
                        (let localRest = max 0 (local - exact);
                             targetPhys = fp_trunc fp (fp_div fp (fp_mul fp (fp_of fp localRest) (fp_of fp physRest)) (fp_of fp estRest))
                         in case first_past (map (\<lambda>i. int (displayLines (records idx ! (start + i)))) [got..<count])
                                   targetPhys 0 got of
                              Some i \<Rightarrow> int (start + i)
                            | None \<Rightarrow> int start + int count - 1))))"

definition recordHeightLines :: "'d floats \<Rightarrow> record_index \<Rightarrow> geometry \<Rightarrow> int \<Rightarrow> int" where
  "recordHeightLines fp idx g r =
     (if \<not> g_bound g \<or> r < 0 \<or> int (length (records idx)) \<le> r then 1
      else
        (let block = blockOfRecord (nat r); i = nat r - blockStartRecord block;
             estimate = (let phys = int (displayLines (records idx ! nat r));
                             est = llround fp (fp_mul fp (fp_of fp phys) (expansionFactor fp g))
                         in max 1 (min (int kDisplayLineCap) (max phys est)))
         in case m_recordLines g block of
              None \<Rightarrow> estimate
            | Some lines \<Rightarrow> if i < length lines then uint (lines ! i) else estimate))"

section \<open>The invariant\<close>

definition meas_phys :: "record_index \<Rightarrow> nat \<Rightarrow> nat \<Rightarrow> int" where
  "meas_phys idx b k = sum_list (map (\<lambda>i. int (displayLines (records idx ! (blockStartRecord b + i)))) [0..<k])"

definition block_size :: "record_index \<Rightarrow> nat \<Rightarrow> nat" where
  "block_size idx b = min (b * kBlockSize + kBlockSize) (length (records idx)) - b * kBlockSize"

definition block_ok :: "record_index \<Rightarrow> geometry \<Rightarrow> nat \<Rightarrow> bool" where
  "block_ok idx g b \<longleftrightarrow>
     m_blockPhysical g ! b = physical_of_block idx b \<and>
     (case m_recordLines g b of
        None \<Rightarrow> m_blockLines g ! b = - 1 \<and> m_blockMeasuredPhysical g ! b = 0
      | Some ls \<Rightarrow> ls \<noteq> [] \<and> length ls \<le> block_size idx b \<and> m_blockLines g ! b = sum_list (map uint ls) \<and>
          m_blockMeasuredPhysical g ! b = meas_phys idx b (length ls))"

definition shape_ok :: "record_index \<Rightarrow> geometry \<Rightarrow> bool" where
  "shape_ok idx g \<longleftrightarrow> g_bound g \<and>
     length (m_blockPhysical g) = nblocks (length (records idx)) \<and>
     length (m_blockLines g) = nblocks (length (records idx)) \<and>
     length (m_blockMeasuredPhysical g) = nblocks (length (records idx)) \<and>
     (\<forall>b. nblocks (length (records idx)) \<le> b \<longrightarrow> m_recordLines g b = None) \<and>
     m_boundRecords g = length (records idx) \<and> m_tailLines g = tail_height idx"

definition core_ok :: "record_index \<Rightarrow> geometry \<Rightarrow> bool" where
  "core_ok idx g \<longleftrightarrow> shape_ok idx g \<and> (\<forall>b < nblocks (length (records idx)). block_ok idx g b)"

text \<open>The aggregates, the running sums and the total follow from the blocks.\<close>

definition geometry_ok :: "'d floats \<Rightarrow> record_index \<Rightarrow> geometry \<Rightarrow> bool" where
  "geometry_ok fp idx g \<longleftrightarrow> core_ok idx g \<and> refreshTotals fp idx g = g"

text \<open>A refresh keeps the blocks and depends on nothing else.\<close>

definition basics :: "geometry \<Rightarrow> bool \<times> int \<times> int list \<times> int list \<times> int list \<times> (nat \<rightharpoonup> 16 word list) \<times> nat \<times> nat" where
  "basics g = (g_bound g, m_wrapWidth g, m_blockPhysical g, m_blockLines g, m_blockMeasuredPhysical g,
     m_recordLines g, m_boundRecords g, m_tailLines g)"

lemma basics_refresh [simp]: "basics (refreshTotals fp idx g) = basics g"
  by (simp add: basics_def refreshTotals_def geometry_rebuild_def Let_def)

lemma measured_cong: "basics g = basics g' \<Longrightarrow> isBlockMeasured idx g = isBlockMeasured idx g'"
  by (simp add: fun_eq_iff basics_def isBlockMeasured_def recordsInBlock_def measuredRecordsInBlock_def)

lemma blockLines_cong:
  assumes "basics g = basics g'" and "m_measuredVisual g = m_measuredVisual g'" and "m_measuredPhysical g = m_measuredPhysical g'"
  shows "blockLines fp idx g = blockLines fp idx g'"
  using assms measured_cong [OF assms(1), of idx]
  by (simp add: fun_eq_iff basics_def blockLines_def expansionFactor_def Let_def)

lemma refresh_cong:
  assumes "basics g = basics g'"
  shows "refreshTotals fp idx g = refreshTotals fp idx g'"
proof -
  note same = measured_cong [OF assms, of idx]
  let ?f = "\<lambda>g v q k. g\<lparr>m_measuredVisual := v, m_measuredPhysical := q, m_measuredBlocks := k\<rparr>"
  have lines: "blockLines fp idx (?f g v q k) = blockLines fp idx (?f g' v q k)" for v q k
    by (rule blockLines_cong) (use assms in \<open>simp_all add: basics_def\<close>)
  show ?thesis
    using assms lines same unfolding refreshTotals_def geometry_rebuild_def Let_def
    by (cases g; cases g') (simp add: basics_def)
qed

lemma refresh_idem: "refreshTotals fp idx (refreshTotals fp idx g) = refreshTotals fp idx g"
  by (rule refresh_cong) simp

lemma refresh_core: "core_ok idx (refreshTotals fp idx g) = core_ok idx g"
  by (simp add: core_ok_def shape_ok_def block_ok_def refreshTotals_def geometry_rebuild_def Let_def cong: option.case_cong)

lemma refresh_ok: "core_ok idx g \<Longrightarrow> geometry_ok fp idx (refreshTotals fp idx g)"
  by (simp add: geometry_ok_def refresh_idem refresh_core)

lemma fresh_refresh:
  assumes "\<And>b. m_recordLines g b = None" and "m_blockLines g = replicate k (- 1)"
    and "m_measuredVisual g = 0" and "m_measuredPhysical g = 0" and "m_measuredBlocks g = 0"
  shows "refreshTotals fp idx g = geometry_rebuild fp idx g"
proof -
  have "\<not> isBlockMeasured idx g b" for b
    using assms(1) by (auto simp: isBlockMeasured_def measuredRecordsInBlock_def Let_def)
  moreover have "filter (\<lambda>b. 0 \<le> m_blockLines g ! b) [0..<length (m_blockLines g)] = []"
    unfolding assms(2) by (simp add: filter_empty_conv)
  moreover have "g\<lparr>m_measuredVisual := 0, m_measuredPhysical := 0, m_measuredBlocks := 0\<rparr> = g"
    using assms(3-5) by (cases g) simp
  ultimately show ?thesis by (simp add: refreshTotals_def Let_def)
qed

lemma nblocks_alt: "(n + kBlockSize - 1) div kBlockSize = nblocks n"
  by (simp add: nblocks_def)

lemma reset_ok: "geometry_ok fp idx (geometry_reset fp (Some idx) g w)"
proof -
  let ?g = "(geometry_clear g)\<lparr>g_bound := True, m_wrapWidth := max 1 w,
      m_blockPhysical := map (physical_of_block idx) [0..<nblocks (length (records idx))],
      m_blockLines := replicate (nblocks (length (records idx))) (- 1),
      m_blockMeasuredPhysical := replicate (nblocks (length (records idx))) 0,
      m_boundRecords := length (records idx), m_tailLines := tail_height idx\<rparr>"
  have "refreshTotals fp idx ?g = geometry_rebuild fp idx ?g"
    by (rule fresh_refresh) (simp_all add: geometry_clear_def geometry_default_def)
  moreover have "core_ok idx ?g"
    by (simp add: core_ok_def shape_ok_def block_ok_def geometry_clear_def geometry_default_def)
  ultimately have "geometry_ok fp idx (geometry_rebuild fp idx ?g)" using refresh_ok by metis
  then show ?thesis unfolding geometry_reset_def nblocks_alt Let_def by simp
qed

lemma invalidate_ok:
  assumes "core_ok idx g"
  shows "geometry_ok fp idx (invalidateMeasurements fp idx g)"
proof -
  let ?g = "g\<lparr>m_blockLines := replicate (length (m_blockLines g)) (- 1),
      m_blockMeasuredPhysical := replicate (length (m_blockMeasuredPhysical g)) 0,
      m_recordLines := Map.empty, m_measuredVisual := 0, m_measuredPhysical := 0, m_measuredBlocks := 0\<rparr>"
  have "refreshTotals fp idx ?g = geometry_rebuild fp idx ?g"
    by (rule fresh_refresh) simp_all
  moreover have "core_ok idx ?g"
    using assms by (simp add: core_ok_def shape_ok_def block_ok_def)
  ultimately have "geometry_ok fp idx (geometry_rebuild fp idx ?g)" using refresh_ok by metis
  then show ?thesis by (simp add: invalidateMeasurements_def)
qed

lemma width_core: "core_ok idx (g\<lparr>m_wrapWidth := w\<rparr>) = core_ok idx g"
  by (simp add: core_ok_def shape_ok_def block_ok_def cong: option.case_cong)

lemma setWrapWidth_ok:
  "geometry_ok fp idx g \<Longrightarrow> geometry_ok fp idx (fst (setWrapWidth fp idx g w))"
  by (simp add: setWrapWidth_def Let_def invalidate_ok width_core geometry_ok_def [of fp idx g])

lemma set_block_ok:
  assumes "b < nblocks (length (records idx))" and "shape_ok idx g" and "length lines \<le> block_size idx block"
    and "m_blockPhysical g ! block = physical_of_block idx block" and "b \<noteq> block \<Longrightarrow> block_ok idx g b"
  shows "block_ok idx (setBlockMeasurement idx g block lines) b"
proof (cases "b = block")
  case True
  with assms(1-4) show ?thesis
    by (cases "lines = []") (simp_all add: block_ok_def setBlockMeasurement_def shape_ok_def meas_phys_def Let_def)
next
  case False
  with assms(5) show ?thesis
    by (cases "lines = []") (simp_all add: block_ok_def setBlockMeasurement_def Let_def cong: option.case_cong)
qed

lemma set_block_shape:
  "shape_ok idx g \<Longrightarrow> block < nblocks (length (records idx)) \<Longrightarrow> shape_ok idx (setBlockMeasurement idx g block lines)"
  by (auto simp: shape_ok_def setBlockMeasurement_def Let_def)

lemma set_block_core:
  assumes "core_ok idx g" and "block < nblocks (length (records idx))" and "length lines \<le> block_size idx block"
  shows "core_ok idx (setBlockMeasurement idx g block lines)"
proof -
  have shape: "shape_ok idx g" and blocks: "\<And>b. b < nblocks (length (records idx)) \<Longrightarrow> block_ok idx g b"
    using assms(1) by (auto simp: core_ok_def)
  have "m_blockPhysical g ! block = physical_of_block idx block"
    using blocks [OF assms(2)] by (simp add: block_ok_def)
  then show ?thesis
    using set_block_ok [OF _ shape assms(3)] set_block_shape [OF shape assms(2)] blocks by (auto simp: core_ok_def)
qed

lemma recordsInBlock_size: "g_bound g \<Longrightarrow> recordsInBlock idx g b = block_size idx b"
  by (simp add: recordsInBlock_def block_size_def Let_def)

lemma measureBlock_ok:
  assumes "geometry_ok fp idx g"
  shows "geometry_ok fp idx (measureBlock fp idx g block visual first)"
proof -
  have core: "core_ok idx g" and b: "g_bound g" "length (m_blockLines g) = nblocks (length (records idx))"
    using assms by (auto simp: geometry_ok_def core_ok_def shape_ok_def)
  define cached where "cached = (case m_recordLines g block of None \<Rightarrow> [] | Some l \<Rightarrow> l)"
  define ls where "ls = resize (nat (max first 0)) 0 cached"
  show ?thesis
  proof (cases "block < nblocks (length (records idx)) \<and> nat (max first 0) \<le> measuredRecordsInBlock g block")
    case True
    then have "length cached \<le> block_size idx block" and "nat (max first 0) \<le> length cached"
      using core b by (auto simp: core_ok_def block_ok_def cached_def measuredRecordsInBlock_def split: option.splits)
    then have "length (ls @ take (block_size idx block - length ls) visual) \<le> block_size idx block"
      by (simp add: ls_def)
    from refresh_ok [OF set_block_core [OF core _ this]] True
    have "geometry_ok fp idx (refreshTotals fp idx
        (setBlockMeasurement idx g block (ls @ take (block_size idx block - length ls) visual)))" by blast
    then show ?thesis
      using assms b unfolding measureBlock_def Let_def recordsInBlock_size [OF b(1)] cached_def [symmetric] ls_def [symmetric]
      by (simp del: length_resize)
  next
    case False
    then show ?thesis using assms b by (auto simp: measureBlock_def Let_def)
  qed
qed

section \<open>Following growth\<close>

text \<open>An index that has grown at its tail: records were appended, and the one that was last may have
  changed height.\<close>

definition grown :: "record_index \<Rightarrow> record_index \<Rightarrow> bool" where
  "grown idx idx' \<longleftrightarrow> length (records idx) \<le> length (records idx') \<and>
     take (length (records idx) - 1) (heights idx') = take (length (records idx) - 1) (heights idx)"

lemma physical_block:
  assumes "sums_ok idx" and "b < nblocks (length (records idx))"
  shows "physical_of_block idx b = int (lines_before (heights idx) (min (b * kBlockSize + kBlockSize) (length (records idx)))) -
    int (lines_before (heights idx) (b * kBlockSize))"
proof -
  have le: "b * kBlockSize \<le> length (records idx)" using assms(2) by (simp add: less_nblocks)
  have f: "firstLineOfRecord idx (int i) = int (lines_before (heights idx) i)" if "i \<le> length (records idx)" for i
    using firstLine_spec [OF assms(1), of "int i"] that by simp
  show ?thesis
    unfolding physical_of_block_def Let_def f [OF le] f [OF min.cobounded2] ..
qed

lemma grown_sum:
  assumes "grown idx idx'" and "i \<le> length (records idx) - 1"
  shows "lines_before (heights idx') i = lines_before (heights idx) i"
  using take_agree_sum [of "length (records idx) - 1" "heights idx'" "heights idx" i] assms by (simp add: grown_def)

lemma grown_physical:
  assumes "grown idx idx'" and "sums_ok idx" and "sums_ok idx'" and up: "b * kBlockSize + kBlockSize \<le> length (records idx) - 1"
    and "0 < length (records idx)"
  shows "physical_of_block idx' b = physical_of_block idx b"
proof -
  let ?n = "length (records idx)" and ?n' = "length (records idx')"
  have le: "?n \<le> ?n'" using assms(1) by (simp add: grown_def)
  have e: "min (b * kBlockSize + kBlockSize) ?n = b * kBlockSize + kBlockSize"
    by (rule min_absorb1) (use up in linarith)
  have e': "min (b * kBlockSize + kBlockSize) ?n' = b * kBlockSize + kBlockSize"
    by (rule min_absorb1) (use up le in linarith)
  have lo: "b * kBlockSize \<le> ?n - 1" using up by linarith
  have bn: "b < nblocks ?n" unfolding less_nblocks using lo assms(5) by linarith
  have bn': "b < nblocks ?n'" unfolding less_nblocks using lo assms(5) le by linarith
  show ?thesis
    unfolding physical_block [OF assms(2) bn] physical_block [OF assms(3) bn'] e e'
      grown_sum [OF assms(1) lo] grown_sum [OF assms(1) up] ..
qed

lemma grown_height:
  assumes "grown idx idx'" and "i < length (records idx) - 1"
  shows "displayLines (records idx' ! i) = displayLines (records idx ! i)"
proof -
  have "take (length (records idx) - 1) (heights idx') ! i = take (length (records idx) - 1) (heights idx) ! i"
    using assms(1) by (simp add: grown_def)
  moreover have "i < length (records idx')" "i < length (records idx)" using assms unfolding grown_def by linarith+
  ultimately show ?thesis using assms(2) by simp
qed

lemma grown_meas:
  assumes "grown idx idx'" and "b * kBlockSize + k \<le> length (records idx) - 1"
  shows "meas_phys idx' b k = meas_phys idx b k"
proof -
  have "displayLines (records idx' ! (blockStartRecord b + i)) = displayLines (records idx ! (blockStartRecord b + i))"
    if "i < k" for i
    by (rule grown_height [OF assms(1)]) (use that assms(2) in \<open>simp add: blockStartRecord_def\<close>)
  then show ?thesis unfolding meas_phys_def by (intro arg_cong [of _ _ sum_list] map_cong) auto
qed

lemma same_heights:
  assumes "grown idx idx'" and "length (records idx') = length (records idx)" and "tail_height idx' = tail_height idx"
  shows "heights idx' = heights idx"
proof (rule nth_equalityI)
  show "length (heights idx') = length (heights idx)" using assms(2) by simp
  fix i assume "i < length (heights idx')"
  then have i: "i < length (records idx)" using assms(2) by simp
  show "heights idx' ! i = heights idx ! i"
  proof (cases "i < length (records idx) - 1")
    case True
    with grown_height [OF assms(1) True] i assms(2) show ?thesis by simp
  next
    case False
    with i have "i = length (records idx) - 1" by simp
    moreover have "records idx \<noteq> []" "records idx' \<noteq> []" using i assms(2) by auto
    ultimately show ?thesis using assms(2,3) i by (simp add: tail_height_def last_conv_nth)
  qed
qed

lemma same_index_core:
  assumes "heights idx' = heights idx" and "sums_ok idx" and "sums_ok idx'" and "core_ok idx g"
  shows "core_ok idx' g"
proof -
  have len: "length (records idx') = length (records idx)" using arg_cong [OF assms(1), of length] by simp
  have nth: "displayLines (records idx' ! i) = displayLines (records idx ! i)" if "i < length (records idx)" for i
    using arg_cong [OF assms(1), of "\<lambda>l. l ! i"] that len by simp
  have tail: "tail_height idx' = tail_height idx"
    using assms(1) by (metis last_map map_is_Nil_conv tail_height_def)
  have "physical_of_block idx' b = physical_of_block idx b" if "b < nblocks (length (records idx))" for b
    using physical_block [OF assms(2) that] physical_block [OF assms(3), of b] that assms(1) len by simp
  moreover have "meas_phys idx' b k = meas_phys idx b k" if "k \<le> block_size idx b" for b k
    unfolding meas_phys_def
    by (intro arg_cong [of _ _ sum_list] map_cong) (use that nth in \<open>auto simp: block_size_def blockStartRecord_def\<close>)
  moreover have "block_size idx' b = block_size idx b" for b by (simp add: block_size_def len)
  ultimately show ?thesis
    using assms(4) len tail by (auto simp: core_ok_def shape_ok_def block_ok_def split: option.splits)
qed

lemma refresh_index:
  "length (records idx') = length (records idx) \<Longrightarrow> refreshTotals fp idx' g = refreshTotals fp idx g"
proof -
  assume len: "length (records idx') = length (records idx)"
  have m: "isBlockMeasured idx' = isBlockMeasured idx"
    by (simp add: fun_eq_iff isBlockMeasured_def recordsInBlock_def len)
  then have "blockLines fp idx' = blockLines fp idx"
    by (simp add: fun_eq_iff blockLines_def)
  with m show ?thesis by (simp add: refreshTotals_def geometry_rebuild_def)
qed

text \<open>What a sync does to the blocks before it recounts.\<close>

definition sync_blocks :: "record_index \<Rightarrow> geometry \<Rightarrow> geometry" where
  "sync_blocks idx g =
     (let n = length (records idx); firstDirty = min (m_boundRecords g) n - 1;
          firstBlock = firstDirty div kBlockSize; blocks = nblocks n; had = length (m_blockLines g);
          bl = map (\<lambda>b. if firstBlock < b then - 1 else m_blockLines g ! b) [0..<had];
          bp = map (\<lambda>b. if firstBlock < b then 0 else m_blockMeasuredPhysical g ! b) [0..<had];
          g1 = g\<lparr>m_boundRecords := n, m_tailLines := tail_height idx,
                 m_recordLines := (\<lambda>b. if firstBlock < b \<or> blocks \<le> b then None else m_recordLines g b),
                 m_blockLines := resize blocks (- 1) bl, m_blockMeasuredPhysical := resize blocks 0 bp,
                 m_blockPhysical := map (\<lambda>b. if firstBlock \<le> b then physical_of_block idx b
                    else resize blocks 0 (m_blockPhysical g) ! b) [0..<blocks]\<rparr>
      in truncateBlockMeasurement idx g1 firstBlock (firstDirty - firstBlock * kBlockSize))"

lemma syncTail_blocks:
  "g_bound g \<Longrightarrow> length (records idx) \<noteq> m_boundRecords g \<or> tail_height idx \<noteq> m_tailLines g \<Longrightarrow>
     syncTail fp idx g = (refreshTotals fp idx (sync_blocks idx g), True)"
  by (auto simp: syncTail_def sync_blocks_def nblocks_def Let_def)

lemma truncate_cases:
  "truncateBlockMeasurement idx g block keep = g \<and>
     (block < length (m_blockLines g) \<longrightarrow> (\<forall>c. m_recordLines g block = Some c \<longrightarrow> length c \<le> keep)) \<or>
   (\<exists>c. m_recordLines g block = Some c \<and> keep < length c \<and> block < length (m_blockLines g) \<and>
      truncateBlockMeasurement idx g block keep = setBlockMeasurement idx g block (take keep c))"
  by (auto simp: truncateBlockMeasurement_def resize_take split: option.split)

lemma core_cached:
  assumes "core_ok idx g" and "m_recordLines g b = Some c"
  shows "b < nblocks (length (records idx))" and "length c \<le> block_size idx b"
proof -
  show b: "b < nblocks (length (records idx))"
    using assms by (cases "nblocks (length (records idx)) \<le> b") (auto simp: core_ok_def shape_ok_def)
  then have "block_ok idx g b" using assms(1) by (simp add: core_ok_def)
  then show "length c \<le> block_size idx b" using assms(2) by (simp add: block_ok_def)
qed

lemma sync_core:
  assumes core: "core_ok idx g" and sums: "sums_ok idx" "sums_ok idx'" and grown: "grown idx idx'"
  shows "core_ok idx' (sync_blocks idx' g)"
proof -
  let ?n = "length (records idx)" and ?n' = "length (records idx')"
  define fd where "fd = ?n - 1"
  define fb where "fb = fd div kBlockSize"
  have shape: "g_bound g" "length (m_blockPhysical g) = nblocks ?n" "length (m_blockLines g) = nblocks ?n"
    "length (m_blockMeasuredPhysical g) = nblocks ?n" "\<forall>b. nblocks ?n \<le> b \<longrightarrow> m_recordLines g b = None" "m_boundRecords g = ?n"
    using core by (auto simp: core_ok_def shape_ok_def)
  have le: "?n \<le> ?n'" using grown by (simp add: grown_def)
  have nb: "nblocks ?n \<le> nblocks ?n'" unfolding nblocks_def by (rule div_le_mono) (use le in simp)
  have fb_le: "fb * kBlockSize \<le> fd" "fd < fb * kBlockSize + kBlockSize"
    using dividend_less_div_times [of kBlockSize fd] by (simp_all add: fb_def add.commute)
  have last_block: "b \<le> fb \<longleftrightarrow> b < nblocks ?n" if n: "?n \<noteq> 0" for b
  proof -
    have "b \<le> fb \<longleftrightarrow> b * kBlockSize \<le> ?n - 1"
      unfolding fb_def fd_def by (rule less_eq_div_iff_mult_less_eq) simp
    then show ?thesis unfolding less_nblocks using n by linarith
  qed
  define g1 where "g1 = g\<lparr>m_boundRecords := ?n', m_tailLines := tail_height idx',
      m_recordLines := (\<lambda>b. if fb < b \<or> nblocks ?n' \<le> b then None else m_recordLines g b),
      m_blockLines := resize (nblocks ?n') (- 1) (map (\<lambda>b. if fb < b then - 1 else m_blockLines g ! b) [0..<nblocks ?n]),
      m_blockMeasuredPhysical := resize (nblocks ?n') 0 (map (\<lambda>b. if fb < b then 0 else m_blockMeasuredPhysical g ! b) [0..<nblocks ?n]),
      m_blockPhysical := map (\<lambda>b. if fb \<le> b then physical_of_block idx' b else resize (nblocks ?n') 0 (m_blockPhysical g) ! b)
        [0..<nblocks ?n']\<rparr>"
  have g2: "sync_blocks idx' g = truncateBlockMeasurement idx' g1 fb (fd - fb * kBlockSize)"
    using shape le by (simp add: sync_blocks_def g1_def fd_def fb_def min_absorb1 Let_def)
  have shape1: "shape_ok idx' g1" using shape nb by (auto simp: shape_ok_def g1_def)
  have phys: "m_blockPhysical g1 ! b = physical_of_block idx' b" if b: "b < nblocks ?n'" for b
  proof (cases "fb \<le> b")
    case True
    then show ?thesis using b by (simp add: g1_def)
  next
    case False
    then have n: "?n \<noteq> 0" by (auto simp: fb_def fd_def)
    have bn: "b < nblocks ?n" unfolding last_block [OF n, symmetric] using False by linarith
    have "Suc b \<le> fb" using False by simp
    from mult_le_mono1 [OF this, of kBlockSize] have up: "b * kBlockSize + kBlockSize \<le> ?n - 1"
      using fb_le(1) unfolding fd_def mult_Suc by linarith
    then have "physical_of_block idx' b = physical_of_block idx b"
      by (intro grown_physical [OF grown sums]) (use n in \<open>auto simp only: neq0_conv\<close>)
    moreover have "m_blockPhysical g ! b = physical_of_block idx b" using core bn by (simp add: core_ok_def block_ok_def)
    ultimately show ?thesis using b bn False shape(2) by (simp add: g1_def resize_def nth_append)
  qed
  have fields: "m_recordLines g1 b = (if fb < b then None else m_recordLines g b)"
    "m_blockLines g1 ! b = (if fb < b \<or> nblocks ?n \<le> b then - 1 else m_blockLines g ! b)"
    "m_blockMeasuredPhysical g1 ! b = (if fb < b \<or> nblocks ?n \<le> b then 0 else m_blockMeasuredPhysical g ! b)"
    if "b < nblocks ?n'" for b
    using that shape(5) by (auto simp: g1_def resize_def nth_append)
  have size: "block_size idx b \<le> block_size idx' b" for b
    unfolding block_size_def using le by (simp add: diff_le_mono min_le_iff_disj)
  have kept: "block_ok idx' g1 b"
    if b: "b < nblocks ?n'" and prefix: "\<And>c. b \<le> fb \<Longrightarrow> m_recordLines g b = Some c \<Longrightarrow> b * kBlockSize + length c \<le> fd" for b
  proof (cases "fb < b \<or> m_recordLines g b = None")
    case True
    have "m_blockLines g ! b = - 1 \<and> m_blockMeasuredPhysical g ! b = 0" if "b < nblocks ?n" "m_recordLines g b = None"
      using core that by (auto simp: core_ok_def block_ok_def)
    with True show ?thesis using fields [OF b] phys [OF b] by (auto simp: block_ok_def not_le)
  next
    case False
    then obtain c where c: "m_recordLines g b = Some c" "b \<le> fb" by auto
    have bn: "b < nblocks ?n" using shape(5) c(1) by (cases "nblocks ?n \<le> b") auto
    have "meas_phys idx' b (length c) = meas_phys idx b (length c)"
      by (rule grown_meas [OF grown]) (use prefix [OF c(2,1)] in \<open>simp add: fd_def\<close>)
    moreover have "block_ok idx g b" using core bn by (simp add: core_ok_def)
    ultimately show ?thesis using fields [OF b] phys [OF b] c bn size [of b] by (auto simp: block_ok_def)
  qed
  have before: "b * kBlockSize + length c \<le> fd" if "b < fb" "m_recordLines g b = Some c" for b c
  proof -
    have "length c \<le> kBlockSize" using core_cached(2) [OF core that(2)] unfolding block_size_def by linarith
    moreover have "Suc b * kBlockSize \<le> fb * kBlockSize" by (rule mult_le_mono1) (use that(1) in simp)
    ultimately show ?thesis using fb_le(1) unfolding mult_Suc by linarith
  qed
  from truncate_cases [of idx' g1 fb "fd - fb * kBlockSize"] show ?thesis
  proof
    assume "truncateBlockMeasurement idx' g1 fb (fd - fb * kBlockSize) = g1 \<and>
      (fb < length (m_blockLines g1) \<longrightarrow> (\<forall>c. m_recordLines g1 fb = Some c \<longrightarrow> length c \<le> fd - fb * kBlockSize))"
    then have same: "sync_blocks idx' g = g1" and short: "fb < nblocks ?n' \<Longrightarrow> m_recordLines g fb = Some c \<Longrightarrow> length c \<le> fd - fb * kBlockSize" for c
      using g2 shape1 fields(1) [of fb] by (auto simp: shape_ok_def)
    have "block_ok idx' g1 b" if b: "b < nblocks ?n'" for b
      by (rule kept [OF b]) (use before short b fb_le in \<open>fastforce simp: le_less\<close>)
    then show ?thesis using same shape1 by (simp add: core_ok_def)
  next
    assume "\<exists>c. m_recordLines g1 fb = Some c \<and> fd - fb * kBlockSize < length c \<and> fb < length (m_blockLines g1) \<and>
      truncateBlockMeasurement idx' g1 fb (fd - fb * kBlockSize) = setBlockMeasurement idx' g1 fb (take (fd - fb * kBlockSize) c)"
    then obtain c where c: "m_recordLines g1 fb = Some c" "fd - fb * kBlockSize < length c" "fb < nblocks ?n'"
      "sync_blocks idx' g = setBlockMeasurement idx' g1 fb (take (fd - fb * kBlockSize) c)"
      using g2 shape1 by (auto simp: shape_ok_def)
    have cg: "m_recordLines g fb = Some c" using c(1) fields(1) [OF c(3)] by simp
    have "length c \<le> block_size idx' fb"
      using core_cached(2) [OF core cg] size [of fb] by simp
    then have len: "length (take (fd - fb * kBlockSize) c) \<le> block_size idx' fb" by simp
    have "block_ok idx' (sync_blocks idx' g) b" if b: "b < nblocks ?n'" for b
      unfolding c(4)
    proof (rule set_block_ok [OF b shape1 len phys [OF c(3)]])
      assume "b \<noteq> fb"
      then show "block_ok idx' g1 b" by (intro kept [OF b] before) auto
    qed
    then show ?thesis using set_block_shape [OF shape1 c(3)] by (simp add: core_ok_def c(4))
  qed
qed

lemma syncTail_ok:
  assumes "geometry_ok fp idx g" and "sums_ok idx" and "sums_ok idx'" and "grown idx idx'"
  shows "geometry_ok fp idx' (fst (syncTail fp idx' g))"
proof -
  have core: "core_ok idx g" and bound: "g_bound g" "m_boundRecords g = length (records idx)" "m_tailLines g = tail_height idx"
    using assms(1) by (auto simp: geometry_ok_def core_ok_def shape_ok_def)
  show ?thesis
  proof (cases "length (records idx') = m_boundRecords g \<and> tail_height idx' = m_tailLines g")
    case True
    then have "heights idx' = heights idx" using same_heights [OF assms(4)] bound by simp
    from same_index_core [OF this assms(2,3) core] refresh_index [of idx' idx fp g] True assms(1) bound
    show ?thesis by (simp add: geometry_ok_def syncTail_def)
  next
    case False
    then have "fst (syncTail fp idx' g) = refreshTotals fp idx' (sync_blocks idx' g)"
      using syncTail_blocks [OF bound(1), of idx' fp] by auto
    then show ?thesis using refresh_ok [OF sync_core [OF core assms(2-4)]] by simp
  qed
qed

section \<open>Navigation\<close>

lemma length_prefix_from [simp]: "length (prefix_from f b k acc) = Suc k"
  by (induction k arbitrary: b acc) simp_all

lemma nth_prefix_from: "i \<le> k \<Longrightarrow> prefix_from f b k acc ! i = acc + sum_list (map f [b..<b + i])"
proof (induction k arbitrary: b acc i)
  case (Suc k)
  show ?case
  proof (cases i)
    case (Suc j)
    have "[b..<b + Suc j] = b # [Suc b..<Suc b + j]" by (simp add: upt_rec)
    then show ?thesis using Suc Suc.IH [of j "Suc b" "acc + f b"] Suc.prems by simp
  qed simp
qed simp

lemma blockLines_nonneg: "0 \<le> blockLines fp idx g b"
  by (simp add: blockLines_def Let_def)

lemma refresh_prefix:
  "m_prefix (refreshTotals fp idx g) =
     prefix_from (blockLines fp idx (refreshTotals fp idx g)) 0 (length (m_blockPhysical g)) 0"
proof -
  let ?g = "g\<lparr>m_measuredVisual := m_measuredVisual (refreshTotals fp idx g),
      m_measuredPhysical := m_measuredPhysical (refreshTotals fp idx g),
      m_measuredBlocks := m_measuredBlocks (refreshTotals fp idx g)\<rparr>"
  have "blockLines fp idx (refreshTotals fp idx g) = blockLines fp idx ?g"
    by (rule blockLines_cong) (simp_all add: basics_def refreshTotals_def geometry_rebuild_def Let_def)
  then show ?thesis by (simp add: refreshTotals_def geometry_rebuild_def Let_def)
qed

lemma refresh_total: "m_total (refreshTotals fp idx g) = last (m_prefix (refreshTotals fp idx g))"
  by (simp add: refreshTotals_def geometry_rebuild_def Let_def)

lemma ok_prefix:
  assumes "geometry_ok fp idx g"
  shows "b \<le> nblocks (length (records idx)) \<Longrightarrow> m_prefix g ! b = sum_list (map (blockLines fp idx g) [0..<b])"
    and "m_total g = m_prefix g ! nblocks (length (records idx))"
proof -
  have fixed: "refreshTotals fp idx g = g" and len: "length (m_blockPhysical g) = nblocks (length (records idx))"
    using assms by (auto simp: geometry_ok_def core_ok_def shape_ok_def)
  have p: "m_prefix g = prefix_from (blockLines fp idx g) 0 (nblocks (length (records idx))) 0"
    using refresh_prefix [of fp idx g] unfolding fixed len .
  show "b \<le> nblocks (length (records idx)) \<Longrightarrow> m_prefix g ! b = sum_list (map (blockLines fp idx g) [0..<b])"
    unfolding p by (simp add: nth_prefix_from)
  have "m_total g = last (m_prefix g)" using refresh_total [of fp idx g] unfolding fixed .
  then show "m_total g = m_prefix g ! nblocks (length (records idx))"
    using last_conv_nth [of "m_prefix g"] length_prefix_from [of "blockLines fp idx g" 0 "nblocks (length (records idx))" 0]
    by (simp add: p [symmetric]) (metis diff_Suc_1 length_0_conv nat.distinct(1))
qed

lemma ok_prefix_mono:
  assumes "geometry_ok fp idx g" and "i \<le> j" and "j \<le> nblocks (length (records idx))"
  shows "m_prefix g ! i \<le> m_prefix g ! j"
proof -
  have "[0..<j] = [0..<i] @ [i..<j]" using assms(2) upt_add_eq_append [of 0 i "j - i"] by simp
  moreover have "0 \<le> sum_list (map (blockLines fp idx g) [i..<j])"
    by (rule sum_list_nonneg) (auto simp: blockLines_nonneg)
  ultimately show ?thesis using assms(2,3) by (simp add: ok_prefix(1) [OF assms(1)])
qed

text \<open>The block the search stops at: the last whose first line is not below the target.\<close>

lemma ok_search:
  assumes "geometry_ok fp idx g" and "records idx \<noteq> []" and "0 \<le> line" and "line < m_total g"
  defines "b \<equiv> search_last (\<lambda>mid. m_prefix g ! mid \<le> line) 0 (length (m_blockPhysical g) - 1)"
  shows "b < nblocks (length (records idx))" and "m_prefix g ! b \<le> line" and "line < m_prefix g ! Suc b"
proof -
  let ?nb = "nblocks (length (records idx))" and ?P = "\<lambda>mid. m_prefix g ! mid \<le> line"
  have len: "length (m_blockPhysical g) = ?nb"
    using assms(1) by (auto simp: geometry_ok_def core_ok_def shape_ok_def)
  have nb: "0 < ?nb" unfolding less_nblocks using assms(2) by simp
  have "?P 0" using ok_prefix(1) [OF assms(1), of 0] assms(3) by simp
  moreover have "?P i" if "i \<le> j" "j \<le> ?nb - 1" "?P j" for i j
    using ok_prefix_mono [OF assms(1) that(1)] that(2,3) by linarith
  ultimately have "b \<le> ?nb - 1 \<and> ?P b \<and> (\<forall>j. b < j \<and> j \<le> ?nb - 1 \<longrightarrow> \<not> ?P j)"
    using search_last_correct [of 0 "?nb - 1" ?P] unfolding b_def len by blast
  then have found: "b < ?nb" "?P b" "\<And>j. b < j \<Longrightarrow> j \<le> ?nb - 1 \<Longrightarrow> \<not> ?P j" using nb by auto
  show "b < ?nb" "?P b" by (rule found)+
  show "line < m_prefix g ! Suc b"
  proof (cases "Suc b = ?nb")
    case True
    then show ?thesis using assms(4) ok_prefix(2) [OF assms(1)] by simp
  next
    case False
    then show ?thesis using found(3) [of "Suc b"] found(1) by linarith
  qed
qed

lemma first_past_bounds: "first_past hs t acc i = Some j \<Longrightarrow> i \<le> j \<and> j < i + length hs"
  by (induction hs t acc i rule: first_past.induct) (auto split: if_splits)

lemma first_past_hit:
  "acc \<le> t \<Longrightarrow> t < acc + sum_list hs \<Longrightarrow> \<exists>k < length hs. first_past hs t acc i = Some (i + k) \<and>
     acc + sum_list (take k hs) \<le> t \<and> t < acc + sum_list (take (Suc k) hs)"
proof (induction hs t acc i rule: first_past.induct)
  case (2 h hs t acc i)
  show ?case
  proof (cases "t < acc + h")
    case True
    then show ?thesis using 2(2) by (intro exI [of _ 0]) simp
  next
    case False
    with 2 obtain k where "k < length hs" "first_past hs t (acc + h) (Suc i) = Some (Suc i + k)"
      "acc + h + sum_list (take k hs) \<le> t" "t < acc + h + sum_list (take (Suc k) hs)" by (auto simp: add.assoc)
    then show ?thesis using False by (intro exI [of _ "Suc k"]) (simp add: add.assoc)
  qed
qed simp

text \<open>The rows of every record, block by block, and that none is missing.\<close>

definition block_rows :: "geometry \<Rightarrow> nat \<Rightarrow> int list" where
  "block_rows g b = (case m_recordLines g b of None \<Rightarrow> [] | Some ls \<Rightarrow> map uint ls)"

definition measured_rows :: "record_index \<Rightarrow> geometry \<Rightarrow> int list" where
  "measured_rows idx g = concat (map (block_rows g) [0..<nblocks (length (records idx))])"

definition fully_measured :: "record_index \<Rightarrow> geometry \<Rightarrow> bool" where
  "fully_measured idx g \<longleftrightarrow> (\<forall>b < nblocks (length (records idx)). isBlockMeasured idx g b)"

lemma take_blocks:
  assumes "\<And>j. j < b \<Longrightarrow> length (L j) = (K::nat)" and "b < nb" and "b * K \<le> r" and "r - b * K \<le> length (L b)"
  shows "take r (concat (map L [0..<nb])) = concat (map L [0..<b]) @ take (r - b * K) (L b)"
proof -
  have "[0..<nb] = [0..<b] @ b # [Suc b..<nb]"
    using assms(2) upt_add_eq_append [of 0 b "nb - b"] upt_conv_Cons [of b nb] by simp
  moreover have "length (concat (map L [0..<b])) = b * K"
    using assms(1) by (induction b) simp_all
  ultimately show ?thesis using assms(3,4) by simp
qed

lemma sum_blocks: "sum_list (concat (map L bs)) = sum_list (map (\<lambda>b. sum_list (L b :: int list)) bs)"
  by (induction bs) simp_all

lemma measured_block:
  assumes "geometry_ok fp idx g" and "fully_measured idx g" and b: "b < nblocks (length (records idx))"
  shows "\<exists>ls. m_recordLines g b = Some ls \<and> block_rows g b = map uint ls \<and> length ls = block_size idx b \<and> 0 < block_size idx b \<and>
    measuredRecordsInBlock g b = block_size idx b \<and> recordsInBlock idx g b = block_size idx b \<and>
    m_blockLines g ! b = sum_list (block_rows g b) \<and> blockLines fp idx g b = sum_list (block_rows g b)"
proof -
  have ok: "block_ok idx g b" and shape: "g_bound g" "length (m_blockLines g) = nblocks (length (records idx))"
    "length (m_blockPhysical g) = nblocks (length (records idx))"
    using assms(1) b by (auto simp: geometry_ok_def core_ok_def shape_ok_def)
  have full: "isBlockMeasured idx g b" using assms(2) b by (simp add: fully_measured_def)
  then have m: "0 < block_size idx b" "measuredRecordsInBlock g b = block_size idx b"
    by (auto simp: isBlockMeasured_def recordsInBlock_size [OF shape(1)] Let_def)
  then obtain ls where ls: "m_recordLines g b = Some ls"
    using shape(2) b by (cases "m_recordLines g b") (auto simp: measuredRecordsInBlock_def)
  moreover have "length ls = block_size idx b" using m(2) ls shape(2) b by (simp add: measuredRecordsInBlock_def)
  moreover have "m_blockLines g ! b = sum_list (map uint ls)" using ok ls by (simp add: block_ok_def)
  moreover have "0 \<le> sum_list (map uint ls)" by (rule sum_list_nonneg) auto
  ultimately show ?thesis
    using m full shape b by (simp add: block_rows_def blockLines_def recordsInBlock_size)
qed

lemma measured_lines:
  assumes "geometry_ok fp idx g" and "fully_measured idx g" and "k \<le> nblocks (length (records idx))"
  shows "sum_list (concat (map (block_rows g) [0..<k])) = sum_list (map (blockLines fp idx g) [0..<k])"
proof -
  have "sum_list (block_rows g b) = blockLines fp idx g b" if "b < k" for b
    using measured_block [OF assms(1,2), of b] assms(3) that by auto
  then show ?thesis unfolding sum_blocks by (intro arg_cong [of _ _ sum_list] map_cong) auto
qed

lemma block_size_full: "Suc b < nblocks n \<Longrightarrow> n = length (records idx) \<Longrightarrow> block_size idx b = kBlockSize"
  unfolding less_nblocks block_size_def by (simp add: min_def)

text \<open>The records before \<open>r\<close>, split where the block of \<open>r\<close> starts.\<close>

lemma rows_before:
  assumes "geometry_ok fp idx g" and "fully_measured idx g" and b: "b < nblocks (length (records idx))"
    and r: "b * kBlockSize \<le> r" "r - b * kBlockSize \<le> block_size idx b"
  shows "sum_list (take r (measured_rows idx g)) = m_prefix g ! b + sum_list (take (r - b * kBlockSize) (block_rows g b))"
proof -
  have len: "length (block_rows g j) = block_size idx j" if "j < nblocks (length (records idx))" for j
    using measured_block [OF assms(1,2) that] by auto
  have "length (block_rows g j) = kBlockSize" if "j < b" for j
    using len [of j] block_size_full [OF _ refl, of j idx] that b by simp
  from take_blocks [of b "block_rows g" kBlockSize "nblocks (length (records idx))" r, OF this b r(1)] r(2) len [OF b]
  have "take r (measured_rows idx g) = concat (map (block_rows g) [0..<b]) @ take (r - b * kBlockSize) (block_rows g b)"
    by (simp add: measured_rows_def)
  moreover have "sum_list (concat (map (block_rows g) [0..<b])) = sum_list (map (blockLines fp idx g) [0..<b])"
    by (rule measured_lines [OF assms(1,2)]) (use b in simp)
  ultimately show ?thesis using ok_prefix(1) [OF assms(1), of b] b by simp
qed

lemma rows_length:
  assumes "geometry_ok fp idx g" and "fully_measured idx g"
  shows "length (measured_rows idx g) = length (records idx) \<and> sum_list (measured_rows idx g) = m_total g"
proof -
  have "length (concat (map (block_rows g) [0..<b])) = min (b * kBlockSize) (length (records idx))"
    if "b \<le> nblocks (length (records idx))" for b
    using that
  proof (induction b)
    case (Suc b)
    then have "length (block_rows g b) = block_size idx b" using measured_block [OF assms, of b] by auto
    with Suc show ?case by (simp add: block_size_def less_nblocks Suc_le_eq min_def)
  qed simp
  from this [OF order_refl] have "length (measured_rows idx g) = length (records idx)"
    using less_nblocks [of "nblocks (length (records idx))" "length (records idx)"] by (simp add: measured_rows_def)
  moreover have "sum_list (measured_rows idx g) = m_total g"
    using measured_lines [OF assms order_refl] ok_prefix [OF assms(1)] by (simp add: measured_rows_def)
  ultimately show ?thesis ..
qed

lemma record_block:
  assumes "r < length (records idx)"
  shows "r div kBlockSize < nblocks (length (records idx))" and "r div kBlockSize * kBlockSize \<le> r"
    and "r - r div kBlockSize * kBlockSize < block_size idx (r div kBlockSize)"
proof -
  have le: "r div kBlockSize * kBlockSize \<le> r" and lt: "r < r div kBlockSize * kBlockSize + kBlockSize"
    using dividend_less_div_times [of kBlockSize r] by (simp_all add: add.commute)
  then show "r div kBlockSize < nblocks (length (records idx))" "r div kBlockSize * kBlockSize \<le> r"
    unfolding less_nblocks using assms by linarith+
  show "r - r div kBlockSize * kBlockSize < block_size idx (r div kBlockSize)"
    unfolding block_size_def using le lt assms by linarith
qed

lemma firstLine_measured:
  assumes "geometry_ok fp idx g" and "fully_measured idx g" and "r \<le> length (records idx)"
  shows "geometry_firstLine fp idx g (int r) = sum_list (take r (measured_rows idx g))"
proof -
  have bound: "g_bound g" using assms(1) by (auto simp: geometry_ok_def core_ok_def shape_ok_def)
  consider "r = 0 \<or> records idx = []" | "0 < r" "r = length (records idx)" | "0 < r" "r < length (records idx)"
    using assms(3) by linarith
  then show ?thesis
  proof cases
    case 1
    then show ?thesis using rows_length [OF assms(1,2)] assms(3) by (auto simp: geometry_firstLine_def)
  next
    case 2
    then show ?thesis using rows_length [OF assms(1,2)] bound by (auto simp: geometry_firstLine_def)
  next
    case 3
    note rb = record_block [OF 3(2)]
    obtain ls where ls: "m_recordLines g (r div kBlockSize) = Some ls" "block_rows g (r div kBlockSize) = map uint ls"
      "measuredRecordsInBlock g (r div kBlockSize) = block_size idx (r div kBlockSize)"
      using measured_block [OF assms(1,2) rb(1)] by auto
    have "records idx \<noteq> []" using 3 by auto
    then show ?thesis
      using rows_before [OF assms(1,2) rb(1,2)] rb(3) ls bound 3
      by (simp add: geometry_firstLine_def blockOfRecord_def blockStartRecord_def take_map Let_def)
  qed
qed

lemma recordAtLine_measured:
  assumes "geometry_ok fp idx g" and "fully_measured idx g" and "records idx \<noteq> []" and "0 < line" and "line < m_total g"
  shows "\<exists>r < length (records idx). geometry_recordAtLine fp idx g line = int r \<and>
    sum_list (take r (measured_rows idx g)) \<le> line \<and> line < sum_list (take (Suc r) (measured_rows idx g))"
proof -
  define b where "b = search_last (\<lambda>mid. m_prefix g ! mid \<le> line) 0 (length (m_blockPhysical g) - 1)"
  have b: "b < nblocks (length (records idx))" "m_prefix g ! b \<le> line" "line < m_prefix g ! Suc b"
    using ok_search [OF assms(1,3) _ assms(5)] assms(4) unfolding b_def by auto
  obtain ls where ls: "m_recordLines g b = Some ls" "block_rows g b = map uint ls" "length ls = block_size idx b"
    "measuredRecordsInBlock g b = block_size idx b" "recordsInBlock idx g b = block_size idx b"
    "m_blockLines g ! b = sum_list (map uint ls)" "blockLines fp idx g b = sum_list (map uint ls)"
    using measured_block [OF assms(1,2) b(1)] by auto
  have bound: "g_bound g" using assms(1) by (auto simp: geometry_ok_def core_ok_def shape_ok_def)
  have next_block: "m_prefix g ! Suc b = m_prefix g ! b + sum_list (map uint ls)"
    using ok_prefix(1) [OF assms(1), of b] ok_prefix(1) [OF assms(1), of "Suc b"] b(1) ls(7) by simp
  have "0 \<le> sum_list (map uint ls)" by (rule sum_list_nonneg) auto
  then have exact: "max 0 (m_blockLines g ! b) = sum_list (map uint ls)" using ls(6) by simp
  have inside: "line - m_prefix g ! b < sum_list (map uint ls)" using b(3) next_block by simp
  obtain k where k: "k < length ls" "first_past (map uint ls) (line - m_prefix g ! b) 0 0 = Some k"
    "sum_list (take k (map uint ls)) \<le> line - m_prefix g ! b" "line - m_prefix g ! b < sum_list (take (Suc k) (map uint ls))"
    using first_past_hit [of 0 "line - m_prefix g ! b" "map uint ls" 0] b(2) inside by auto
  have "geometry_recordAtLine fp idx g line = int (b * kBlockSize + k)"
    unfolding geometry_recordAtLine_def Let_def b_def [symmetric] exact ls(1,4,5) blockStartRecord_def
    using bound assms(3-5) k(2) inside by (simp add: ls(3) [symmetric])
  moreover have "b * kBlockSize + k < length (records idx)"
    using k(1) ls(3) unfolding block_size_def by linarith
  ultimately show ?thesis
    using k ls(2,3) rows_before [OF assms(1,2) b(1), of "b * kBlockSize + k"] rows_before [OF assms(1,2) b(1), of "Suc (b * kBlockSize + k)"]
    by (intro exI [of _ "b * kBlockSize + k"]) (simp add: Suc_diff_le)
qed

lemma recordHeight_measured:
  assumes "geometry_ok fp idx g" and "fully_measured idx g" and "r < length (records idx)"
  shows "recordHeightLines fp idx g (int r) = measured_rows idx g ! r"
proof -
  let ?b = "r div kBlockSize"
  note rb = record_block [OF assms(3)]
  obtain ls where ls: "m_recordLines g ?b = Some ls" "block_rows g ?b = map uint ls" "length ls = block_size idx ?b"
    using measured_block [OF assms(1,2) rb(1)] by auto
  have bound: "g_bound g" using assms(1) by (auto simp: geometry_ok_def core_ok_def shape_ok_def)
  have in_block: "length (block_rows g b) = block_size idx b" if "b < nblocks (length (records idx))" for b
    using measured_block [OF assms(1,2) that] by auto
  have "length (block_rows g j) = kBlockSize" if "j < ?b" for j
    using in_block [of j] block_size_full [OF _ refl, of j idx] that rb(1) by simp
  from take_blocks [of ?b "block_rows g" kBlockSize "nblocks (length (records idx))" "Suc r", OF this rb(1)] rb(2,3) in_block [OF rb(1)]
  have split: "take (Suc r) (measured_rows idx g) =
      concat (map (block_rows g) [0..<?b]) @ take (Suc r - ?b * kBlockSize) (block_rows g ?b)"
    by (simp add: measured_rows_def Suc_diff_le)
  have "length (take (Suc r) (measured_rows idx g)) = Suc r" using rows_length [OF assms(1,2)] assms(3) by simp
  then have "measured_rows idx g ! r = last (take (Suc r) (measured_rows idx g))"
    by (metis diff_Suc_1 last_conv_nth length_0_conv lessI nat.distinct(1) nth_take)
  also have "\<dots> = block_rows g ?b ! (r - ?b * kBlockSize)"
    unfolding split using rb(2,3) in_block [OF rb(1)]
    by (cases "block_rows g ?b = []") (auto simp: Suc_diff_le last_append last_conv_nth)
  finally show ?thesis
    using bound ls rb(3) assms(3)
    by (simp add: recordHeightLines_def blockOfRecord_def blockStartRecord_def Let_def)
qed

section \<open>The measured geometry is a line geometry\<close>

text \<open>Once every record has been measured, and each has at least one row, the wrapped view answers
  the same contract the physical index answers.\<close>

definition exact_ok :: "'d floats \<Rightarrow> record_index \<times> geometry \<Rightarrow> bool" where
  "exact_ok fp s \<longleftrightarrow> geometry_ok fp (fst s) (snd s) \<and> fully_measured (fst s) (snd s) \<and>
     (\<forall>h \<in> set (measured_rows (fst s) (snd s)). 0 < h)"

interpretation gix: line_geometry "exact_ok fp" "\<lambda>s. int (length (records (fst s)))" "\<lambda>s. m_total (snd s)"
  "\<lambda>s. geometry_firstLine fp (fst s) (snd s)" "\<lambda>s. geometry_recordAtLine fp (fst s) (snd s)" for fp
proof
  fix s :: "record_index \<times> geometry" and r t line :: int
  obtain idx g where s: "s = (idx, g)" by (cases s)
  let ?rows = "measured_rows idx g"
  assume "exact_ok fp s"
  then have ok: "geometry_ok fp idx g" "fully_measured idx g" and pos: "\<forall>h \<in> set ?rows. 0 < h"
    by (auto simp: exact_ok_def s)
  note rows = rows_length [OF ok]
  show "geometry_firstLine fp (fst s) (snd s) 0 = 0" by (simp add: geometry_firstLine_def)
  show "geometry_firstLine fp (fst s) (snd s) (int (length (records (fst s)))) = m_total (snd s)"
    using firstLine_measured [OF ok order_refl] rows by (simp add: s)
  show "geometry_firstLine fp (fst s) (snd s) r \<le> geometry_firstLine fp (fst s) (snd s) t"
    if "0 \<le> r" "r \<le> t" "t \<le> int (length (records (fst s)))"
  proof -
    have "take (nat t) ?rows = take (nat r) ?rows @ take (nat t - nat r) (drop (nat r) ?rows)"
      using that by (simp add: take_add [symmetric])
    moreover have "0 \<le> sum_list (take (nat t - nat r) (drop (nat r) ?rows))"
      by (rule sum_list_nonneg) (use pos in \<open>auto dest!: in_set_takeD in_set_dropD intro: less_imp_le\<close>)
    ultimately show ?thesis
      using that firstLine_measured [OF ok, of "nat r"] firstLine_measured [OF ok, of "nat t"] by (simp add: s)
  qed
  assume line: "0 \<le> line" "line < m_total (snd s)"
  then have ne: "records idx \<noteq> []" using rows by (auto simp: s)
  obtain k where k: "k < length (records idx)" "geometry_recordAtLine fp idx g line = int k"
    "sum_list (take k ?rows) \<le> line" "line < sum_list (take (Suc k) ?rows)"
  proof (cases "line = 0")
    case True
    from ne have "0 < length (records idx)" by simp
    moreover have "geometry_recordAtLine fp idx g line = int 0"
      using True ok(1) ne by (simp add: geometry_recordAtLine_def geometry_ok_def core_ok_def shape_ok_def)
    moreover have "line < sum_list (take (Suc 0) ?rows)"
      using True pos ne rows by (cases ?rows) auto
    ultimately show thesis using that [of 0] True by simp
  next
    case False
    then show thesis using recordAtLine_measured [OF ok ne, of line] line that by (auto simp: s)
  qed
  then show "0 \<le> geometry_recordAtLine fp (fst s) (snd s) line \<and>
      geometry_recordAtLine fp (fst s) (snd s) line < int (length (records (fst s)))" by (simp add: s)
  show "geometry_firstLine fp (fst s) (snd s) (geometry_recordAtLine fp (fst s) (snd s) line) \<le> line \<and>
      line < geometry_firstLine fp (fst s) (snd s) (geometry_recordAtLine fp (fst s) (snd s) line + 1)"
    using k firstLine_measured [OF ok, of k] firstLine_measured [OF ok, of "Suc k"] by (simp add: s add.commute)
qed

lemma rebuild_fields:
  "g_bound (geometry_rebuild fp idx g) = g_bound g" "m_recordLines (geometry_rebuild fp idx g) = m_recordLines g"
  "m_blockLines (geometry_rebuild fp idx g) = m_blockLines g" "g_bound (refreshTotals fp idx g) = g_bound g"
  "m_wrapWidth (geometry_rebuild fp idx g) = m_wrapWidth g" "m_recordLines (refreshTotals fp idx g) = m_recordLines g" "m_blockLines (refreshTotals fp idx g) = m_blockLines g"
  by (simp_all add: refreshTotals_def geometry_rebuild_def Let_def)

section \<open>Which measurements an operation keeps\<close>

text \<open>The rows that are known of a record; none when it has not been measured.\<close>

definition row_of :: "geometry \<Rightarrow> nat \<Rightarrow> 16 word option" where
  "row_of g r = (case m_recordLines g (r div kBlockSize) of
     None \<Rightarrow> None | Some ls \<Rightarrow> if r mod kBlockSize < length ls then Some (ls ! (r mod kBlockSize)) else None)"

lemma row_of_refresh [simp]: "row_of (refreshTotals fp idx g) r = row_of g r"
  by (simp add: row_of_def rebuild_fields)

lemma row_of_reset: "row_of (geometry_reset fp (Some idx) g w) r = None"
  by (simp add: row_of_def geometry_reset_def Let_def rebuild_fields geometry_clear_def geometry_default_def)

lemma width_rows:
  "m_wrapWidth (fst (setWrapWidth fp idx g w)) = max 1 w"
  "row_of (fst (setWrapWidth fp idx g w)) r = (if max 1 w = m_wrapWidth g then row_of g r else None)"
  by (simp_all add: row_of_def setWrapWidth_def invalidateMeasurements_def Let_def rebuild_fields)

lemma row_of_set:
  "row_of (setBlockMeasurement idx g b ls) r =
     (if r div kBlockSize = b then (if r mod kBlockSize < length ls then Some (ls ! (r mod kBlockSize)) else None) else row_of g r)"
  by (simp add: row_of_def setBlockMeasurement_def Let_def)

text \<open>A measurement is taken when it starts inside what is known of the block, or right behind it, unless it
  would measure a block over that is known whole.\<close>

definition takes_run :: "record_index \<Rightarrow> geometry \<Rightarrow> nat \<Rightarrow> int \<Rightarrow> bool" where
  "takes_run idx g b first \<longleftrightarrow> b * kBlockSize < length (records idx) \<and> nat first \<le> measuredRecordsInBlock g b \<and>
     (0 < first \<or> measuredRecordsInBlock g b < block_size idx b)"

lemma measured_cached:
  "geometry_ok fp idx g \<Longrightarrow> m_recordLines g b = Some c \<Longrightarrow> measuredRecordsInBlock g b = length c"
  using core_cached(1) [of idx g b c]
  by (auto simp: geometry_ok_def core_ok_def shape_ok_def measuredRecordsInBlock_def)

lemma measured_le: "geometry_ok fp idx g \<Longrightarrow> measuredRecordsInBlock g b \<le> block_size idx b"
  using measured_cached [of fp idx g b] core_cached(2) [of idx g b]
  by (cases "m_recordLines g b") (auto simp: geometry_ok_def measuredRecordsInBlock_def)

lemma splice_nth:
  assumes "k \<le> length c"
  shows "(if i < length (take k c @ take (m - k) v) then Some ((take k c @ take (m - k) v) ! i) else None) =
    (if k \<le> i then (if i < m \<and> i - k < length v then Some (v ! (i - k)) else None)
     else if i < length c then Some (c ! i) else None)"
proof (cases "k \<le> i")
  case True
  then have "i < length (take k c @ take (m - k) v) \<longleftrightarrow> i < m \<and> i - k < length v" using assms by auto
  moreover have "take (m - k) v ! (i - k) = v ! (i - k)" if "i < m" using that True by simp
  ultimately show ?thesis using True assms by (auto simp: nth_append)
qed (use assms in \<open>simp add: nth_append\<close>)

lemma measure_rows:
  assumes ok: "geometry_ok fp idx g"
  shows "row_of (measureBlock fp idx g b visual first) r =
    (if takes_run idx g b first \<and> r div kBlockSize = b \<and> nat first \<le> r mod kBlockSize
     then (if r < length (records idx) \<and> r mod kBlockSize - nat first < length visual
           then Some (visual ! (r mod kBlockSize - nat first)) else None)
     else row_of g r)"
proof -
  have g: "g_bound g" "length (m_blockLines g) = nblocks (length (records idx))"
    using ok by (auto simp: geometry_ok_def core_ok_def shape_ok_def)
  define cached where "cached = (case m_recordLines g b of None \<Rightarrow> [] | Some l \<Rightarrow> l)"
  have got: "measuredRecordsInBlock g b = length cached"
    using measured_cached [OF ok, of b] by (cases "m_recordLines g b") (auto simp: cached_def measuredRecordsInBlock_def)
  have le: "length cached \<le> block_size idx b" using measured_le [OF ok, of b] unfolding got .
  have pos: "0 < block_size idx b \<longleftrightarrow> b * kBlockSize < length (records idx)" unfolding block_size_def by simp
  have zero: "nat (max first 0) = nat first" by simp
  have nz: "nat first = 0 \<longleftrightarrow> \<not> 0 < first" by (simp add: not_less)
  define ls where "ls = take (nat first) cached @ take (block_size idx b - nat first) visual"
  have did: "measureBlock fp idx g b visual first =
      (if takes_run idx g b first then refreshTotals fp idx (setBlockMeasurement idx g b ls) else g)"
    unfolding measureBlock_def Let_def recordsInBlock_size [OF g(1)] cached_def [symmetric] got takes_run_def zero g(2) ls_def
    using g(1) le pos less_nblocks [of b "length (records idx)"] by (auto simp: not_less resize_take min_absorb2)
  show ?thesis
  proof (cases "takes_run idx g b first \<and> r div kBlockSize = b")
    case True
    then have r: "r = b * kBlockSize + r mod kBlockSize" "r mod kBlockSize < kBlockSize" by auto
    then have inside: "r < length (records idx) \<longleftrightarrow> r mod kBlockSize < block_size idx b"
      unfolding block_size_def by linarith
    have known: "row_of g r = (if r mod kBlockSize < length cached then Some (cached ! (r mod kBlockSize)) else None)"
      using True by (auto simp: row_of_def cached_def split: option.split)
    have "nat first \<le> length cached" using True by (simp add: takes_run_def got)
    from splice_nth [OF this, of "r mod kBlockSize"] show ?thesis
      using True by (simp add: did row_of_set inside known ls_def del: length_append)
  next
    case False
    then show ?thesis by (simp add: did row_of_set)
  qed
qed

text \<open>After a sync the records in front of the one that was last keep what was known of them.\<close>

lemma sync_rows:
  assumes ok: "geometry_ok fp idx g" and grown: "grown idx idx'"
  shows "row_of (fst (syncTail fp idx' g)) r =
    (if length (records idx') = length (records idx) \<and> tail_height idx' = tail_height idx \<or> Suc r < length (records idx)
     then row_of g r else None)"
proof -
  let ?n = "length (records idx)" and ?n' = "length (records idx')"
  have core: "core_ok idx g" using ok by (simp add: geometry_ok_def)
  have g: "g_bound g" "m_boundRecords g = ?n" "m_tailLines g = tail_height idx" "length (m_blockLines g) = nblocks ?n"
    using core by (auto simp: core_ok_def shape_ok_def)
  have le: "?n \<le> ?n'" using grown by (simp add: grown_def)
  have nb: "nblocks ?n \<le> nblocks ?n'" unfolding nblocks_def by (rule div_le_mono) (use le in simp)
  have outside: "m_recordLines g b = None" if "nblocks ?n \<le> b" for b
    using core that by (simp add: core_ok_def shape_ok_def)
  define fd where "fd = ?n - 1"
  define fb where "fb = fd div kBlockSize"
  have filled: "c \<noteq> []" if "m_recordLines g b = Some c" for b c
  proof -
    have "block_ok idx g b" using core core_cached(1) [OF core that] by (simp add: core_ok_def)
    then show ?thesis using that by (simp add: block_ok_def)
  qed
  have blocks: "m_recordLines (sync_blocks idx' g) b =
      (if fb < b \<or> nblocks ?n' \<le> b then None
       else if b = fb then Option.bind (m_recordLines g b) (\<lambda>c. if take (fd - fb * kBlockSize) c = [] then None else Some (take (fd - fb * kBlockSize) c))
       else m_recordLines g b)" for b
    using le g filled unfolding sync_blocks_def Let_def g min_absorb1 [OF le] fd_def [symmetric] fb_def [symmetric]
    by (auto simp: truncateBlockMeasurement_def setBlockMeasurement_def resize_take Let_def split: option.split)
  show ?thesis
  proof (cases "?n' = ?n \<and> tail_height idx' = tail_height idx")
    case True
    then show ?thesis using g by (simp add: syncTail_def)
  next
    case False
    then have sync: "fst (syncTail fp idx' g) = refreshTotals fp idx' (sync_blocks idx' g)"
      using syncTail_blocks [OF g(1), of idx' fp] g by auto
    have "row_of (sync_blocks idx' g) r = (if Suc r < ?n then row_of g r else None)"
    proof (cases "r < fd")
      case True
      then have "r div kBlockSize \<le> fb" unfolding fb_def by (intro div_le_mono) simp
      moreover have "r mod kBlockSize < fd - fb * kBlockSize" if "r div kBlockSize = fb"
        using True div_mult_mod_eq [of r kBlockSize] unfolding that by linarith
      moreover have "m_recordLines g (r div kBlockSize) = None" if "nblocks ?n' \<le> r div kBlockSize"
        using outside that nb by simp
      ultimately show ?thesis
        using True blocks [of "r div kBlockSize"] by (auto simp: row_of_def fd_def split: option.split)
    next
      case False
      then have "fb \<le> r div kBlockSize" unfolding fb_def by (intro div_le_mono) simp
      moreover have "fd - fb * kBlockSize \<le> r mod kBlockSize" if "r div kBlockSize = fb"
        using False div_mult_mod_eq [of r kBlockSize] unfolding that by linarith
      ultimately show ?thesis
        using False unfolding row_of_def blocks
        by (cases "m_recordLines g (r div kBlockSize)") (auto simp: fd_def min_less_iff_disj)
    qed
    with False sync show ?thesis by auto
  qed
qed

section \<open>Properties\<close>

text \<open>What a view does with a geometry over an index that only grows: bind it, measure records,
  change the width, and follow the index, in any order.\<close>

inductive geometry_run :: "'d floats \<Rightarrow> record_index \<Rightarrow> geometry \<Rightarrow> bool" for fp where
  bind: "sums_ok idx \<Longrightarrow> geometry_run fp idx (geometry_reset fp (Some idx) g0 w)"
| width: "geometry_run fp idx g \<Longrightarrow> geometry_run fp idx (fst (setWrapWidth fp idx g w))"
| measure: "geometry_run fp idx g \<Longrightarrow> geometry_run fp idx (measureBlock fp idx g b visual first)"
| follow: "geometry_run fp idx g \<Longrightarrow> grown idx idx' \<Longrightarrow> sums_ok idx' \<Longrightarrow>
    geometry_run fp idx' (fst (syncTail fp idx' g))"

lemma run_sums: "geometry_run fp idx g \<Longrightarrow> sums_ok idx"
  by (induction rule: geometry_run.induct)

lemma run_ok: "geometry_run fp idx g \<Longrightarrow> geometry_ok fp idx g"
  by (induction rule: geometry_run.induct) (simp_all add: reset_ok setWrapWidth_ok measureBlock_ok syncTail_ok run_sums)

text \<open>C8: geometry_invariant. Whatever is bound, measured, rewrapped and followed, in any order, every block knows the
  physical lines the index gives it, its cached rows are a prefix of its records whose sums it stores, and the
  aggregates, the running sums and the total are those of the blocks. Binding an index forgets all rows, another wrap
  width forgets all and the same one none, a measurement taken replaces the rows of its block from its first record
  on, and a sync after growth keeps exactly the rows of the records in front of the one that was last, or all of
  them when no record moved.\<close>

theorem geometry_invariant:
  assumes "geometry_run fp idx g"
  shows "geometry_ok fp idx g \<and>
    row_of (geometry_reset fp (Some idx) g w) r = None \<and>
    m_wrapWidth (fst (setWrapWidth fp idx g w)) = max 1 w \<and>
    row_of (fst (setWrapWidth fp idx g w)) r = (if max 1 w = m_wrapWidth g then row_of g r else None) \<and>
    row_of (measureBlock fp idx g b visual first) r =
      (if takes_run idx g b first \<and> r div kBlockSize = b \<and> nat first \<le> r mod kBlockSize
       then (if r < length (records idx) \<and> r mod kBlockSize - nat first < length visual
             then Some (visual ! (r mod kBlockSize - nat first)) else None)
       else row_of g r) \<and>
    (grown idx idx' \<longrightarrow> row_of (fst (syncTail fp idx' g)) r =
      (if length (records idx') = length (records idx) \<and> tail_height idx' = tail_height idx \<or> Suc r < length (records idx)
       then row_of g r else None))"
  by (intro conjI impI run_ok row_of_reset width_rows measure_rows sync_rows assms)

definition int_floats :: "int floats" where
  "int_floats = \<lparr>fp_of = (\<lambda>n. n), fp_mul = (*), fp_div = (div), fp_less = (<), llround = (\<lambda>d. d), fp_trunc = (\<lambda>d. d)\<rparr>"

definition sample_grown :: record_index where
  "sample_grown = rebuildBlockSums (sample_index\<lparr>records := records sample_index @ [sample_record 3]\<rparr>)"

definition sample_measured :: geometry where
  "sample_measured = measureBlock int_floats sample_index
     (geometry_reset int_floats (Some sample_index) geometry_default 80) 0 [2, 9, 4] 0"

lemma sample_measured_run: "geometry_run int_floats sample_index sample_measured"
  unfolding sample_measured_def by (intro geometry_run.intros sample_index_ok)

lemma sample_records: "records sample_index = [sample_record 1, sample_record 300, sample_record 2]"
  by (simp add: sample_index_def rebuildBlockSums_def)

lemma lookup_in_block:
  assumes "\<And>i. hit = Some i \<Longrightarrow> i < got" and "got \<le> n" and "0 < n"
  shows "\<exists>i < n. (case hit of Some i \<Rightarrow> int (s + i)
    | None \<Rightarrow> if n \<le> got then int s + int n - 1
        else if c then int (s + got)
        else case first_past (map f [got..<n]) t 0 got of Some i \<Rightarrow> int (s + i) | None \<Rightarrow> int s + int n - 1) = int (s + i)"
proof -
  have top: "\<exists>i < n. int s + int n - 1 = int (s + i)" using assms(3) by (intro exI [of _ "n - 1"]) simp
  have "i < n" if "first_past (map f [got..<n]) t 0 got = Some i" for i
    using first_past_bounds [OF that] assms(2) by simp
  with top assms show ?thesis
    by (cases hit; cases "first_past (map f [got..<n]) t 0 got") (auto simp del: of_nat_add)
qed

text \<open>C9: geometry_lands_in_range. Mapping any line back to a record lands inside the log, however
  little has been measured and however the estimates round, whenever the log has a record.\<close>

theorem geometry_lands_in_range:
  assumes "geometry_run fp idx g" and "records idx \<noteq> []"
  shows "0 \<le> geometry_recordAtLine fp idx g line \<and> geometry_recordAtLine fp idx g line < int (length (records idx))"
proof -
  have ok: "geometry_ok fp idx g" by (rule run_ok [OF assms(1)])
  then have bound: "g_bound g" by (auto simp: geometry_ok_def core_ok_def shape_ok_def)
  have n: "0 < length (records idx)" using assms(2) by simp
  show ?thesis
  proof (cases "line \<le> 0 \<or> m_total g \<le> line")
    case True
    then show ?thesis using bound n by (auto simp: geometry_recordAtLine_def)
  next
    case False
    define b where "b = search_last (\<lambda>mid. m_prefix g ! mid \<le> line) 0 (length (m_blockPhysical g) - 1)"
    have b: "b * kBlockSize < length (records idx)"
      using ok_search(1) [OF ok assms(2), of line] False by (simp add: b_def less_nblocks)
    define got where "got = min (measuredRecordsInBlock g b) (block_size idx b)"
    define hit where "hit = (case m_recordLines g b of None \<Rightarrow> None
      | Some ls \<Rightarrow> if line - m_prefix g ! b < max 0 (m_blockLines g ! b)
          then first_past (map uint (take got ls)) (line - m_prefix g ! b) 0 0 else None)"
    have "i < got" if "hit = Some i" for i
      using that by (auto simp: hit_def split: option.splits if_splits dest!: first_past_bounds)
    note here = lookup_in_block [of hit got "block_size idx b", OF this]
    have guards: "(\<not> g_bound g) = False" "(length (records idx) = 0) = False" "(line \<le> 0) = False" "(m_total g \<le> line) = False"
      using bound n False by auto
    have "\<exists>i < block_size idx b. geometry_recordAtLine fp idx g line = int (b * kBlockSize + i)"
      unfolding geometry_recordAtLine_def Let_def b_def [symmetric] blockStartRecord_def recordsInBlock_size [OF bound]
        got_def [symmetric] hit_def [symmetric] guards if_False
      by (rule here) (use b in \<open>auto simp: got_def block_size_def\<close>)
    then obtain i where "i < block_size idx b" "geometry_recordAtLine fp idx g line = int (b * kBlockSize + i)" by blast
    then show ?thesis unfolding block_size_def by linarith
  qed
qed

theorem geometry_lands_in_range_witness:
  "0 \<le> geometry_recordAtLine int_floats sample_index sample_measured 7 \<and>
   geometry_recordAtLine int_floats sample_index sample_measured 7 < int (length (records sample_index))"
  by (rule geometry_lands_in_range [OF sample_measured_run]) (simp add: sample_records)

text \<open>Once every record has been measured, nothing of the answers is
  an estimate: the first line of a record is the number of rows in front of it, its height is its
  rows, and the line of a record that has a row maps back to that record, so that a scroll
  position survives the round trip.\<close>

theorem geometry_exact_when_measured:
  assumes "geometry_run fp idx g" and "fully_measured idx g" and "\<forall>h \<in> set (measured_rows idx g). 0 < h"
  shows "length (measured_rows idx g) = length (records idx) \<and> m_total g = sum_list (measured_rows idx g) \<and>
    (\<forall>r \<le> length (records idx). geometry_firstLine fp idx g (int r) = sum_list (take r (measured_rows idx g))) \<and>
    (\<forall>r < length (records idx). recordHeightLines fp idx g (int r) = measured_rows idx g ! r \<and>
       geometry_recordAtLine fp idx g (geometry_firstLine fp idx g (int r)) = int r)"
proof -
  have ok: "geometry_ok fp idx g" by (rule run_ok [OF assms(1)])
  note rows = rows_length [OF ok assms(2)] and first = firstLine_measured [OF ok assms(2)]
  have "geometry_recordAtLine fp idx g (geometry_firstLine fp idx g (int r)) = int r" if r: "r < length (records idx)" for r
  proof -
    have "measured_rows idx g ! r \<in> set (measured_rows idx g)" using r rows by simp
    then have "geometry_firstLine fp idx g (int r) < geometry_firstLine fp idx g (int (Suc r))"
      using r rows assms(3) first [of r] first [of "Suc r"] by (simp add: take_Suc_conv_app_nth)
    then show ?thesis
      using gix.at_first_inverse [of fp "(idx, g)" "int r"] r ok assms(2,3) by (simp add: exact_ok_def add.commute)
  qed
  then show ?thesis using rows first recordHeight_measured [OF ok assms(2)] by simp
qed

lemma sample_nblocks: "nblocks (length (records sample_index)) = 1"
  by (simp add: sample_records nblocks_def kBlockSize_def)

lemma sample_reset:
  "g_bound (geometry_reset fp (Some sample_index) g w)"
  "m_recordLines (geometry_reset fp (Some sample_index) g w) = Map.empty"
  "m_blockLines (geometry_reset fp (Some sample_index) g w) = [- 1]"
  unfolding geometry_reset_def nblocks_alt Let_def option.case rebuild_fields sample_nblocks
  by (simp_all add: rebuild_fields geometry_clear_def geometry_default_def)

lemma sample_cache:
  "g_bound sample_measured \<and> length (m_blockLines sample_measured) = 1 \<and> m_recordLines sample_measured = [0 \<mapsto> [2, 9, 4]]"
proof -
  have count: "block_size sample_index 0 = 3" by (simp add: block_size_def sample_records kBlockSize_def)
  show ?thesis
    by (simp add: sample_measured_def measureBlock_def recordsInBlock_size sample_reset rebuild_fields count
        measuredRecordsInBlock_def setBlockMeasurement_def resize_def Let_def)
qed

text \<open>A log of three measured records grows by one: the rows of the first two are kept, those of the third, which was
  the last and may have grown, are forgotten.\<close>

theorem geometry_invariant_witness:
  "geometry_ok int_floats sample_grown (fst (syncTail int_floats sample_grown sample_measured)) \<and>
   row_of (fst (syncTail int_floats sample_grown sample_measured)) 1 = Some 9 \<and>
   row_of (fst (syncTail int_floats sample_grown sample_measured)) 2 = None"
proof -
  have grown: "grown sample_index sample_grown"
    by (simp add: grown_def sample_grown_def sample_index_def rebuildBlockSums_def)
  have sums: "sums_ok sample_grown" by (simp add: sample_grown_def sums_ok_rebuild)
  have sizes: "length (records sample_grown) = 4" "length (records sample_index) = 3"
    by (simp_all add: sample_grown_def sample_records rebuildBlockSums_def)
  have known: "row_of sample_measured 1 = Some 9" "row_of sample_measured 2 = Some 4"
    using sample_cache by (simp_all add: row_of_def kBlockSize_def)
  have "geometry_run int_floats sample_grown (fst (syncTail int_floats sample_grown sample_measured))"
    by (rule geometry_run.follow [OF sample_measured_run grown sums])
  then have "geometry_ok int_floats sample_grown (fst (syncTail int_floats sample_grown sample_measured))"
    using geometry_invariant by blast
  then show ?thesis
    using geometry_invariant [OF sample_measured_run, of _ 1 _ _ _ sample_grown]
      geometry_invariant [OF sample_measured_run, of _ 2 _ _ _ sample_grown] grown known by (simp add: sizes)
qed

lemma sample_rows:
  "fully_measured sample_index sample_measured \<and> measured_rows sample_index sample_measured = [2, 9, 4]"
proof -
  have "block_size sample_index 0 = 3" by (simp add: block_size_def sample_records kBlockSize_def)
  then show ?thesis
    unfolding fully_measured_def measured_rows_def sample_nblocks
    using sample_cache by (simp add: block_rows_def isBlockMeasured_def recordsInBlock_size measuredRecordsInBlock_def)
qed

theorem geometry_exact_when_measured_witness:
  "geometry_firstLine int_floats sample_index sample_measured (int 2) = 11 \<and>
   geometry_recordAtLine int_floats sample_index sample_measured 11 = int 2"
proof -
  have full: "fully_measured sample_index sample_measured"
    and rows: "measured_rows sample_index sample_measured = [2, 9, 4]" using sample_rows by blast+
  have pos: "\<forall>h \<in> set (measured_rows sample_index sample_measured). 0 < h" unfolding rows by simp
  have n: "(2 :: nat) < length (records sample_index)" unfolding sample_records by simp
  from geometry_exact_when_measured [OF sample_measured_run full pos]
  have "\<forall>r \<le> length (records sample_index). geometry_firstLine int_floats sample_index sample_measured (int r) = sum_list (take r [2, 9, 4])"
    and inv: "\<forall>r < length (records sample_index). geometry_recordAtLine int_floats sample_index sample_measured
      (geometry_firstLine int_floats sample_index sample_measured (int r)) = int r" unfolding rows by blast+
  from this(1) [rule_format, OF less_imp_le [OF n]]
  have "geometry_firstLine int_floats sample_index sample_measured (int 2) = 11"
    by (simp add: numeral_2_eq_2 del: of_nat_Suc of_nat_numeral)
  with inv [rule_format, OF n] show ?thesis by simp
qed

end
