(* ===== verification/Density.thy ===== *)
theory Density
  imports Prelude
begin

text \<open>
  \<open>src/core/DensityMap\<close>: the marks beside the scroll bar. The rows are grouped into at most
  \<open>kMaxBuckets\<close> buckets; each lane keeps, per bucket, the union of the marks of its rows, filled by a
  scan that runs a budget of rows at a time and survives growth, shrinking and local changes.
\<close>

unbundle bit_operations_syntax

section \<open>State\<close>

type_synonym marks = quint32

definition kNone :: marks where
  "kNone = 0"

definition kClassCount :: nat where
  "kClassCount = 31"

definition classBit :: "int \<Rightarrow> marks" where
  "classBit cls = push_bit (if cls < 0 then 0 else if int kClassCount \<le> cls then kClassCount - 1 else nat cls) 1"

definition lowestClass :: "marks \<Rightarrow> int" where
  "lowestClass marks =
     (if marks = kNone then - 1
      else (case List.find (\<lambda>cls. marks AND classBit (int cls) \<noteq> 0) [0..<kClassCount] of
              Some cls \<Rightarrow> int cls | None \<Rightarrow> - 1))"

definition kMaxBuckets :: nat where
  "kMaxBuckets = 2048"

datatype lane = LaneRules | LaneFind

record lane_state =
  bucket :: "marks list"
  scanned :: nat

record density =
  m_rows :: nat
  m_rowsPerBucket :: nat
  m_lane :: "lane \<Rightarrow> lane_state"

definition density_init :: density where
  "density_init = \<lparr>m_rows = 0, m_rowsPerBucket = 1, m_lane = (\<lambda>_. \<lparr>bucket = [], scanned = 0\<rparr>)\<rparr>"

abbreviation map_lanes :: "(lane_state \<Rightarrow> lane_state) \<Rightarrow> density \<Rightarrow> density" where
  "map_lanes f d \<equiv> d\<lparr>m_lane := (\<lambda>l. f (m_lane d l))\<rparr>"

definition bucketCount :: "density \<Rightarrow> nat" where
  "bucketCount d = length (bucket (m_lane d LaneRules))"

text \<open>A negative row is clamped to the first bucket, like the quotient it gives.\<close>

definition bucketOf :: "density \<Rightarrow> int \<Rightarrow> nat" where
  "bucketOf d row =
     (if m_rowsPerBucket d = 0 then 0 else min (nat row div m_rowsPerBucket d) (bucketCount d - 1))"

definition firstRowOf :: "density \<Rightarrow> nat \<Rightarrow> nat" where
  "firstRowOf d b = b * m_rowsPerBucket d"

section \<open>Shape\<close>

fun merge_pairs :: "marks list \<Rightarrow> marks list" where
  "merge_pairs [] = []"
| "merge_pairs [a] = [a]"
| "merge_pairs (a # b # bs) = (a OR b) # merge_pairs bs"

definition buckets_for :: "nat \<Rightarrow> nat \<Rightarrow> nat" where
  "buckets_for rows per = (rows + per - 1) div per"

lemma buckets_for_less: "0 < per \<Longrightarrow> b < buckets_for rows per \<longleftrightarrow> b * per < rows"
proof -
  assume per: "0 < per"
  have "b < buckets_for rows per \<longleftrightarrow> Suc b * per \<le> rows + per - 1"
    unfolding buckets_for_def Suc_le_eq [symmetric] by (rule less_eq_div_iff_mult_less_eq [OF per])
  then show ?thesis using per by auto
qed

function coarsen :: "density \<Rightarrow> density" where
  "coarsen d =
     (if kMaxBuckets < buckets_for (m_rows d) (m_rowsPerBucket d)
      then coarsen (map_lanes (\<lambda>s. s\<lparr>bucket := merge_pairs (bucket s)\<rparr>)
             (d\<lparr>m_rowsPerBucket := m_rowsPerBucket d * 2\<rparr>))
      else d)"
  by pat_completeness auto
termination
proof (relation "measure (\<lambda>d. m_rows d - m_rowsPerBucket d)")
  fix d :: density
  let ?per = "m_rowsPerBucket d"
  assume big: "kMaxBuckets < buckets_for (m_rows d) ?per"
  then have per: "0 < ?per" by (cases "?per = 0") (auto simp: buckets_for_def)
  from big have "1 < buckets_for (m_rows d) ?per" by (simp add: kMaxBuckets_def)
  then have "?per < m_rows d" using buckets_for_less [OF per, of 1 "m_rows d"] by simp
  with per show "(map_lanes (\<lambda>s. s\<lparr>bucket := merge_pairs (bucket s)\<rparr>)
      (d\<lparr>m_rowsPerBucket := ?per * 2\<rparr>), d) \<in> measure (\<lambda>d. m_rows d - m_rowsPerBucket d)"
    by simp
qed simp

declare coarsen.simps [simp del]

lemma coarsen_small: "buckets_for (m_rows d) (m_rowsPerBucket d) \<le> kMaxBuckets \<Longrightarrow> coarsen d = d"
  by (simp add: coarsen.simps [of d])

definition reshape :: "density \<Rightarrow> density" where
  "reshape d =
     (if m_rows d = 0
      then map_lanes (\<lambda>s. s\<lparr>bucket := [], scanned := 0\<rparr>) (d\<lparr>m_rowsPerBucket := 1\<rparr>)
      else (let d1 = coarsen d; want = buckets_for (m_rows d1) (m_rowsPerBucket d1)
            in map_lanes (\<lambda>s. s\<lparr>bucket := resize want kNone (bucket s), scanned := min (scanned s) (m_rows d1)\<rparr>) d1))"

section \<open>Operations\<close>

definition rebind :: "density \<Rightarrow> int \<Rightarrow> density" where
  "rebind d rows =
     reshape (map_lanes (\<lambda>s. s\<lparr>bucket := [], scanned := 0\<rparr>) (d\<lparr>m_rows := nat rows, m_rowsPerBucket := 1\<rparr>))"

definition setRows :: "density \<Rightarrow> int \<Rightarrow> density" where
  "setRows d rows =
     (let n = nat rows in
      if n = m_rows d then d
      else if n < m_rows d then
        (let d1 = reshape (d\<lparr>m_rows := n\<rparr>) in
         if 0 < bucketCount d1
         then (let b = bucketCount d1 - 1; from = firstRowOf d1 b
               in map_lanes (\<lambda>s. s\<lparr>bucket := (bucket s)[b := kNone], scanned := min (scanned s) from\<rparr>) d1)
         else map_lanes (\<lambda>s. s\<lparr>scanned := 0\<rparr>) d1)
      else reshape (d\<lparr>m_rows := n\<rparr>))"

definition clamp_row :: "density \<Rightarrow> int \<Rightarrow> int" where
  "clamp_row d r = max 0 (min r (int (m_rows d) - 1))"

definition invalidateRows :: "density \<Rightarrow> int \<Rightarrow> int \<Rightarrow> density" where
  "invalidateRows d firstRow lastRow =
     (if m_rows d = 0 \<or> bucketCount d = 0 then d
      else
        (let firstBucket = bucketOf d (clamp_row d (min firstRow lastRow));
             lastBucket = bucketOf d (clamp_row d (max firstRow lastRow));
             rewindTo = firstRowOf d firstBucket
         in map_lanes (\<lambda>s. s\<lparr>bucket := map (\<lambda>b. if firstBucket \<le> b \<and> b \<le> lastBucket then kNone else bucket s ! b)
                                        [0..<length (bucket s)],
                             scanned := min (scanned s) rewindTo\<rparr>) d))"

definition clear_lane :: "density \<Rightarrow> lane \<Rightarrow> density" where
  "clear_lane d l =
     d\<lparr>m_lane := (m_lane d)(l := \<lparr>bucket = replicate (length (bucket (m_lane d l))) kNone, scanned = 0\<rparr>)\<rparr>"

fun scan_rows :: "density \<Rightarrow> (int \<Rightarrow> marks) \<Rightarrow> nat list \<Rightarrow> marks list \<Rightarrow> marks list" where
  "scan_rows d probe [] bs = bs"
| "scan_rows d probe (row # rows) bs =
     (let answer = probe (int row); b = bucketOf d (int row)
      in scan_rows d probe rows (if answer = kNone then bs else bs[b := bs ! b OR answer]))"

definition scan :: "density \<Rightarrow> lane \<Rightarrow> int \<Rightarrow> (int \<Rightarrow> marks) \<Rightarrow> density \<times> nat" where
  "scan d l budgetRows probe =
     (let s = m_lane d l in
      if budgetRows \<le> 0 \<or> m_rows d \<le> scanned s \<or> bucket s = [] then (d, 0)
      else (let e = min (m_rows d) (scanned s + nat budgetRows)
            in (d\<lparr>m_lane := (m_lane d)(l := \<lparr>bucket = scan_rows d probe [scanned s..<e] (bucket s), scanned = e\<rparr>)\<rparr>,
                e - scanned s)))"

definition lane_complete :: "density \<Rightarrow> lane \<Rightarrow> bool" where
  "lane_complete d l = (m_rows d \<le> scanned (m_lane d l))"

definition marks_at :: "density \<Rightarrow> lane \<Rightarrow> int \<Rightarrow> marks" where
  "marks_at d l b =
     (if b < 0 \<or> int (length (bucket (m_lane d l))) \<le> b then kNone else bucket (m_lane d l) ! nat b)"

definition unionMask :: "density \<Rightarrow> lane \<Rightarrow> marks" where
  "unionMask d l = fold (\<lambda>m acc. acc OR m) (bucket (m_lane d l)) kNone"

section \<open>Invariant\<close>

definition shaped :: "density \<Rightarrow> bool" where
  "shaped d \<longleftrightarrow> 0 < m_rowsPerBucket d \<and>
     buckets_for (m_rows d) (m_rowsPerBucket d) \<le> kMaxBuckets \<and>
     (\<forall>l. length (bucket (m_lane d l)) = buckets_for (m_rows d) (m_rowsPerBucket d) \<and> scanned (m_lane d l) \<le> m_rows d)"

text \<open>What a lane says of its rows: a mark in a bucket comes from a row of the bucket, and the marks of
  a scanned row are in its bucket.\<close>

definition sound :: "(int \<Rightarrow> marks) \<Rightarrow> nat \<Rightarrow> nat \<Rightarrow> marks list \<Rightarrow> bool" where
  "sound p rows per bs \<longleftrightarrow>
     (\<forall>b < length bs. \<forall>n. bit (bs ! b) n \<longrightarrow> (\<exists>r < rows. r div per = b \<and> bit (p (int r)) n))"

definition covered :: "(int \<Rightarrow> marks) \<Rightarrow> nat \<Rightarrow> nat \<Rightarrow> marks list \<Rightarrow> bool" where
  "covered p k per bs \<longleftrightarrow>
     (\<forall>r < k. \<forall>n. bit (p (int r)) n \<longrightarrow> r div per < length bs \<and> bit (bs ! (r div per)) n)"

definition faithful :: "(lane \<Rightarrow> int \<Rightarrow> marks) \<Rightarrow> nat \<Rightarrow> density \<Rightarrow> bool" where
  "faithful p rows d \<longleftrightarrow> (\<forall>l. sound (p l) rows (m_rowsPerBucket d) (bucket (m_lane d l)) \<and>
     covered (p l) (scanned (m_lane d l)) (m_rowsPerBucket d) (bucket (m_lane d l)))"

lemma bit_kNone [simp]: "\<not> bit kNone n"
  by (simp add: kNone_def)

lemma merge_length [simp]: "length (merge_pairs bs) = (length bs + 1) div 2"
  by (induction bs rule: merge_pairs.induct) simp_all

lemma merge_nth:
  "i < (length bs + 1) div 2 \<Longrightarrow>
     bit (merge_pairs bs ! i) n \<longleftrightarrow> bit (bs ! (2 * i)) n \<or> (2 * i + 1 < length bs \<and> bit (bs ! (2 * i + 1)) n)"
proof (induction bs arbitrary: i rule: merge_pairs.induct)
  case (3 a b bs)
  then show ?case by (cases i) (simp_all add: bit_or_iff)
qed simp_all

lemma div_pair: "r div (per * 2) = r div per div (2 :: nat)"
  by (simp add: div_mult2_eq)

lemma merge_sound:
  assumes "sound p rows per bs"
  shows "sound p rows (per * 2) (merge_pairs bs)"
  unfolding sound_def
proof (intro allI impI)
  fix i n assume i: "i < length (merge_pairs bs)" and b: "bit (merge_pairs bs ! i) n"
  then obtain j where j: "j < length bs" "j div 2 = i" "bit (bs ! j) n"
  proof (cases "bit (bs ! (2 * i)) n")
    case True
    then show thesis using that [of "2 * i"] i by simp
  next
    case False
    then show thesis using that [of "2 * i + 1"] b i merge_nth [of i bs n] by simp
  qed
  with assms obtain r where "r < rows" "r div per = j" "bit (p (int r)) n" unfolding sound_def by blast
  with j(2) show "\<exists>r < rows. r div (per * 2) = i \<and> bit (p (int r)) n" by (auto simp: div_pair)
qed

lemma merge_covered:
  assumes "covered p k per bs"
  shows "covered p k (per * 2) (merge_pairs bs)"
  unfolding covered_def
proof (intro allI impI)
  fix r n assume "r < k" "bit (p (int r)) n"
  then have c: "r div per < length bs" "bit (bs ! (r div per)) n" using assms unfolding covered_def by blast+
  let ?j = "r div per"
  have i: "?j div 2 < (length bs + 1) div 2" using c(1) by linarith
  have "?j = 2 * (?j div 2) \<or> ?j = 2 * (?j div 2) + 1" by linarith
  with c have "bit (merge_pairs bs ! (?j div 2)) n" unfolding merge_nth [OF i] by metis
  with i show "r div (per * 2) < length (merge_pairs bs) \<and> bit (merge_pairs bs ! (r div (per * 2))) n"
    by (simp add: div_pair)
qed

lemma coarsen_ok:
  assumes "0 < m_rowsPerBucket d" and "faithful p rows d"
  shows "0 < m_rowsPerBucket (coarsen d) \<and> faithful p rows (coarsen d) \<and> m_rows (coarsen d) = m_rows d \<and>
    buckets_for (m_rows d) (m_rowsPerBucket (coarsen d)) \<le> kMaxBuckets"
  using assms
proof (induction d rule: coarsen.induct)
  case (1 d)
  show ?case
  proof (cases "kMaxBuckets < buckets_for (m_rows d) (m_rowsPerBucket d)")
    case True
    let ?d = "map_lanes (\<lambda>s. s\<lparr>bucket := merge_pairs (bucket s)\<rparr>) (d\<lparr>m_rowsPerBucket := m_rowsPerBucket d * 2\<rparr>)"
    have "faithful p rows ?d" using "1.prems"(2) by (simp add: faithful_def merge_sound merge_covered)
    from "1.IH" [OF True _ this] "1.prems"(1) show ?thesis using True by (simp add: coarsen.simps [of d])
  next
    case False
    with "1.prems" show ?thesis by (simp add: coarsen.simps [of d])
  qed
qed

lemma resize_sound: "sound p rows per bs \<Longrightarrow> sound p rows per (resize n kNone bs)"
  by (auto simp: sound_def resize_def nth_append)

lemma resize_covered:
  "covered p k per bs \<Longrightarrow> 0 < per \<Longrightarrow> covered p (min k rows) per (resize (buckets_for rows per) kNone bs)"
  unfolding covered_def
proof (intro allI impI)
  fix r n assume c: "\<forall>r < k. \<forall>n. bit (p (int r)) n \<longrightarrow> r div per < length bs \<and> bit (bs ! (r div per)) n"
    and per: "0 < per" and r: "r < min k rows" "bit (p (int r)) n"
  have "r div per * per < rows" using r(1) div_times_less_eq_dividend [of r per] by linarith
  then have "r div per < buckets_for rows per" unfolding buckets_for_less [OF per] .
  with c r show "r div per < length (resize (buckets_for rows per) kNone bs) \<and>
      bit (resize (buckets_for rows per) kNone bs ! (r div per)) n"
    by (simp add: resize_def nth_append)
qed

lemma reshape_ok:
  assumes "0 < m_rowsPerBucket d" and "faithful p rows d"
  shows "shaped (reshape d) \<and> faithful p rows (reshape d) \<and> m_rows (reshape d) = m_rows d"
proof (cases "m_rows d = 0")
  case True
  then show ?thesis
    by (simp add: reshape_def shaped_def faithful_def sound_def covered_def buckets_for_def kMaxBuckets_def)
next
  case False
  from coarsen_ok [OF assms] False show ?thesis
    by (simp add: reshape_def shaped_def faithful_def resize_sound resize_covered Let_def)
qed

lemma bucketCount_lane: "shaped d \<Longrightarrow> length (bucket (m_lane d l)) = bucketCount d"
  by (simp add: shaped_def bucketCount_def)

lemma rebind_ok: "shaped (rebind d n) \<and> faithful p (nat n) (rebind d n) \<and> m_rows (rebind d n) = nat n"
  unfolding rebind_def
  using reshape_ok [of "map_lanes (\<lambda>s. s\<lparr>bucket := [], scanned := 0\<rparr>) (d\<lparr>m_rows := nat n, m_rowsPerBucket := 1\<rparr>)" p "nat n"]
  by (simp add: faithful_def sound_def covered_def)

text \<open>Clearing buckets and rewinding to the first of them keeps the others.\<close>

lemma clear_buckets:
  assumes "sound p rows per bs" and "covered p k per bs" and "0 < per"
    and keep: "\<And>r. r < rows' \<or> r < rows \<Longrightarrow> \<not> (first \<le> r div per \<and> r div per \<le> final) \<Longrightarrow> r div per < length bs \<Longrightarrow>
      r < rows' \<and> p' (int r) = p (int r)"
    and k': "k' \<le> k" "k' \<le> first * per" "k' \<le> rows'" "first \<le> length bs"
  shows "sound p' rows' per (map (\<lambda>b. if first \<le> b \<and> b \<le> final then kNone else bs ! b) [0..<length bs])"
    and "covered p' k' per (map (\<lambda>b. if first \<le> b \<and> b \<le> final then kNone else bs ! b) [0..<length bs])"
proof -
  show "sound p' rows' per (map (\<lambda>b. if first \<le> b \<and> b \<le> final then kNone else bs ! b) [0..<length bs])"
    unfolding sound_def
  proof (intro allI impI)
    fix b n
    assume b: "b < length (map (\<lambda>b. if first \<le> b \<and> b \<le> final then kNone else bs ! b) [0..<length bs])"
      and "bit (map (\<lambda>b. if first \<le> b \<and> b \<le> final then kNone else bs ! b) [0..<length bs] ! b) n"
    then have out: "\<not> (first \<le> b \<and> b \<le> final)" and bt: "b < length bs" "bit (bs ! b) n" by (auto split: if_splits)
    with assms(1) obtain r where r: "r < rows" "r div per = b" "bit (p (int r)) n" unfolding sound_def by blast
    with keep [of r] out bt show "\<exists>r < rows'. r div per = b \<and> bit (p' (int r)) n" by auto
  qed
  show "covered p' k' per (map (\<lambda>b. if first \<le> b \<and> b \<le> final then kNone else bs ! b) [0..<length bs])"
    unfolding covered_def
  proof (intro allI impI)
    fix r n assume r: "r < k'" "bit (p' (int r)) n"
    then have "r div per < first" using k'(2) assms(3) by (simp add: div_less_iff_less_mult less_le_trans)
    with keep [of r] r k' have "p' (int r) = p (int r)" by auto
    with r k'(1) assms(2) have "r div per < length bs" "bit (bs ! (r div per)) n" unfolding covered_def by auto
    then show "r div per < length (map (\<lambda>b. if first \<le> b \<and> b \<le> final then kNone else bs ! b) [0..<length bs]) \<and>
        bit (map (\<lambda>b. if first \<le> b \<and> b \<le> final then kNone else bs ! b) [0..<length bs] ! (r div per)) n"
      using \<open>r div per < first\<close> by simp
  qed
qed

lemma list_update_clear:
  "b < length bs \<Longrightarrow> bs[b := kNone] = map (\<lambda>i. if b \<le> i \<and> i \<le> b then kNone else bs ! i) [0..<length bs]"
  by (intro nth_equalityI) (auto simp: nth_list_update)

lemma lane_cong:
  assumes "sound p rows per bs" and "covered p k per bs" and "k \<le> rows" and "\<And>r. r < rows \<Longrightarrow> p' (int r) = p (int r)"
  shows "sound p' rows per bs \<and> covered p' k per bs"
proof
  show "sound p' rows per bs" using assms(1) unfolding sound_def by (metis assms(4))
  show "covered p' k per bs" using assms(2) unfolding covered_def by (metis assms(3,4) less_le_trans)
qed

lemma faithful_cong:
  assumes "faithful p rows d" and "shaped d" and "\<And>l r. r < rows \<or> r < m_rows d \<Longrightarrow> p' l (int r) = p l (int r)"
  shows "faithful p' rows d"
  using assms unfolding faithful_def sound_def covered_def shaped_def
  by (metis less_le_trans)

lemma reshape_rows:
  assumes "shaped d" and "faithful p rows d"
  shows "shaped (reshape (d\<lparr>m_rows := n\<rparr>)) \<and> faithful p rows (reshape (d\<lparr>m_rows := n\<rparr>)) \<and>
    m_rows (reshape (d\<lparr>m_rows := n\<rparr>)) = n"
proof -
  have "0 < m_rowsPerBucket (d\<lparr>m_rows := n\<rparr>)" using assms(1) by (simp add: shaped_def)
  moreover have "faithful p rows (d\<lparr>m_rows := n\<rparr>)" using assms(2) by (simp add: faithful_def)
  ultimately show ?thesis using reshape_ok [of "d\<lparr>m_rows := n\<rparr>" p rows] by simp
qed

lemma shrink_ok:
  assumes "shaped d" and "faithful p (m_rows d) d" and n: "n < m_rows d"
    and same: "\<And>l r. r < n \<Longrightarrow> p' l (int r) = p l (int r)"
  shows "shaped (setRows d (int n)) \<and> faithful p' n (setRows d (int n)) \<and> m_rows (setRows d (int n)) = n"
proof -
  define d1 where "d1 = reshape (d\<lparr>m_rows := n\<rparr>)"
  have d1: "shaped d1" "faithful p (m_rows d) d1" "m_rows d1 = n"
    using reshape_rows [OF assms(1,2), of n] by (simp_all add: d1_def)
  have eq: "setRows d (int n) = (if 0 < bucketCount d1
      then map_lanes (\<lambda>s. s\<lparr>bucket := (bucket s)[bucketCount d1 - 1 := kNone],
        scanned := min (scanned s) (firstRowOf d1 (bucketCount d1 - 1))\<rparr>) d1
      else map_lanes (\<lambda>s. s\<lparr>scanned := 0\<rparr>) d1)"
    using n by (simp add: setRows_def d1_def Let_def)
  let ?per = "m_rowsPerBucket d1"
  have per: "0 < ?per" using d1(1) by (simp add: shaped_def)
  have len: "length (bucket (m_lane d1 l)) = bucketCount d1" for l using bucketCount_lane [OF d1(1)] .
  have count: "bucketCount d1 = buckets_for n ?per" using d1(1,3) by (simp add: shaped_def bucketCount_def)
  show ?thesis
  proof (cases "bucketCount d1 = 0")
    case True
    then show ?thesis using d1(1,3) len by (simp add: eq shaped_def faithful_def sound_def covered_def)
  next
    case False
    let ?b = "bucketCount d1 - 1"
    have top: "?b * ?per < n" using buckets_for_less [OF per, of ?b n] count False by simp
    have keep: "r < n \<and> p' l (int r) = p l (int r)"
      if "\<not> (?b \<le> r div ?per \<and> r div ?per \<le> ?b)" "r div ?per < length (bucket (m_lane d1 l))" for r l
    proof -
      have "r div ?per < ?b" using that len [of l] by linarith
      then have "r < ?b * ?per" using per by (simp add: div_less_iff_less_mult)
      then show ?thesis using top same by simp
    qed
    have "sound (p' l) n ?per ((bucket (m_lane d1 l))[?b := kNone])"
      "covered (p' l) (min (scanned (m_lane d1 l)) (?b * ?per)) ?per ((bucket (m_lane d1 l))[?b := kNone])" for l
    proof -
      have s: "sound (p l) (m_rows d) ?per (bucket (m_lane d1 l))"
        "covered (p l) (scanned (m_lane d1 l)) ?per (bucket (m_lane d1 l))"
        using d1(2) by (auto simp: faithful_def)
      have b: "?b < length (bucket (m_lane d1 l))" using False len [of l] by simp
      show "sound (p' l) n ?per ((bucket (m_lane d1 l))[?b := kNone])"
        "covered (p' l) (min (scanned (m_lane d1 l)) (?b * ?per)) ?per ((bucket (m_lane d1 l))[?b := kNone])"
        unfolding list_update_clear [OF b]
        by (rule clear_buckets [OF s per, where rows' = n and k' = "min (scanned (m_lane d1 l)) (?b * ?per)"];
            use keep top b in \<open>simp add: min.coboundedI2\<close>)+
    qed
    with False d1(1,3) show ?thesis by (simp add: eq shaped_def faithful_def firstRowOf_def min.coboundedI1)
  qed
qed

lemma setRows_ok:
  assumes "shaped d" and "faithful p (m_rows d) d"
    and same: "\<And>l r. r < m_rows d \<Longrightarrow> int r < n \<Longrightarrow> p' l (int r) = p l (int r)"
  shows "shaped (setRows d n) \<and> faithful p' (nat n) (setRows d n) \<and> m_rows (setRows d n) = nat n"
proof -
  have nat: "setRows d n = setRows d (int (nat n))" by (simp add: setRows_def)
  consider "nat n = m_rows d" | "nat n < m_rows d" | "m_rows d < nat n" by linarith
  then show ?thesis
  proof cases
    case 1
    then have "faithful p' (m_rows d) d" by (intro faithful_cong [OF assms(2,1)] same) auto
    with 1 assms(1) show ?thesis by (simp add: setRows_def)
  next
    case 2
    show ?thesis unfolding nat by (rule shrink_ok [OF assms(1,2) 2]) (use same 2 in auto)
  next
    case 3
    have "faithful p' (m_rows d) d" by (intro faithful_cong [OF assms(2,1)] same) (use 3 in auto)
    then have "faithful p' (nat n) d"
      unfolding faithful_def sound_def using 3 by (metis less_trans)
    with reshape_rows [OF assms(1)] 3 show ?thesis by (simp add: setRows_def)
  qed
qed

lemma bucketOf_row:
  assumes "shaped d" and "r < m_rows d"
  shows "bucketOf d (int r) = r div m_rowsPerBucket d" and "r div m_rowsPerBucket d < bucketCount d"
proof -
  have per: "0 < m_rowsPerBucket d" using assms(1) by (simp add: shaped_def)
  have "r div m_rowsPerBucket d * m_rowsPerBucket d < m_rows d"
    using assms(2) div_times_less_eq_dividend [of r "m_rowsPerBucket d"] by linarith
  then show b: "r div m_rowsPerBucket d < bucketCount d"
    using assms(1) buckets_for_less [OF per] by (simp add: shaped_def bucketCount_def)
  show "bucketOf d (int r) = r div m_rowsPerBucket d" using b per by (simp add: bucketOf_def)
qed

lemma clamp_row_nat: "m_rows d \<noteq> 0 \<Longrightarrow> clamp_row d r = int (nat (clamp_row d r)) \<and> nat (clamp_row d r) < m_rows d"
  by (auto simp: clamp_row_def)

lemma invalidate_rows_ok:
  assumes "shaped d" and "faithful p (m_rows d) d"
    and same: "\<And>l r. r < m_rows d \<Longrightarrow> int r < min first final \<or> max first final < int r \<Longrightarrow> p' l (int r) = p l (int r)"
  shows "shaped (invalidateRows d first final) \<and> faithful p' (m_rows d) (invalidateRows d first final) \<and>
    m_rows (invalidateRows d first final) = m_rows d"
proof (cases "m_rows d = 0")
  case True
  then have "faithful p' (m_rows d) d" by (intro faithful_cong [OF assms(2,1)]) auto
  with True assms(1) show ?thesis by (simp add: invalidateRows_def)
next
  case False
  define lo where "lo = nat (clamp_row d (min first final))"
  define hi where "hi = nat (clamp_row d (max first final))"
  have rows: "lo < m_rows d" "hi < m_rows d" "clamp_row d (min first final) = int lo" "clamp_row d (max first final) = int hi"
    using clamp_row_nat [OF False] by (auto simp: lo_def hi_def)
  let ?per = "m_rowsPerBucket d"
  have per: "0 < ?per" using assms(1) by (simp add: shaped_def)
  note blo = bucketOf_row [OF assms(1) rows(1)] and bhi = bucketOf_row [OF assms(1) rows(2)]
  have len: "length (bucket (m_lane d l)) = bucketCount d" for l using bucketCount_lane [OF assms(1)] .
  have keep: "r < m_rows d \<and> p' l (int r) = p l (int r)"
    if "r < m_rows d" "\<not> (lo div ?per \<le> r div ?per \<and> r div ?per \<le> hi div ?per)" for r l
  proof -
    have "\<not> (lo \<le> r \<and> r \<le> hi)" using that(2) div_le_mono [of lo r ?per] div_le_mono [of r hi ?per] by auto
    then have "int r < min first final \<or> max first final < int r"
      using rows(3,4) that(1) unfolding clamp_row_def by linarith
    with same that(1) show ?thesis by blast
  qed
  have lane: "sound (p' l) (m_rows d) ?per (map (\<lambda>b. if lo div ?per \<le> b \<and> b \<le> hi div ?per then kNone else bucket (m_lane d l) ! b)
        [0..<length (bucket (m_lane d l))]) \<and>
      covered (p' l) (min (scanned (m_lane d l)) (lo div ?per * ?per)) ?per
        (map (\<lambda>b. if lo div ?per \<le> b \<and> b \<le> hi div ?per then kNone else bucket (m_lane d l) ! b)
        [0..<length (bucket (m_lane d l))])" for l
  proof -
    have s: "sound (p l) (m_rows d) ?per (bucket (m_lane d l))" "covered (p l) (scanned (m_lane d l)) ?per (bucket (m_lane d l))"
      and k: "scanned (m_lane d l) \<le> m_rows d"
      using assms(1,2) by (auto simp: faithful_def shaped_def)
    have first_le: "lo div ?per \<le> length (bucket (m_lane d l))" using blo(2) len [of l] by simp
    have k': "min (scanned (m_lane d l)) (lo div ?per * ?per) \<le> m_rows d" using k by (rule min.coboundedI1)
    have keep': "r < m_rows d \<and> p' l (int r) = p l (int r)"
      if "r < m_rows d \<or> r < m_rows d" "\<not> (lo div ?per \<le> r div ?per \<and> r div ?per \<le> hi div ?per)"
        "r div ?per < length (bucket (m_lane d l))" for r
      using keep that(1,2) by blast
    note args = s per _ min.cobounded1 min.cobounded2 k' first_le
    show ?thesis
    proof (rule conjI)
      show "sound (p' l) (m_rows d) ?per (map (\<lambda>b. if lo div ?per \<le> b \<and> b \<le> hi div ?per then kNone else bucket (m_lane d l) ! b)
          [0..<length (bucket (m_lane d l))])"
        by (rule clear_buckets(1) [OF args]) (rule keep')
      show "covered (p' l) (min (scanned (m_lane d l)) (lo div ?per * ?per)) ?per
          (map (\<lambda>b. if lo div ?per \<le> b \<and> b \<le> hi div ?per then kNone else bucket (m_lane d l) ! b)
          [0..<length (bucket (m_lane d l))])"
        by (rule clear_buckets(2) [OF args]) (rule keep')
    qed
  qed
  have "bucketCount d \<noteq> 0" using blo(2) by simp
  then have "invalidateRows d first final = map_lanes (\<lambda>s. s\<lparr>bucket := map (\<lambda>b. if lo div ?per \<le> b \<and> b \<le> hi div ?per
      then kNone else bucket s ! b) [0..<length (bucket s)], scanned := min (scanned s) (lo div ?per * ?per)\<rparr>) d"
    using False rows blo(1) bhi(1) by (simp add: invalidateRows_def firstRowOf_def Let_def)
  then show ?thesis using lane assms(1) by (simp add: shaped_def faithful_def min.coboundedI1)
qed

lemma clear_lane_ok:
  assumes "shaped d" and "faithful p (m_rows d) d" and "\<And>l' r. l' \<noteq> l \<Longrightarrow> r < m_rows d \<Longrightarrow> p' l' (int r) = p l' (int r)"
  shows "shaped (clear_lane d l) \<and> faithful p' (m_rows d) (clear_lane d l) \<and> m_rows (clear_lane d l) = m_rows d"
proof -
  have "sound (p' l) (m_rows d) (m_rowsPerBucket d) (replicate k kNone)" for k by (simp add: sound_def)
  moreover have "sound (p' l') (m_rows d) (m_rowsPerBucket d) (bucket (m_lane d l')) \<and>
      covered (p' l') (scanned (m_lane d l')) (m_rowsPerBucket d) (bucket (m_lane d l'))" if "l' \<noteq> l" for l'
  proof -
    have "scanned (m_lane d l') \<le> m_rows d" using assms(1) by (simp add: shaped_def)
    with assms(2,3) that show ?thesis by (intro lane_cong [of "p l'"]) (auto simp: faithful_def)
  qed
  ultimately show ?thesis
    using assms(1) by (auto simp: clear_lane_def shaped_def faithful_def covered_def)
qed

lemma scan_rows_length [simp]: "length (scan_rows d probe rows bs) = length bs"
  by (induction rows arbitrary: bs) (simp_all add: Let_def)

lemma scan_rows_bit:
  assumes "shaped d" and "\<forall>r \<in> set rows. r < m_rows d" and "length bs = bucketCount d" and "b < length bs"
  shows "bit (scan_rows d probe rows bs ! b) n \<longleftrightarrow>
    bit (bs ! b) n \<or> (\<exists>r \<in> set rows. r div m_rowsPerBucket d = b \<and> bit (probe (int r)) n)"
  using assms(2-4)
proof (induction rows arbitrary: bs)
  case (Cons r rows)
  then have at: "bucketOf d (int r) = r div m_rowsPerBucket d" "r div m_rowsPerBucket d < length bs"
    using bucketOf_row [OF assms(1), of r] by simp_all
  show ?case
  proof (cases "probe (int r) = kNone")
    case True
    then show ?thesis using Cons by (simp add: Let_def)
  next
    case False
    then show ?thesis
      using Cons.IH [of "bs[r div m_rowsPerBucket d := bs ! (r div m_rowsPerBucket d) OR probe (int r)]"] Cons.prems at
      by (auto simp: Let_def bit_or_iff nth_list_update)
  qed
qed simp

lemma scan_ok:
  assumes "shaped d" and "faithful p (m_rows d) d"
  shows "shaped (fst (scan d l budget (p l))) \<and> faithful p (m_rows d) (fst (scan d l budget (p l))) \<and>
    m_rows (fst (scan d l budget (p l))) = m_rows d"
proof (cases "budget \<le> 0 \<or> m_rows d \<le> scanned (m_lane d l) \<or> bucket (m_lane d l) = []")
  case True
  then show ?thesis using assms by (auto simp: scan_def Let_def)
next
  case False
  let ?s = "m_lane d l" and ?per = "m_rowsPerBucket d"
  define e where "e = min (m_rows d) (scanned ?s + nat budget)"
  define bs where "bs = scan_rows d (p l) [scanned ?s..<e] (bucket ?s)"
  have eq: "fst (scan d l budget (p l)) = d\<lparr>m_lane := (m_lane d)(l := \<lparr>bucket = bs, scanned = e\<rparr>)\<rparr>"
    using False by (auto simp: scan_def Let_def e_def bs_def)
  have old: "sound (p l) (m_rows d) ?per (bucket ?s)" "covered (p l) (scanned ?s) ?per (bucket ?s)"
    using assms(2) by (auto simp: faithful_def)
  have len: "length (bucket ?s) = bucketCount d" "length bs = bucketCount d"
    using bucketCount_lane [OF assms(1)] by (simp_all add: bs_def)
  have e: "e \<le> m_rows d" by (simp add: e_def)
  have bits: "bit (bs ! b) n \<longleftrightarrow> bit (bucket ?s ! b) n \<or> (\<exists>r \<in> set [scanned ?s..<e]. r div ?per = b \<and> bit (p l (int r)) n)"
    if "b < bucketCount d" for b n
    unfolding bs_def by (rule scan_rows_bit [OF assms(1)]) (use e len that in auto)
  have "sound (p l) (m_rows d) ?per bs"
    unfolding sound_def
  proof (intro allI impI)
    fix b n assume b: "b < length bs" "bit (bs ! b) n"
    with bits [of b n] len(2) consider "bit (bucket ?s ! b) n" | r where "r < e" "r div ?per = b" "bit (p l (int r)) n" by auto
    then show "\<exists>r < m_rows d. r div ?per = b \<and> bit (p l (int r)) n"
    proof cases
      case 1
      then show ?thesis using old(1) b(1) len unfolding sound_def by metis
    next
      case 2
      then show ?thesis using e by (intro exI [of _ r]) simp
    qed
  qed
  moreover have "covered (p l) e ?per bs"
    unfolding covered_def
  proof (intro allI impI)
    fix r n assume r: "r < e" "bit (p l (int r)) n"
    then have b: "r div ?per < bucketCount d" using bucketOf_row [OF assms(1)] e by simp
    show "r div ?per < length bs \<and> bit (bs ! (r div ?per)) n"
    proof (cases "r < scanned ?s")
      case True
      then show ?thesis using bits [OF b, of n] b len r(2) old(2) unfolding covered_def by simp
    next
      case False
      then show ?thesis using bits [OF b, of n] b len r by auto
    qed
  qed
  ultimately have "faithful p (m_rows d) (fst (scan d l budget (p l)))"
    using assms(2) unfolding eq faithful_def by simp
  moreover have "length bs = buckets_for (m_rows d) ?per" using assms(1) by (simp add: bs_def shaped_def)
  then have "shaped (fst (scan d l budget (p l)))" using assms(1) e unfolding eq shaped_def by simp
  ultimately show ?thesis by (simp add: eq)
qed

section \<open>Properties\<close>

text \<open>The life of a map over rows whose marks are \<open>p\<close>. Rows that are added, reported as changed, or in a
  lane that is cleared may have new marks; the others keep theirs.\<close>

inductive density_run :: "(lane \<Rightarrow> int \<Rightarrow> marks) \<Rightarrow> density \<Rightarrow> bool" where
  bind: "density_run p (rebind d n)"
| rows: "density_run p d \<Longrightarrow> (\<And>l r. r < m_rows d \<Longrightarrow> int r < n \<Longrightarrow> p' l (int r) = p l (int r)) \<Longrightarrow>
    density_run p' (setRows d n)"
| change: "density_run p d \<Longrightarrow>
    (\<And>l r. r < m_rows d \<Longrightarrow> int r < min first final \<or> max first final < int r \<Longrightarrow> p' l (int r) = p l (int r)) \<Longrightarrow>
    density_run p' (invalidateRows d first final)"
| clear: "density_run p d \<Longrightarrow> (\<And>l' r. l' \<noteq> l \<Longrightarrow> r < m_rows d \<Longrightarrow> p' l' (int r) = p l' (int r)) \<Longrightarrow>
    density_run p' (clear_lane d l)"
| scan: "density_run p d \<Longrightarrow> density_run p (fst (scan d l budget (p l)))"

lemma density_run_ok: "density_run p d \<Longrightarrow> shaped d \<and> faithful p (m_rows d) d"
proof (induction rule: density_run.induct)
  case (bind p d n)
  then show ?case using rebind_ok [of d n p] by simp
next
  case (rows p d n p')
  then show ?case using setRows_ok [of d p n p'] by simp
next
  case (change p d first final p')
  then show ?case using invalidate_rows_ok [of d p first final p'] by simp
next
  case (clear p d l p')
  then show ?case using clear_lane_ok [of d p l p'] by simp
next
  case (scan p d l budget)
  then show ?case using scan_ok [of d p l budget] by simp
qed

text \<open>C10: density_exact. Whatever was bound, scanned, grown, shrunk, reported as changed and cleared, in any
  order: a mark shown in a bucket is the mark of one of its rows as they are now, the marks of a
  scanned row are shown, and when a lane is complete a bucket shows exactly the union of the marks of
  its rows. Buckets merged by growth, and buckets left alone by a local change, are right as they are.\<close>

theorem density_exact:
  assumes "density_run p d" and "b < bucketCount d"
  shows "(bit (marks_at d l (int b)) n \<longrightarrow> (\<exists>r < m_rows d. bucketOf d (int r) = b \<and> bit (p l (int r)) n)) \<and>
    (\<forall>r < scanned (m_lane d l). bucketOf d (int r) = b \<and> bit (p l (int r)) n \<longrightarrow> bit (marks_at d l (int b)) n) \<and>
    (lane_complete d l \<longrightarrow>
       bit (marks_at d l (int b)) n = (\<exists>r < m_rows d. bucketOf d (int r) = b \<and> bit (p l (int r)) n))"
proof -
  have ok: "shaped d" "faithful p (m_rows d) d" using density_run_ok [OF assms(1)] by auto
  let ?bs = "bucket (m_lane d l)" and ?per = "m_rowsPerBucket d"
  have b: "b < length ?bs" using bucketCount_lane [OF ok(1)] assms(2) by simp
  then have at: "marks_at d l (int b) = ?bs ! b" by (simp add: marks_at_def)
  have row: "bucketOf d (int r) = r div ?per" if "r < m_rows d" for r using bucketOf_row [OF ok(1) that] by simp
  have k: "scanned (m_lane d l) \<le> m_rows d" using ok(1) by (simp add: shaped_def)
  have "sound (p l) (m_rows d) ?per ?bs" and c: "covered (p l) (scanned (m_lane d l)) ?per ?bs"
    using ok(2) by (auto simp: faithful_def)
  then have s: "bit (?bs ! b) n \<Longrightarrow> \<exists>r < m_rows d. bucketOf d (int r) = b \<and> bit (p l (int r)) n"
    using b row unfolding sound_def by metis
  moreover have c': "bit (?bs ! b) n" if "r < scanned (m_lane d l)" "bucketOf d (int r) = b" "bit (p l (int r)) n" for r
    using c that row [of r] k unfolding covered_def by auto
  ultimately show ?thesis unfolding at lane_complete_def using k by (metis le_antisym)
qed

definition sample_density :: density where
  "sample_density = fst (scan (rebind density_init 3) LaneRules 2 (\<lambda>r. classBit r))"

lemma sample_density_facts:
  "bucketCount sample_density = 3 \<and> m_rows sample_density = 3 \<and> m_rowsPerBucket sample_density = 1 \<and>
   scanned (m_lane sample_density LaneRules) = 2"
  by code_simp

lemma sample_density_run: "density_run (\<lambda>_ r. classBit r) sample_density"
  unfolding sample_density_def by (rule density_run.scan [OF density_run.bind])

theorem density_exact_witness:
  "bit (marks_at sample_density LaneRules (int 1)) 1"
proof -
  have b: "(1 :: nat) < bucketCount sample_density" using sample_density_facts by simp
  have "bit (classBit (int 1)) 1" by (simp add: classBit_def kClassCount_def bit_simps)
  moreover have "bucketOf sample_density (int 1) = 1" using sample_density_facts by (simp add: bucketOf_def)
  moreover have "(1 :: nat) < scanned (m_lane sample_density LaneRules)" using sample_density_facts by simp
  ultimately show ?thesis using density_exact [OF sample_density_run b, of LaneRules 1] by blast
qed

text \<open>However many rows there are, a lane never has more than 2048 buckets, both lanes have
  the same number, no more rows are scanned than exist, and every row falls into an existing bucket
  which starts at or before it.\<close>

theorem density_bounded:
  assumes "density_run p d"
  shows "bucketCount d \<le> 2048 \<and> (\<forall>l. length (bucket (m_lane d l)) = bucketCount d \<and> scanned (m_lane d l) \<le> m_rows d) \<and>
    (\<forall>r < m_rows d. bucketOf d (int r) < bucketCount d \<and> firstRowOf d (bucketOf d (int r)) \<le> r \<and>
       r < firstRowOf d (bucketOf d (int r) + 1))"
proof -
  have ok: "shaped d" using density_run_ok [OF assms] by simp
  have count: "bucketCount d \<le> 2048" using ok by (simp add: shaped_def bucketCount_def kMaxBuckets_def)
  have per: "0 < m_rowsPerBucket d" using ok by (simp add: shaped_def)
  have "bucketOf d (int r) < bucketCount d \<and> firstRowOf d (bucketOf d (int r)) \<le> r \<and> r < firstRowOf d (bucketOf d (int r) + 1)"
    if "r < m_rows d" for r
    using bucketOf_row [OF ok that] dividend_less_div_times [OF per, of r]
    by (simp add: firstRowOf_def div_times_less_eq_dividend add.commute)
  with count ok show ?thesis by (simp add: bucketCount_lane [OF ok]) (simp add: shaped_def)
qed

theorem density_bounded_witness:
  "bucketCount (rebind density_init 100000) \<le> 2048"
  using density_bounded [OF density_run.bind [of "\<lambda>_ _. kNone" density_init 100000]] by blast

fun scan_ticks :: "nat \<Rightarrow> density \<Rightarrow> lane \<Rightarrow> int \<Rightarrow> (int \<Rightarrow> marks) \<Rightarrow> density" where
  "scan_ticks 0 d l budget probe = d"
| "scan_ticks (Suc k) d l budget probe = scan_ticks k (fst (scan d l budget probe)) l budget probe"

lemma scan_progress:
  assumes "shaped d" and "0 < budget"
  shows "scanned (m_lane (fst (scan d l budget probe)) l) = min (m_rows d) (scanned (m_lane d l) + nat budget)"
proof -
  have "scanned (m_lane d l) \<le> m_rows d" using assms(1) by (simp add: shaped_def)
  moreover have "bucket (m_lane d l) \<noteq> []" if "scanned (m_lane d l) < m_rows d"
  proof -
    have "0 < bucketCount d" using bucketOf_row(2) [OF assms(1) that] by simp
    then show ?thesis using bucketCount_lane [OF assms(1), of l] by auto
  qed
  ultimately show ?thesis using assms(2)
    by (cases "scanned (m_lane d l) < m_rows d") (simp_all add: scan_def Let_def)
qed

lemma ticks_progress:
  assumes "shaped d" and "faithful p (m_rows d) d" and "0 < budget"
  shows "m_rows (scan_ticks k d l budget (p l)) = m_rows d \<and>
    scanned (m_lane (scan_ticks k d l budget (p l)) l) = min (m_rows d) (scanned (m_lane d l) + k * nat budget)"
  using assms(1,2)
proof (induction k arbitrary: d)
  case 0
  then show ?case by (simp add: shaped_def)
next
  case (Suc k)
  from scan_ok [OF Suc.prems, of l budget] scan_progress [OF Suc.prems(1) assms(3), of l "p l"]
  show ?case using Suc.IH [of "fst (scan d l budget (p l))"] by (simp add: min_def)
qed

text \<open>Scanning with any positive budget completes the lane: each call covers as many rows
  as the budget allows, so \<open>k\<close> calls of \<open>w\<close> rows cover \<open>k * w\<close> rows, and a complete lane is left alone.\<close>

theorem density_scan_finishes:
  assumes "density_run p d" and "0 < budget" and "m_rows d \<le> scanned (m_lane d l) + k * nat budget"
  shows "lane_complete (scan_ticks k d l budget (p l)) l \<and>
    (lane_complete d l \<longrightarrow> scan d l budget (p l) = (d, 0))"
  using ticks_progress [of d p budget k l] density_run_ok [OF assms(1)] assms(2,3)
  by (simp add: lane_complete_def scan_def)

theorem density_scan_finishes_witness:
  "lane_complete (scan_ticks 25 (rebind density_init 100000) LaneFind 4000 (\<lambda>r. kNone)) LaneFind"
proof -
  have "m_rows (rebind density_init 100000) = nat 100000" using rebind_ok by blast
  then show ?thesis
    using density_scan_finishes [OF density_run.bind [of "\<lambda>_ _. kNone" density_init 100000], of 4000 LaneFind 25] by simp
qed

end
