(* ===== verification/ExecCommands.thy ===== *)
theory ExecCommands
  imports Bytes
begin

text \<open>
  \<open>src/core/SshExecCommands\<close> (and the parent folder of \<open>PathTrouble\<close>): the shell commands a log is read with
  over a plain exec channel, and the parsers of what they print. A reference reader of POSIX shell words
  says what a far end makes of a command.
\<close>

section \<open>Commands\<close>

fun shell_body :: "string \<Rightarrow> string" where
  "shell_body [] = []"
| "shell_body (c # cs) = (if c = squote then [squote, bslash, squote, squote] else [c]) @ shell_body cs"

definition shellQuote :: "string \<Rightarrow> string" where
  "shellQuote path = squote # shell_body path @ [squote]"

definition quoted :: "string \<Rightarrow> string" where
  "quoted s = [squote] @ s @ [squote]"

definition statCommand :: "string \<Rightarrow> string" where
  "statCommand path =
     ''stat -c '' @ quoted ''%s %Y'' @ '' '' @ shellQuote path @ '' 2>/dev/null || stat -f '' @
     quoted ''%z %m'' @ '' '' @ shellQuote path"

definition lsSizeCommand :: "string \<Rightarrow> string" where
  "lsSizeCommand path =
     ''LC_ALL=C BLOCK_SIZE=1 LS_BLOCK_SIZE=1 QUOTING_STYLE=literal ls -lnLd '' @ shellQuote path"

definition wcSizeCommand :: "string \<Rightarrow> string" where
  "wcSizeCommand path = ''wc -c < '' @ shellQuote path"

datatype byte_safety = Raw | Base64

definition readCommand :: "string \<Rightarrow> int \<Rightarrow> int \<Rightarrow> byte_safety \<Rightarrow> string" where
  "readCommand path off len safety =
     (let base = ''tail -c +'' @ dec (nat (max 0 off) + 1) @ '' '' @ shellQuote path @ '' | head -c '' @ dec (nat (max 0 len))
      in if safety = Base64 then base @ '' | base64'' else base)"

definition base64ProbeCommand :: string where
  "base64ProbeCommand = ''printf loftail | base64 2>/dev/null''"

definition base64_blank :: "char \<Rightarrow> bool" where
  "base64_blank c = (c = LF \<or> c = CR \<or> c = CHR '' '' \<or> c = CHR 0x09)"

definition decodeBase64Payload :: "(string \<Rightarrow> string option) \<Rightarrow> string \<Rightarrow> string option" where
  "decodeBase64Payload fromBase64 printed = fromBase64 (filter (\<lambda>c. \<not> base64_blank c) printed)"

definition streamReadCommand :: "string \<Rightarrow> int \<Rightarrow> string" where
  "streamReadCommand path off = ''tail -c +'' @ dec (nat (max 0 off) + 1) @ '' '' @ shellQuote path"

definition configMarker :: string where
  "configMarker = ''loftail-cfg''"

definition configReadCommand :: "string \<Rightarrow> string" where
  "configReadCommand path = ''cat < '' @ shellQuote path"

definition configExistsCommand :: "string \<Rightarrow> string" where
  "configExistsCommand path =
     ''if test -e '' @ shellQuote path @ ''; then echo '' @ configMarker @ '' 1; else echo '' @ configMarker @ '' 0; fi''"

definition configWriteCommand :: "string \<Rightarrow> string" where
  "configWriteCommand path = ''cat > '' @ shellQuote path"

definition troubleMarker :: string where
  "troubleMarker = ''loftail-why''"

text \<open>\<open>remoteParentFolderOf\<close>: what is in front of the last slash.\<close>

definition remoteParentFolderOf :: "string \<Rightarrow> string" where
  "remoteParentFolderOf path =
     (if CHR ''/'' \<notin> set path then []
      else (let front = rev (drop 1 (dropWhile (\<lambda>c. c \<noteq> CHR ''/'') (rev path)))
            in if front = [] then ''/'' else front))"

text \<open>\<open>remotePathTroubleText\<close>: which sentence a report is shown as, with what it names.\<close>

datatype log_presence = Present | Absent | NoDirectory | Unreadable | NotAFile

record path_report =
  pr_presence :: log_presence
  pr_known :: bool
  pr_detail :: string

datatype trouble_text =
    CannotOpenNoReason string string
  | CannotOpenServerSaid string string string
  | ThereIsNo string string
  | ThereIsNoFolder string string string
  | AccountCannotRead string string
  | IsAFolder string string
  | CannotReadAlthoughThere string string

definition remotePathTroubleText :: "path_report \<Rightarrow> string \<Rightarrow> string \<Rightarrow> trouble_text" where
  "remotePathTroubleText report path host =
     (if \<not> pr_known report then
        (if pr_detail report = [] then CannotOpenNoReason path host else CannotOpenServerSaid path host (pr_detail report))
      else (case pr_presence report of
              Absent \<Rightarrow> ThereIsNo path host
            | NoDirectory \<Rightarrow> (let folder = remoteParentFolderOf path in
                              if folder = [] then ThereIsNo path host else ThereIsNoFolder folder host path)
            | Unreadable \<Rightarrow> AccountCannotRead path host
            | NotAFile \<Rightarrow> IsAFolder path host
            | Present \<Rightarrow> CannotReadAlthoughThere path host))"

definition pathTroubleCommand :: "string \<Rightarrow> string" where
  "pathTroubleCommand path =
     (let p = shellQuote path; folder = remoteParentFolderOf path;
          parent = shellQuote (if folder = [] then ''.'' else folder); m = troubleMarker
      in ''if test -d '' @ p @ ''; then echo '' @ m @ '' notafile; elif test -r '' @ p @ ''; then echo '' @ m @
         '' ok; elif test -e '' @ p @ ''; then echo '' @ m @ '' denied; elif test -d '' @ parent @ ''; then echo '' @ m @
         '' missing; else echo '' @ m @ '' nodir; fi'')"

fun crlf_to_lf :: "string \<Rightarrow> string" where
  "crlf_to_lf [] = []"
| "crlf_to_lf [c] = [c]"
| "crlf_to_lf (c # d # cs) = (if c = CR \<and> d = LF then LF # crlf_to_lf cs else c # crlf_to_lf (d # cs))"

fun export_lines :: "(string \<times> string) list \<Rightarrow> string" where
  "export_lines [] = []"
| "export_lines ((name, v) # vs) =
     name @ ''='' @ shellQuote v @ [LF] @ ''export '' @ name @ [LF] @ export_lines vs"

definition restartScriptCommand :: "string \<Rightarrow> (string \<times> string) list \<Rightarrow> string" where
  "restartScriptCommand script variables =
     (let body = map (\<lambda>c. if c = CR then LF else c) (crlf_to_lf script)
      in export_lines variables @ ''{'' @ [LF] @ body @ [LF] @ ''} < /dev/null'' @ [LF])"

definition probeMarker :: string where
  "probeMarker = ''loftail-exec-ok''"

definition dquote :: char where "dquote = CHR 0x22"

definition probeCommand :: string where
  "probeCommand =
     ''command -v tail >/dev/null 2>&1 && command -v head >/dev/null 2>&1 && { r='' @ probeMarker @
     ''; for t in stat ls wc; do command -v '' @ [dquote] @ ''$t'' @ [dquote] @ '' >/dev/null 2>&1 && r='' @ [dquote] @
     ''$r $t'' @ [dquote] @ ''; done; echo '' @ [dquote] @ ''$r'' @ [dquote] @ ''; }''"

section \<open>Parsers\<close>

definition lastNonEmptyLine :: "string \<Rightarrow> string" where
  "lastNonEmptyLine printed =
     (case List.find (\<lambda>l. trimmed_bytes l \<noteq> []) (rev (split_by (\<lambda>c. c = LF) printed)) of
        None \<Rightarrow> [] | Some l \<Rightarrow> trimmed_bytes l)"

definition parseConfigExistsOutput :: "string \<Rightarrow> bool option" where
  "parseConfigExistsOutput printed =
     (let line = lastNonEmptyLine printed; head = configMarker @ '' '' in
      if \<not> startsWith line head then None
      else (let t = trimmed_bytes (drop (length head) line) in
            if t \<noteq> ''0'' \<and> t \<noteq> ''1'' then None else Some (t = ''1'')))"

definition parsePathTroubleOutput :: "string \<Rightarrow> log_presence option" where
  "parsePathTroubleOutput printed =
     (let line = lastNonEmptyLine printed; head = troubleMarker @ '' '' in
      if \<not> startsWith line head then None
      else (let word = trimmed_bytes (drop (length head) line) in
            if word = ''ok'' then Some Present
            else if word = ''missing'' then Some Absent
            else if word = ''nodir'' then Some NoDirectory
            else if word = ''denied'' then Some Unreadable
            else if word = ''notafile'' then Some NotAFile
            else None))"

record exec_tools =
  tools_ok :: bool
  hasStat :: bool
  hasLs :: bool
  hasWc :: bool

definition no_tools :: exec_tools where
  "no_tools = \<lparr>tools_ok = False, hasStat = False, hasLs = False, hasWc = False\<rparr>"

definition anySizeTool :: "exec_tools \<Rightarrow> bool" where
  "anySizeTool t = (hasStat t \<or> hasLs t \<or> hasWc t)"

definition note_tool :: "exec_tools \<Rightarrow> string \<Rightarrow> exec_tools" where
  "note_tool t tool =
     (if tool = ''stat'' then t\<lparr>hasStat := True\<rparr>
      else if tool = ''ls'' then t\<lparr>hasLs := True\<rparr>
      else if tool = ''wc'' then t\<lparr>hasWc := True\<rparr> else t)"

definition parseProbeOutput :: "string \<Rightarrow> exec_tools" where
  "parseProbeOutput printed =
     (let fs = text_fields (lastNonEmptyLine printed) in
      if fs = [] \<or> hd fs \<noteq> probeMarker then no_tools
      else foldl note_tool (no_tools\<lparr>tools_ok := True\<rparr>) (drop 1 fs))"

record exec_attrs =
  attrs_ok :: bool
  a_size :: int
  a_mtime :: int

definition kUnknownMtime :: int where
  "kUnknownMtime = - 1"

definition no_attrs :: exec_attrs where
  "no_attrs = \<lparr>attrs_ok = False, a_size = 0, a_mtime = kUnknownMtime\<rparr>"

definition parseStatOutput :: "string \<Rightarrow> exec_attrs" where
  "parseStatOutput printed =
     (let line = lastNonEmptyLine printed in
      if line = [] then no_attrs
      else (let fs = text_fields line in
            if length fs \<noteq> 2 then no_attrs
            else (case (toLongLong (fs ! 0), toLongLong (fs ! 1)) of
                    (Some sz, Some mt) \<Rightarrow>
                      if sz < 0 \<or> mt < 0 then no_attrs
                      else \<lparr>attrs_ok = True, a_size = sz, a_mtime = mt\<rparr>
                  | _ \<Rightarrow> no_attrs)))"

definition non_negative :: "string \<Rightarrow> bool" where
  "non_negative s = (case toLongLong s of None \<Rightarrow> False | Some v \<Rightarrow> 0 \<le> v)"

definition parseLsSizeOutput :: "string \<Rightarrow> exec_attrs" where
  "parseLsSizeOutput printed =
     (let fs = text_fields (lastNonEmptyLine printed) in
      if length fs < 9 then no_attrs
      else if \<not> startsWith (hd fs) ''-'' then no_attrs
      else if \<not> list_all (\<lambda>i. non_negative (fs ! i)) [1..<4] then no_attrs
      else (case toLongLong (fs ! 4) of
              None \<Rightarrow> no_attrs
            | Some sz \<Rightarrow> if sz < 0 then no_attrs
                           else \<lparr>attrs_ok = True, a_size = sz, a_mtime = kUnknownMtime\<rparr>))"

definition parseWcSizeOutput :: "string \<Rightarrow> exec_attrs" where
  "parseWcSizeOutput printed =
     (let fs = text_fields (lastNonEmptyLine printed) in
      if length fs \<noteq> 1 then no_attrs
      else (case toLongLong (hd fs) of
              None \<Rightarrow> no_attrs
            | Some sz \<Rightarrow> if sz < 0 then no_attrs
                           else \<lparr>attrs_ok = True, a_size = sz, a_mtime = kUnknownMtime\<rparr>))"

section \<open>Rotation\<close>

datatype rotation_verdict = VNothing | VRotated | VCompareNow | VComparePaced

record remote_observation =
  o_size :: int
  o_mtime :: int
  o_lastSize :: int
  o_lastMtime :: int
  o_consumed :: int
  o_fstatTracksHandle :: bool
  o_handleValid :: bool
  o_handleSize :: int

definition rotationVerdict :: "remote_observation \<Rightarrow> rotation_verdict" where
  "rotationVerdict ob =
     (if o_size ob < o_consumed ob then VRotated
      else if o_fstatTracksHandle ob then
        (if o_handleValid ob \<and> o_handleSize ob \<noteq> o_size ob then VRotated
         else if o_lastSize ob < o_size ob then VComparePaced else VNothing)
      else if o_mtime ob = kUnknownMtime then VComparePaced
      else if o_lastMtime ob < o_mtime ob \<and> o_size ob = o_lastSize ob then VCompareNow
      else if o_lastSize ob < o_size ob then VComparePaced
      else VNothing)"

section \<open>What a shell reads\<close>

text \<open>Words and operators of the POSIX shell grammar, as far as the commands use it: single quotes, the
  backslash, blanks, operators. A character that would start an expansion, a comment or a double quote
  is outside the reference, which then has no answer.\<close>

datatype sh_token = Word string | Op string

definition sh_blank :: "char \<Rightarrow> bool" where
  "sh_blank c = (c = CHR '' '' \<or> c = CHR 0x09)"

definition sh_op :: "char \<Rightarrow> bool" where
  "sh_op c = (c \<in> set ''|&;<>()'' \<or> c = LF)"

definition sh_expands :: "char \<Rightarrow> bool" where
  "sh_expands c = (c \<in> set ''$*?[#~!'' \<or> c = CHR 0x60 \<or> c = dquote)"

fun sh_word :: "bool \<Rightarrow> string \<Rightarrow> string \<Rightarrow> (string \<times> string) option" where
  "sh_word q [] acc = (if q then None else Some (acc, []))"
| "sh_word True (c # cs) acc = (if c = squote then sh_word False cs acc else sh_word True cs (acc @ [c]))"
| "sh_word False (c # cs) acc =
     (if c = squote then sh_word True cs acc
      else if c = bslash then
        (case cs of [] \<Rightarrow> None | d # ds \<Rightarrow> sh_word False ds (if d = LF then acc else acc @ [d]))
      else if sh_blank c \<or> sh_op c then Some (acc, c # cs)
      else if sh_expands c then None
      else sh_word False cs (acc @ [c]))"

lemma sh_word_shorter: "sh_word q s acc = Some (w, rest) \<Longrightarrow> length rest \<le> length s"
  by (induction q s acc rule: sh_word.induct) (auto split: if_splits list.splits)

lemma sh_word_progress:
  "sh_word False (c # cs) acc = Some (w, rest) \<Longrightarrow> \<not> sh_blank c \<Longrightarrow> \<not> sh_op c \<Longrightarrow> length rest < Suc (length cs)"
  by (auto dest!: sh_word_shorter split: if_splits list.splits)

function sh_tokens :: "string \<Rightarrow> sh_token list option" where
  "sh_tokens [] = Some []"
| "sh_tokens (c # cs) =
     (if sh_blank c then sh_tokens cs
      else if sh_op c then
        (if cs \<noteq> [] \<and> hd cs = c \<and> c \<in> set ''|&<>;'' then map_option (Cons (Op [c, c])) (sh_tokens (tl cs))
         else map_option (Cons (Op [c])) (sh_tokens cs))
      else (case sh_word False (c # cs) [] of
              None \<Rightarrow> None
            | Some (w, rest) \<Rightarrow> map_option (Cons (Word w)) (sh_tokens rest)))"
  by pat_completeness auto
termination
  by (relation "measure length") (auto simp del: sh_word.simps dest: sh_word_progress)

declare sh_tokens.simps(2) [simp del]

lemma sh_chars [simp]:
  "squote \<noteq> bslash" "bslash \<noteq> squote" "squote \<noteq> LF" "LF \<noteq> squote" "LF \<noteq> bslash" "bslash \<noteq> LF"
  "\<not> sh_blank squote" "\<not> sh_op squote" "\<not> sh_blank LF" "sh_op LF"
  by (simp_all add: squote_def bslash_def LF_def sh_blank_def sh_op_def)

lemma body_read: "sh_word True (shell_body p @ squote # rest) acc = sh_word False rest (acc @ p)"
  by (induction p arbitrary: acc) auto

lemma quote_read: "sh_word False (shellQuote p @ rest) acc = sh_word False rest (acc @ p)"
  by (simp add: shellQuote_def body_read)

text \<open>Characters a word takes as they are.\<close>

definition sh_plain :: "char \<Rightarrow> bool" where
  "sh_plain c \<longleftrightarrow> c \<noteq> squote \<and> c \<noteq> bslash \<and> \<not> sh_blank c \<and> \<not> sh_op c \<and> \<not> sh_expands c"

lemma plain_read: "\<forall>c \<in> set w. sh_plain c \<Longrightarrow> sh_word False (w @ rest) acc = sh_word False rest (acc @ w)"
  by (induction w arbitrary: acc) (auto simp: sh_plain_def)

lemma plain_quoted_read:
  "\<forall>c \<in> set w. c \<noteq> squote \<Longrightarrow> sh_word False (quoted w @ rest) acc = sh_word False rest (acc @ w)"
proof -
  assume "\<forall>c \<in> set w. c \<noteq> squote"
  then have "shell_body w = w" by (induction w) auto
  then show ?thesis using quote_read [of w rest acc] by (simp add: quoted_def shellQuote_def)
qed

lemma dec_plain: "\<forall>c \<in> set (dec n). sh_plain c"
  using dec_digits [of n]
  by (auto simp: sh_plain_def sh_blank_def sh_op_def sh_expands_def squote_def bslash_def LF_def dquote_def code_def)

text \<open>Where a word ends.\<close>

definition sh_ends :: "string \<Rightarrow> bool" where
  "sh_ends rest \<longleftrightarrow> rest = [] \<or> sh_blank (hd rest) \<or> sh_op (hd rest)"

lemma word_ends: "sh_ends rest \<Longrightarrow> sh_word False rest acc = Some (acc, rest)"
  by (cases rest) (auto simp: sh_ends_def sh_blank_def sh_op_def squote_def bslash_def LF_def)

lemma sh_ends_simps [simp]: "sh_ends []" "sh_ends (CHR '' '' # s)" "sh_ends (CHR '';'' # s)" "sh_ends (LF # s)"
  by (simp_all add: sh_ends_def sh_blank_def sh_op_def LF_def)

lemma tokens_quote: "sh_ends rest \<Longrightarrow> sh_tokens (shellQuote p @ rest) = map_option (Cons (Word p)) (sh_tokens rest)"
  using quote_read [of p rest "[]"] word_ends [of rest p]
  by (simp add: shellQuote_def sh_tokens.simps)

lemma tokens_word:
  assumes "w \<noteq> []" and "\<forall>c \<in> set w. sh_plain c" and "sh_ends rest"
  shows "sh_tokens (w @ rest) = map_option (Cons (Word w)) (sh_tokens rest)"
proof (cases w)
  case (Cons c cs)
  have "\<not> sh_blank c" "\<not> sh_op c" using assms(2) Cons by (auto simp: sh_plain_def)
  then show ?thesis
    using plain_read [OF assms(2), of rest "[]"] word_ends [OF assms(3), of w] Cons by (simp add: sh_tokens.simps)
qed (use assms in simp)

lemma tokens_lead:
  assumes "w \<noteq> []" and "\<forall>c \<in> set w. sh_plain c" and "sh_ends rest"
  shows "sh_tokens (w @ shellQuote p @ rest) = map_option (Cons (Word (w @ p))) (sh_tokens rest)"
proof (cases w)
  case (Cons c cs)
  have "\<not> sh_blank c" "\<not> sh_op c" using assms(2) Cons by (auto simp: sh_plain_def)
  then show ?thesis
    using plain_read [OF assms(2), of "shellQuote p @ rest" "[]"] quote_read [of p rest w] word_ends [OF assms(3), of "w @ p"] Cons
    by (simp add: sh_tokens.simps)
qed (use assms in simp)

lemma tokens_blank: "sh_tokens (CHR '' '' # s) = sh_tokens s"
  by (simp add: sh_tokens.simps sh_blank_def)

section \<open>The commands as a shell reads them\<close>

lemma tokens_quote_last: "sh_tokens (shellQuote p) = Some [Word p]"
  using tokens_quote [of "[]" p] by simp

lemma read_dec_last: "sh_word False (dec n) acc = Some (acc @ dec n, [])"
  using plain_read [OF dec_plain, of n "[]" acc] by simp

lemma tokens_dec: "sh_tokens (dec n) = Some [Word (dec n)]"
  using tokens_word [of "dec n" "[]"] dec_plain [of n] dec_digits [of n] by simp

lemma tokens_dec_more: "sh_ends rest \<Longrightarrow> sh_tokens (dec n @ rest) = map_option (Cons (Word (dec n))) (sh_tokens rest)"
  by (rule tokens_word) (use dec_plain [of n] dec_digits [of n] in auto)

lemmas sh_eval = sh_tokens.simps tokens_dec_more quote_read plain_read [OF dec_plain] read_dec_last tokens_dec tokens_quote tokens_quote_last word_ends
  sh_blank_def sh_op_def sh_expands_def quoted_def squote_def bslash_def LF_def dquote_def

lemma size_words:
  "sh_tokens (statCommand p) =
    Some [Word ''stat'', Word ''-c'', Word ''%s %Y'', Word p, Word ''2'', Op ''>'', Word ''/dev/null'', Op ''||'',
          Word ''stat'', Word ''-f'', Word ''%z %m'', Word p]"
  "sh_tokens (lsSizeCommand p) =
    Some [Word ''LC_ALL=C'', Word ''BLOCK_SIZE=1'', Word ''LS_BLOCK_SIZE=1'', Word ''QUOTING_STYLE=literal'',
          Word ''ls'', Word ''-lnLd'', Word p]"
  "sh_tokens (wcSizeCommand p) = Some [Word ''wc'', Word ''-c'', Op ''<'', Word p]"
  by (simp_all add: statCommand_def lsSizeCommand_def wcSizeCommand_def sh_eval)

lemma read_words:
  "sh_tokens (readCommand p n len Raw) =
    Some [Word ''tail'', Word ''-c'', Word (CHR ''+'' # dec (nat (max 0 n) + 1)), Word p, Op ''|'',
          Word ''head'', Word ''-c'', Word (dec (nat (max 0 len)))]"
  "sh_tokens (streamReadCommand p n) =
    Some [Word ''tail'', Word ''-c'', Word (CHR ''+'' # dec (nat (max 0 n) + 1)), Word p]"
  by (simp_all add: readCommand_def streamReadCommand_def sh_eval Let_def)

lemma read_words_encoded:
  "sh_tokens (readCommand p n len Base64) =
    Some [Word ''tail'', Word ''-c'', Word (CHR ''+'' # dec (nat (max 0 n) + 1)), Word p, Op ''|'',
          Word ''head'', Word ''-c'', Word (dec (nat (max 0 len))), Op ''|'', Word ''base64'']"
  by (simp add: readCommand_def sh_eval Let_def)

lemma config_words:
  "sh_tokens (configReadCommand p) = Some [Word ''cat'', Op ''<'', Word p]"
  "sh_tokens (configWriteCommand p) = Some [Word ''cat'', Op ''>'', Word p]"
  "sh_tokens (configExistsCommand p) =
    Some [Word ''if'', Word ''test'', Word ''-e'', Word p, Op '';'', Word ''then'', Word ''echo'', Word configMarker, Word ''1'',
          Op '';'', Word ''else'', Word ''echo'', Word configMarker, Word ''0'', Op '';'', Word ''fi'']"
  by (simp_all add: configReadCommand_def configWriteCommand_def configExistsCommand_def configMarker_def sh_eval)

definition parent_word :: "string \<Rightarrow> string" where
  "parent_word p = (if remoteParentFolderOf p = [] then ''.'' else remoteParentFolderOf p)"

lemma trouble_words:
  "sh_tokens (pathTroubleCommand p) =
    Some ([Word ''if'', Word ''test'', Word ''-d'', Word p, Op '';'', Word ''then'', Word ''echo'', Word troubleMarker, Word ''notafile'',
           Op '';'', Word ''elif'', Word ''test'', Word ''-r'', Word p, Op '';'', Word ''then'', Word ''echo'', Word troubleMarker, Word ''ok'',
           Op '';'', Word ''elif'', Word ''test'', Word ''-e'', Word p, Op '';'', Word ''then'', Word ''echo'', Word troubleMarker, Word ''denied''] @
          [Op '';'', Word ''elif'', Word ''test'', Word ''-d'', Word (parent_word p), Op '';'', Word ''then'', Word ''echo'', Word troubleMarker,
           Word ''missing'', Op '';'', Word ''else'', Word ''echo'', Word troubleMarker, Word ''nodir'', Op '';'', Word ''fi''])"
  unfolding pathTroubleCommand_def parent_word_def [symmetric] Let_def
  by (simp add: troubleMarker_def sh_eval)

text \<open>One rung of the question why a path cannot be opened: the test of a file, and the word to answer with.\<close>

definition asked :: "string \<Rightarrow> string \<Rightarrow> string \<Rightarrow> sh_token list" where
  "asked test path word =
     [Word ''test'', Word test, Word path, Op '';'', Word ''then'', Word ''echo'', Word troubleMarker, Word word, Op '';'']"

lemma trouble_asked:
  "sh_tokens (pathTroubleCommand p) =
     Some ([Word ''if''] @ asked ''-d'' p ''notafile'' @ [Word ''elif''] @ asked ''-r'' p ''ok'' @ [Word ''elif''] @ asked ''-e'' p ''denied'' @
           [Word ''elif''] @ asked ''-d'' (parent_word p) ''missing'' @ [Word ''else'', Word ''echo'', Word troubleMarker, Word ''nodir'', Op '';'', Word ''fi''])"
  by (simp add: trouble_words asked_def)

section \<open>What the parsers make of an answer\<close>

lemma split_by_sub: "\<forall>w \<in> set (split_by P s). set w \<subseteq> set s"
proof (induction s)
  case (Cons c s)
  then show ?case by (cases "split_by P s") auto
qed simp

lemma split_by_front: "\<forall>c \<in> set w. \<not> P c \<Longrightarrow> split_by P (w @ s) = (w @ hd (split_by P s)) # tl (split_by P s)"
  by (induction w) auto

lemma trimmed_blank: "\<forall>c \<in> set s. ascii_space c \<Longrightarrow> trimmed_bytes s = []"
  by (simp add: trimmed_bytes_def dropWhile_eq_Nil_conv [THEN iffD2])

lemma list_find_skip: "\<forall>x \<in> set xs. \<not> P x \<Longrightarrow> List.find P (xs @ ys) = List.find P ys"
  by (induction xs) auto

text \<open>An answer: any noise, then a line, then white space.\<close>

definition answered :: "string \<Rightarrow> string \<Rightarrow> string \<Rightarrow> string \<Rightarrow> bool" where
  "answered out noise line pad \<longleftrightarrow> out = noise @ LF # line @ pad \<or> out = line @ pad"

lemma last_line:
  assumes "solid line" and "LF \<notin> set line" and "\<forall>c \<in> set pad. ascii_space c" and "answered out noise line pad"
  shows "lastNonEmptyLine out = line"
proof -
  let ?P = "\<lambda>c. c = LF" and ?Q = "\<lambda>l. trimmed_bytes l \<noteq> []"
  let ?h = "hd (split_by ?P pad)" and ?t = "tl (split_by ?P pad)"
  have split: "split_by ?P (line @ pad) = (line @ ?h) # ?t"
    by (rule split_by_front) (use assms(2) in auto)
  have blank: "trimmed_bytes w = []" if "w \<in> set (split_by ?P pad)" for w
    by (rule trimmed_blank) (use split_by_sub [of ?P pad] that assms(3) in blast)
  have "?h \<in> set (split_by ?P pad)" by simp
  then have line: "trimmed_bytes (line @ ?h) = line"
    by (intro trimmed_solid assms(1)) (use split_by_sub [of ?P pad] assms(3) in blast)
  have "line \<noteq> []" using assms(1) by (simp add: solid_def)
  moreover have "\<forall>x \<in> set (rev ?t). \<not> ?Q x"
    using blank list.set_sel(2) [of "split_by ?P pad"] by auto
  ultimately have "List.find ?Q (rev ((line @ ?h) # ?t) @ ys) = Some (line @ ?h)" for ys
    using list_find_skip [of "rev ?t" ?Q "(line @ ?h) # ys"] line by simp
  moreover have "rev (split_by ?P out) = rev ((line @ ?h) # ?t) @ rev (split_by ?P noise) \<or>
      rev (split_by ?P out) = rev ((line @ ?h) # ?t) @ []"
    using assms(4) split by (auto simp: answered_def split_by_append)
  ultimately have "List.find ?Q (rev (split_by ?P out)) = Some (line @ ?h)" by metis
  then show ?thesis using line by (simp add: lastNonEmptyLine_def)
qed

lemma fields_of_words: "\<forall>w \<in> set ws. word_ok w \<Longrightarrow> ws \<noteq> [] \<Longrightarrow> text_fields (join '' '' ws) = ws"
proof -
  assume ok: "\<forall>w \<in> set ws. word_ok w" and ne: "ws \<noteq> []"
  have sp: "CHR '' '' \<notin> set w" if "w \<in> set ws" for w
    using ok that space_class by (auto simp: word_ok_def)
  have "split_by (\<lambda>c. c = CHR '' '') (join '' '' ws) = ws"
    using ne sp
  proof (induction ws rule: induct_list012)
    case (2 w)
    then show ?case using split_by_none [of w "\<lambda>c. c = CHR '' ''"] by auto
  next
    case (3 w v ws)
    then show ?case using split_by_at [of w "\<lambda>c. c = CHR '' ''" "CHR '' ''" "join '' '' (v # ws)"] by auto
  qed simp
  then show ?thesis using words_join [OF ok] by (simp add: text_fields_def simplified_bytes_def)
qed

lemma join_solid: "\<forall>w \<in> set ws. word_ok w \<Longrightarrow> ws \<noteq> [] \<Longrightarrow> solid (join '' '' ws) \<and> LF \<notin> set (join '' '' ws)"
proof (induction ws rule: induct_list012)
  case (2 w)
  then show ?case using LF_space by (auto simp: word_ok_def solid_def)
next
  case (3 w v ws)
  then show ?case using LF_space space_class by (auto simp: word_ok_def solid_def LF_def)
qed simp

lemma answer_fields:
  assumes "\<forall>w \<in> set ws. word_ok w" and "ws \<noteq> []" and "\<forall>c \<in> set pad. ascii_space c" and "answered out noise (join '' '' ws) pad"
  shows "lastNonEmptyLine out = join '' '' ws" and "text_fields (lastNonEmptyLine out) = ws"
proof -
  show line: "lastNonEmptyLine out = join '' '' ws"
    by (rule last_line [OF _ _ assms(3,4)]) (use join_solid [OF assms(1,2)] in auto)
  show "text_fields (lastNonEmptyLine out) = ws"
    unfolding line by (rule fields_of_words [OF assms(1,2)])
qed

lemma toLongLong_dec: "int n \<le> qint64_max \<Longrightarrow> toLongLong (dec n) = Some (int n)"
proof -
  assume n: "int n \<le> qint64_max"
  obtain c cs where c: "dec n = c # cs" using dec_digits [of n] by (cases "dec n") auto
  then have "48 \<le> code c" using dec_digits [of n] by auto
  then have "c \<noteq> CHR ''-''" "c \<noteq> CHR ''+''" by (auto simp: code_def)
  then show ?thesis using c digits_value_dec [of n] n by (simp add: toLongLong_def qint64_min_def)
qed

lemma dec_word: "word_ok (dec n)"
  using dec_facts(3) [of n] dec_digits [of n] by (simp add: word_ok_def)

lemma answered_after [simp]: "answered (noise @ LF # line @ pad) noise line pad"
  by (simp add: answered_def)

lemma word_trimmed: "word_ok w \<Longrightarrow> trimmed_bytes w = w"
  using trimmed_solid [of w "[]"] by (auto simp: word_ok_def solid_def)

lemma marked_answer:
  assumes "word_ok m" and "word_ok w" and "\<forall>c \<in> set pad. ascii_space c" and "out = noise @ LF # join '' '' [m, w] @ pad"
  shows "startsWith (lastNonEmptyLine out) (m @ '' '')" and "trimmed_bytes (drop (length (m @ '' '')) (lastNonEmptyLine out)) = w"
proof -
  have "lastNonEmptyLine out = m @ '' '' @ w"
    using answer_fields(1) [OF _ _ assms(3) answered_after, of "[m, w]" noise] assms(1,2)
    unfolding assms(4) by simp
  then show "startsWith (lastNonEmptyLine out) (m @ '' '')" "trimmed_bytes (drop (length (m @ '' '')) (lastNonEmptyLine out)) = w"
    using word_trimmed [OF assms(2)] by (simp_all add: startsWith_def)
qed

fun presence_word :: "log_presence \<Rightarrow> string" where
  "presence_word Present = ''ok''"
| "presence_word Absent = ''missing''"
| "presence_word NoDirectory = ''nodir''"
| "presence_word Unreadable = ''denied''"
| "presence_word NotAFile = ''notafile''"

lemma literal_words:
  "word_ok configMarker" "word_ok troubleMarker" "word_ok ''1''" "word_ok ''0''" "word_ok (presence_word presence)"
  by (cases presence; simp add: word_ok_def configMarker_def troubleMarker_def ascii_space_def code_def)+

lemma config_answer:
  assumes "\<forall>c \<in> set pad. ascii_space c"
  shows "parseConfigExistsOutput (noise @ LF # join '' '' [configMarker, if there then ''1'' else ''0''] @ pad) = Some there"
  using marked_answer [OF literal_words(1) _ assms refl, of "if there then ''1'' else ''0''" noise] literal_words(3,4)
  by (cases there) (simp_all add: parseConfigExistsOutput_def Let_def del: join.simps)

lemma trouble_answer:
  assumes "\<forall>c \<in> set pad. ascii_space c"
  shows "parsePathTroubleOutput (noise @ LF # join '' '' [troubleMarker, presence_word presence] @ pad) = Some presence"
  using marked_answer [OF literal_words(2) literal_words(5) assms refl, of noise presence]
  by (cases presence) (simp_all add: parsePathTroubleOutput_def Let_def del: join.simps)

lemma stat_answer:
  assumes "\<forall>c \<in> set pad. ascii_space c" and "int sz \<le> qint64_max" and "int mt \<le> qint64_max"
  shows "parseStatOutput (noise @ LF # join '' '' [dec sz, dec mt] @ pad) = \<lparr>attrs_ok = True, a_size = int sz, a_mtime = int mt\<rparr>"
proof -
  have "join '' '' [dec sz, dec mt] \<noteq> []" using dec_digits [of sz] by simp
  then show ?thesis
    using answer_fields [of "[dec sz, dec mt]" pad _ noise, OF _ _ assms(1) answered_after] dec_word
      toLongLong_dec [OF assms(2)] toLongLong_dec [OF assms(3)]
    by (simp add: parseStatOutput_def del: join.simps)
qed

lemma wc_answer:
  assumes "\<forall>c \<in> set pad. ascii_space c" and "int sz \<le> qint64_max"
  shows "parseWcSizeOutput (noise @ LF # dec sz @ pad) = \<lparr>attrs_ok = True, a_size = int sz, a_mtime = kUnknownMtime\<rparr>"
  using answer_fields(2) [of "[dec sz]" pad _ noise, OF _ _ assms(1) answered_after] dec_word toLongLong_dec [OF assms(2)]
  by (simp add: parseWcSizeOutput_def)

definition ls_line :: "string \<Rightarrow> nat \<Rightarrow> nat \<Rightarrow> nat \<Rightarrow> nat \<Rightarrow> string list \<Rightarrow> string list" where
  "ls_line perms links uid gid sz cols = [perms, dec links, dec uid, dec gid, dec sz] @ cols"

lemma ls_answer:
  assumes "\<forall>c \<in> set pad. ascii_space c" and "int sz \<le> qint64_max" and "int links \<le> qint64_max"
    and "int uid \<le> qint64_max" and "int gid \<le> qint64_max"
    and "\<forall>w \<in> set (perms # cols). word_ok w" and "4 \<le> length cols"
  shows "parseLsSizeOutput (noise @ LF # join '' '' (ls_line perms links uid gid sz cols) @ pad) =
    (if hd perms = CHR ''-'' then \<lparr>attrs_ok = True, a_size = int sz, a_mtime = kUnknownMtime\<rparr> else no_attrs)"
proof -
  have f: "text_fields (lastNonEmptyLine (noise @ LF # join '' '' (ls_line perms links uid gid sz cols) @ pad)) =
      ls_line perms links uid gid sz cols"
    by (rule answer_fields(2) [OF _ _ assms(1) answered_after]) (use assms(6) dec_word in \<open>auto simp: ls_line_def\<close>)
  have "startsWith perms ''-'' \<longleftrightarrow> hd perms = CHR ''-''" using assms(6) by (cases perms) (auto simp: startsWith_def word_ok_def)
  moreover have "[1..<4] = [1, 2, 3 :: nat]" by (simp add: upt_rec)
  ultimately show ?thesis
    using assms(7) toLongLong_dec [OF assms(2)] toLongLong_dec [OF assms(3)] toLongLong_dec [OF assms(4)] toLongLong_dec [OF assms(5)]
    unfolding parseLsSizeOutput_def f Let_def by (simp add: ls_line_def non_negative_def)
qed

section \<open>Properties\<close>

text \<open>C30: exec_path_is_one_word. Whatever the path of a log is, with quotes, blanks, operators, newlines or dollar
  signs in it, a shell reads its quoted form as one word, the path itself, and every command that measures,
  reads, streams or writes a file, asks whether a configuration is there or asks why a log cannot be opened is
  read as the commands and the redirections it is meant to be, with that path as one argument; the last also
  tests the folder of the path, again one argument.\<close>

theorem exec_path_is_one_word:
  "sh_tokens (shellQuote p) = Some [Word p] \<and>
   sh_tokens (statCommand p) =
     Some [Word ''stat'', Word ''-c'', Word ''%s %Y'', Word p, Word ''2'', Op ''>'', Word ''/dev/null'', Op ''||'',
           Word ''stat'', Word ''-f'', Word ''%z %m'', Word p] \<and>
   sh_tokens (lsSizeCommand p) =
     Some [Word ''LC_ALL=C'', Word ''BLOCK_SIZE=1'', Word ''LS_BLOCK_SIZE=1'', Word ''QUOTING_STYLE=literal'',
           Word ''ls'', Word ''-lnLd'', Word p] \<and>
   sh_tokens (wcSizeCommand p) = Some [Word ''wc'', Word ''-c'', Op ''<'', Word p] \<and>
   sh_tokens (readCommand p n len Base64) =
     Some [Word ''tail'', Word ''-c'', Word (CHR ''+'' # dec (nat (max 0 n) + 1)), Word p, Op ''|'',
           Word ''head'', Word ''-c'', Word (dec (nat (max 0 len))), Op ''|'', Word ''base64''] \<and>
   sh_tokens (readCommand p n len Raw) =
     Some [Word ''tail'', Word ''-c'', Word (CHR ''+'' # dec (nat (max 0 n) + 1)), Word p, Op ''|'',
           Word ''head'', Word ''-c'', Word (dec (nat (max 0 len)))] \<and>
   sh_tokens (streamReadCommand p n) =
     Some [Word ''tail'', Word ''-c'', Word (CHR ''+'' # dec (nat (max 0 n) + 1)), Word p] \<and>
   sh_tokens (configReadCommand p) = Some [Word ''cat'', Op ''<'', Word p] \<and>
   sh_tokens (configWriteCommand p) = Some [Word ''cat'', Op ''>'', Word p] \<and>
   sh_tokens (configExistsCommand p) =
     Some [Word ''if'', Word ''test'', Word ''-e'', Word p, Op '';'', Word ''then'', Word ''echo'', Word configMarker, Word ''1'',
           Op '';'', Word ''else'', Word ''echo'', Word configMarker, Word ''0'', Op '';'', Word ''fi''] \<and>
   sh_tokens (pathTroubleCommand p) =
     Some ([Word ''if''] @ asked ''-d'' p ''notafile'' @ [Word ''elif''] @ asked ''-r'' p ''ok'' @ [Word ''elif''] @ asked ''-e'' p ''denied'' @
           [Word ''elif''] @ asked ''-d'' (parent_word p) ''missing'' @ [Word ''else'', Word ''echo'', Word troubleMarker, Word ''nodir'', Op '';'', Word ''fi''])"
  by (intro conjI tokens_quote_last size_words read_words read_words_encoded config_words trouble_asked)

text \<open>Whatever a login prints before the answer, the sizes and times that stat, ls and wc
  print are read back as they are (of ls only those of a plain file), and the answers about a configuration
  file and about a path that could not be opened are the ones the far end gave.\<close>

theorem exec_answers_parsed:
  assumes "\<forall>c \<in> set pad. ascii_space c" and "int sz \<le> qint64_max" and "int mt \<le> qint64_max" and "int links \<le> qint64_max"
    and "int uid \<le> qint64_max" and "int gid \<le> qint64_max" and "\<forall>w \<in> set (perms # cols). word_ok w" and "4 \<le> length cols"
  shows "parseStatOutput (noise @ LF # join '' '' [dec sz, dec mt] @ pad) = \<lparr>attrs_ok = True, a_size = int sz, a_mtime = int mt\<rparr> \<and>
    parseWcSizeOutput (noise @ LF # dec sz @ pad) = \<lparr>attrs_ok = True, a_size = int sz, a_mtime = kUnknownMtime\<rparr> \<and>
    parseLsSizeOutput (noise @ LF # join '' '' (ls_line perms links uid gid sz cols) @ pad) =
      (if hd perms = CHR ''-'' then \<lparr>attrs_ok = True, a_size = int sz, a_mtime = kUnknownMtime\<rparr> else no_attrs) \<and>
    parseConfigExistsOutput (noise @ LF # join '' '' [configMarker, if there then ''1'' else ''0''] @ pad) = Some there \<and>
    parsePathTroubleOutput (noise @ LF # join '' '' [troubleMarker, presence_word presence] @ pad) = Some presence"
  by (intro conjI stat_answer wc_answer ls_answer config_answer trouble_answer assms)

theorem exec_answers_parsed_witness:
  "parseStatOutput (''Welcome'' @ LF # join '' '' [dec 120, dec 7] @ [CR, LF]) = \<lparr>attrs_ok = True, a_size = int 120, a_mtime = int 7\<rparr>"
proof -
  have "\<forall>c \<in> set [CR, LF]. ascii_space c" by (simp add: CR_def LF_def ascii_space_def code_def)
  moreover have "\<forall>w \<in> set [''-rw'', ''Jan'', ''1'', ''2020'', ''a'']. word_ok w" by (simp add: word_ok_def ascii_space_def code_def)
  ultimately show ?thesis
    using exec_answers_parsed [of "[CR, LF]" 120 7 1 0 0 "''-rw''" "[''Jan'', ''1'', ''2020'', ''a'']" "''Welcome''"]
    by (simp add: qint64_max_def)
qed

text \<open>A verdict of rotation is given exactly when the file is shorter than what was read or its name has left the
  open handle; growth is never passed over, and nothing to do means nothing that could be seen.\<close>

lemma rotation_verdict_right:
  "(rotationVerdict ob = VRotated \<longleftrightarrow>
      o_size ob < o_consumed ob \<or> (o_fstatTracksHandle ob \<and> o_handleValid ob \<and> o_handleSize ob \<noteq> o_size ob)) \<and>
   (o_lastSize ob < o_size ob \<longrightarrow> rotationVerdict ob \<in> {VRotated, VComparePaced}) \<and>
   (rotationVerdict ob = VNothing \<longrightarrow> o_consumed ob \<le> o_size ob \<and> o_size ob \<le> o_lastSize ob \<and>
      (o_fstatTracksHandle ob \<or> o_mtime ob \<noteq> kUnknownMtime \<and> (o_mtime ob \<le> o_lastMtime ob \<or> o_size ob < o_lastSize ob)))"
  by (auto simp: rotationVerdict_def)

end
