(* ===== verification/ExecProbe.thy ===== *)
theory ExecProbe
  imports ExecCommands
begin

text \<open>
  \<open>src/core/ExecSizeProbe\<close> and \<open>ExecByteSafety\<close>: how a log on an exec channel is measured, and whether its
  bytes may travel as they are. The far end is a parameter: a state \<open>'e\<close>, what running a command prints
  (nothing when the channel is gone) and what a read returns, each with the state it leaves.
\<close>

section \<open>The ladder of size tools\<close>

datatype size_source = SNone | SStat | SLs | SWc

record size_probe =
  sp_path :: string
  sp_tools :: exec_tools
  m_channelDied :: bool
  m_tooBigToMeasure :: bool
  m_tooBigSize :: int

type_synonym 'e run_command = "'e \<Rightarrow> string \<Rightarrow> string option \<times> 'e"
type_synonym 'e read_at = "'e \<Rightarrow> int \<Rightarrow> int \<Rightarrow> int \<times> 'e"

definition size_probe_init :: "string \<Rightarrow> exec_tools \<Rightarrow> size_probe" where
  "size_probe_init path tools = \<lparr>sp_path = path, sp_tools = tools, m_channelDied = False, m_tooBigToMeasure = False, m_tooBigSize = 0\<rparr>"

definition kWcSettleCeiling :: int where
  "kWcSettleCeiling = 8 * 1024 * 1024"

fun sizeSourceName :: "size_source \<Rightarrow> string" where
  "sizeSourceName SNone = ''none''"
| "sizeSourceName SStat = ''stat''"
| "sizeSourceName SLs = ''ls''"
| "sizeSourceName SWc = ''wc''"

definition eligible :: "size_probe \<Rightarrow> size_source \<Rightarrow> bool" where
  "eligible p src =
     (case src of
        SStat \<Rightarrow> hasStat (sp_tools p)
      | SLs \<Rightarrow> hasLs (sp_tools p) \<and> LF \<notin> set (sp_path p)
      | SWc \<Rightarrow> hasWc (sp_tools p)
      | SNone \<Rightarrow> False)"

definition probe_command :: "size_probe \<Rightarrow> size_source \<Rightarrow> string" where
  "probe_command p src =
     (case src of SStat \<Rightarrow> statCommand (sp_path p) | SLs \<Rightarrow> lsSizeCommand (sp_path p)
      | SWc \<Rightarrow> wcSizeCommand (sp_path p) | SNone \<Rightarrow> [])"

definition probe_parse :: "size_source \<Rightarrow> string \<Rightarrow> exec_attrs" where
  "probe_parse src printed =
     (case src of SStat \<Rightarrow> parseStatOutput printed | SLs \<Rightarrow> parseLsSizeOutput printed
      | SWc \<Rightarrow> parseWcSizeOutput printed | SNone \<Rightarrow> no_attrs)"

definition query :: "'e run_command \<Rightarrow> size_probe \<Rightarrow> 'e \<Rightarrow> size_source \<Rightarrow> exec_attrs \<times> size_probe \<times> 'e" where
  "query run p e src =
     (if src = SNone then (no_attrs, p, e)
      else (case run e (probe_command p src) of
              (None, e') \<Rightarrow> (no_attrs, p\<lparr>m_channelDied := True\<rparr>, e')
            | (Some printed, e') \<Rightarrow> (probe_parse src printed, p\<lparr>m_channelDied := False\<rparr>, e')))"

definition provesReadPath :: "'e read_at \<Rightarrow> 'e \<Rightarrow> int \<Rightarrow> bool \<times> 'e" where
  "provesReadPath read e sz =
     (if sz \<le> 0 then (True, e) else (case read e (sz - 1) 1 of (got, e') \<Rightarrow> (1 \<le> got, e')))"

fun settle_from ::
  "'e run_command \<Rightarrow> 'e read_at \<Rightarrow> size_source list \<Rightarrow> size_probe \<Rightarrow> 'e \<Rightarrow> bool \<Rightarrow> bool \<Rightarrow>
     size_source \<times> exec_attrs option \<times> size_probe \<times> 'e" where
  "settle_from run read [] p e attempted anyRan = (SNone, None, p\<lparr>m_channelDied := attempted \<and> \<not> anyRan\<rparr>, e)"
| "settle_from run read (rung # rungs) p e attempted anyRan =
     (if \<not> eligible p rung then settle_from run read rungs p e attempted anyRan
      else
        (case query run p e rung of (attrs, p1, e1) \<Rightarrow>
           (let ran = (anyRan \<or> \<not> m_channelDied p1) in
            if \<not> attrs_ok attrs then settle_from run read rungs p1 e1 True ran
            else if rung = SWc \<and> kWcSettleCeiling < a_size attrs then
              settle_from run read rungs (p1\<lparr>m_tooBigToMeasure := True, m_tooBigSize := a_size attrs\<rparr>) e1 True ran
            else
              (case provesReadPath read e1 (a_size attrs) of (proved, e2) \<Rightarrow>
                 if \<not> proved then settle_from run read rungs p1 e2 True ran
                 else (rung, Some attrs, p1\<lparr>m_channelDied := False, m_tooBigToMeasure := False, m_tooBigSize := 0\<rparr>, e2)))))"

definition settle :: "'e run_command \<Rightarrow> 'e read_at \<Rightarrow> size_probe \<Rightarrow> 'e \<Rightarrow> size_source \<times> exec_attrs option \<times> size_probe \<times> 'e" where
  "settle run read p e =
     settle_from run read [SStat, SLs, SWc] (p\<lparr>m_tooBigToMeasure := False, m_tooBigSize := 0\<rparr>) e False False"

section \<open>Whether bytes survive\<close>

datatype refusal = NotPlainText | LineChangesBytes

record byte_safety_probe =
  bs_path :: string
  m_hasEncoder :: bool
  m_verifiedAgainstEncoder :: bool

type_synonym 'e read_raw = "'e \<Rightarrow> int \<Rightarrow> int \<Rightarrow> string \<times> 'e"

definition kSampleBytes :: int where
  "kSampleBytes = 4096"

definition kPattern :: string where
  "kPattern = [CHR 0x0A, CHR 0x0D, CHR 0x11, CHR 0x13, CHR 0xFF, CHR 0x41]"

definition rawModeCommand :: string where
  "rawModeCommand = ''stty raw -echo 2>/dev/null; PS1='' @ quoted [] @ ''; PS2='' @ quoted [] @ ''; echo -n''"

definition runRawMode :: "'e run_command \<Rightarrow> 'e \<Rightarrow> bool \<times> 'e" where
  "runRawMode run e = (case run e rawModeCommand of (printed, e') \<Rightarrow> (printed \<noteq> None, e'))"

definition encoderRoundTripAgrees ::
  "(string \<Rightarrow> string option) \<Rightarrow> 'e run_command \<Rightarrow> string \<Rightarrow> 'e \<Rightarrow> string \<Rightarrow> bool \<times> 'e" where
  "encoderRoundTripAgrees fromBase64 run path e raw =
     (case run e (readCommand path 0 (int (length raw)) Base64) of
        (None, e') \<Rightarrow> (False, e')
      | (Some printed, e') \<Rightarrow>
          (case decodeBase64Payload fromBase64 printed of
             None \<Rightarrow> (False, e') | Some decoded \<Rightarrow> (decoded = raw, e')))"

definition patternCommand :: string where
  "patternCommand = ''printf '' @ quoted (concat (map (\<lambda>d. bslash # d) [''012'', ''015'', ''021'', ''023'', ''377'', ''101'']))"

definition generatedPatternSurvives :: "'e run_command \<Rightarrow> 'e \<Rightarrow> bool \<times> 'e" where
  "generatedPatternSurvives run e =
     (case run e patternCommand of (None, e') \<Rightarrow> (False, e') | (Some printed, e') \<Rightarrow> (printed = kPattern, e'))"

definition base64_probe_answer :: string where
  "base64_probe_answer = ''bG9mdGFpbA==''"

definition settle_bytes ::
  "(string \<Rightarrow> string option) \<Rightarrow> 'e run_command \<Rightarrow> 'e read_raw \<Rightarrow> byte_safety_probe \<Rightarrow> 'e \<Rightarrow>
     byte_safety option \<times> refusal option \<times> byte_safety_probe \<times> 'e" where
  "settle_bytes fromBase64 run read s0 e0 =
     (let (probed, e1) = run e0 base64ProbeCommand;
          enc = (case probed of None \<Rightarrow> False | Some printed \<Rightarrow> lastNonEmptyLine printed = base64_probe_answer);
          s = s0\<lparr>m_hasEncoder := enc, m_verifiedAgainstEncoder := False\<rparr>;
          (_, e2) = runRawMode run e1;
          (raw, e3) = read e2 0 kSampleBytes
      in if enc then
           (if raw = [] then (Some Raw, None, s, e3)
            else (case encoderRoundTripAgrees fromBase64 run (bs_path s) e3 raw of (agrees, e4) \<Rightarrow>
                    if agrees then (Some Raw, None, s\<lparr>m_verifiedAgainstEncoder := True\<rparr>, e4)
                    else (Some Base64, None, s, e4)))
         else if CHR 0x00 \<in> set raw then (None, Some NotPlainText, s, e3)
         else (case generatedPatternSurvives run e3 of (survives, e4) \<Rightarrow>
                 if survives then (Some Raw, None, s, e4) else (None, Some LineChangesBytes, s, e4)))"

section \<open>A far end that answers the same each time\<close>

definition stable_run :: "(string \<Rightarrow> string option) \<Rightarrow> 'e run_command" where
  "stable_run answers e c = (answers c, e)"

definition stable_read :: "(int \<Rightarrow> int \<Rightarrow> int) \<Rightarrow> 'e read_at" where
  "stable_read got e off len = (got off len, e)"

definition rung_attrs :: "(string \<Rightarrow> string option) \<Rightarrow> size_probe \<Rightarrow> size_source \<Rightarrow> exec_attrs" where
  "rung_attrs answers p r = (case answers (probe_command p r) of None \<Rightarrow> no_attrs | Some printed \<Rightarrow> probe_parse r printed)"

definition rung_too_big :: "(string \<Rightarrow> string option) \<Rightarrow> size_probe \<Rightarrow> size_source \<Rightarrow> bool" where
  "rung_too_big answers p r \<longleftrightarrow> r = SWc \<and> attrs_ok (rung_attrs answers p r) \<and> kWcSettleCeiling < a_size (rung_attrs answers p r)"

definition rung_works :: "(string \<Rightarrow> string option) \<Rightarrow> (int \<Rightarrow> int \<Rightarrow> int) \<Rightarrow> size_probe \<Rightarrow> size_source \<Rightarrow> bool" where
  "rung_works answers got p r \<longleftrightarrow> eligible p r \<and> attrs_ok (rung_attrs answers p r) \<and> \<not> rung_too_big answers p r \<and>
     (a_size (rung_attrs answers p r) \<le> 0 \<or> 1 \<le> got (a_size (rung_attrs answers p r) - 1) 1)"

definition same_target :: "size_probe \<Rightarrow> size_probe \<Rightarrow> bool" where
  "same_target p q \<longleftrightarrow> sp_path p = sp_path q \<and> sp_tools p = sp_tools q"

lemma same_target_facts:
  assumes "same_target p q"
  shows "eligible p = eligible q" "probe_command p = probe_command q" "rung_attrs answers p = rung_attrs answers q"
    "rung_too_big answers p = rung_too_big answers q" "rung_works answers got p = rung_works answers got q"
proof -
  show c: "probe_command p = probe_command q" and e: "eligible p = eligible q"
    using assms by (auto simp: fun_eq_iff same_target_def probe_command_def eligible_def split: size_source.split)
  show a: "rung_attrs answers p = rung_attrs answers q" using c by (simp add: fun_eq_iff rung_attrs_def)
  then show "rung_too_big answers p = rung_too_big answers q" by (simp add: fun_eq_iff rung_too_big_def)
  with e a show "rung_works answers got p = rung_works answers got q" by (simp add: fun_eq_iff rung_works_def)
qed

lemma no_attrs_simps [simp]: "\<not> attrs_ok no_attrs"
  by (simp add: no_attrs_def)

lemma stable_query:
  assumes "eligible p r"
  shows "query (stable_run answers) p e r =
    (rung_attrs answers p r, p\<lparr>m_channelDied := (answers (probe_command p r) = None)\<rparr>, e)"
proof -
  have "r \<noteq> SNone" using assms by (auto simp: eligible_def)
  then show ?thesis by (simp add: query_def stable_run_def rung_attrs_def split: option.split)
qed

lemma stable_proves: "provesReadPath (stable_read got) e sz = (sz \<le> 0 \<or> 1 \<le> got (sz - 1) 1, e)"
  by (simp add: provesReadPath_def stable_read_def)

definition ladder_ok ::
  "(string \<Rightarrow> string option) \<Rightarrow> (int \<Rightarrow> int \<Rightarrow> int) \<Rightarrow> size_probe \<Rightarrow> size_source list \<Rightarrow> bool \<Rightarrow> bool \<Rightarrow> bool \<Rightarrow>
     size_source \<times> exec_attrs option \<times> size_probe \<times> 'e \<Rightarrow> bool" where
  "ladder_ok answers got q rungs att rn big out \<longleftrightarrow>
     (case out of (src, first, p', e') \<Rightarrow>
        same_target p' q \<and>
        (case List.find (rung_works answers got q) rungs of
           Some r \<Rightarrow> src = r \<and> first = Some (rung_attrs answers q r) \<and> \<not> m_channelDied p' \<and> \<not> m_tooBigToMeasure p'
         | None \<Rightarrow> src = SNone \<and> first = None \<and>
             (m_channelDied p' \<longleftrightarrow> (att \<or> (\<exists>r \<in> set rungs. eligible q r)) \<and>
                \<not> (rn \<or> (\<exists>r \<in> set rungs. eligible q r \<and> answers (probe_command q r) \<noteq> None))) \<and>
             (m_tooBigToMeasure p' \<longleftrightarrow> big \<or> (\<exists>r \<in> set rungs. eligible q r \<and> rung_too_big answers q r))))"

lemma ladder_skip:
  assumes "\<not> eligible q r" and "ladder_ok answers got q rungs att rn big out"
  shows "ladder_ok answers got q (r # rungs) att rn big out"
proof -
  have "\<not> rung_works answers got q r" using assms(1) by (simp add: rung_works_def)
  with assms show ?thesis by (cases "List.find (rung_works answers got q) rungs") (auto simp: ladder_ok_def)
qed

lemma ladder_next:
  assumes "eligible q r" and "\<not> rung_works answers got q r"
    and "ladder_ok answers got q rungs True (rn \<or> answers (probe_command q r) \<noteq> None) (big \<or> rung_too_big answers q r) out"
  shows "ladder_ok answers got q (r # rungs) att rn big out"
  using assms by (cases "List.find (rung_works answers got q) rungs") (auto simp: ladder_ok_def)

lemma settle_from_stable:
  assumes "same_target p q"
  shows "ladder_ok answers got q rungs att rn (m_tooBigToMeasure p)
    (settle_from (stable_run answers) (stable_read got) rungs p e att rn)"
  using assms
proof (induction rungs arbitrary: p e att rn)
  case Nil
  then show ?case by (simp add: ladder_ok_def same_target_def)
next
  case (Cons r rungs)
  note same = same_target_facts [OF Cons.prems]
  show ?case
  proof (cases "eligible q r")
    case False
    have "settle_from (stable_run answers) (stable_read got) (r # rungs) p e att rn =
        settle_from (stable_run answers) (stable_read got) rungs p e att rn"
      using False same(1) by simp
    then show ?thesis using ladder_skip [OF False Cons.IH [OF Cons.prems]] by simp
  next
    case True
    let ?a = "rung_attrs answers q r" and ?rn = "rn \<or> answers (probe_command q r) \<noteq> None"
    define p1 where "p1 = p\<lparr>m_channelDied := (answers (probe_command q r) = None)\<rparr>"
    define p2 where "p2 = p1\<lparr>m_tooBigToMeasure := True, m_tooBigSize := a_size ?a\<rparr>"
    have q: "query (stable_run answers) p e r = (?a, p1, e)"
      using stable_query [of p r answers e] True same by (simp add: p1_def)
    have p1: "same_target p1 q" "m_tooBigToMeasure p1 = m_tooBigToMeasure p" and p2: "same_target p2 q" "m_tooBigToMeasure p2"
      using Cons.prems by (simp_all add: p1_def p2_def same_target_def)
    let ?go = "\<lambda>p'. settle_from (stable_run answers) (stable_read got) rungs p' e True ?rn"
    note big = Cons.IH [OF p2(1), where e = e and att = True and rn = ?rn] and small = Cons.IH [OF p1(1), where e = e and att = True and rn = ?rn]
    have step: "settle_from (stable_run answers) (stable_read got) (r # rungs) p e att rn =
        (if \<not> attrs_ok ?a then ?go p1 else if rung_too_big answers q r then ?go p2
         else if \<not> rung_works answers got q r then ?go p1
         else (r, Some ?a, p1\<lparr>m_channelDied := False, m_tooBigToMeasure := False, m_tooBigSize := 0\<rparr>, e))"
    proof (cases "attrs_ok ?a")
      case ok: True
      have tb: "(r = SWc \<and> kWcSettleCeiling < a_size ?a) = rung_too_big answers q r"
        using ok by (simp add: rung_too_big_def)
      have works: "rung_works answers got q r \<longleftrightarrow> \<not> rung_too_big answers q r \<and> (a_size ?a \<le> 0 \<or> 1 \<le> got (a_size ?a - 1) 1)"
        using ok True by (simp add: rung_works_def)
      have died: "(\<not> m_channelDied p1) = (answers (probe_command q r) \<noteq> None)" by (simp add: p1_def)
      show ?thesis
        unfolding settle_from.simps(2) same(1) q prod.case Let_def tb stable_proves works p2_def died
        using ok True by simp
    next
      case False
      then show ?thesis using True same(1) q by (simp add: p1_def)
    qed
    show ?thesis
    proof (cases "rung_works answers got q r")
      case works: True
      then have "attrs_ok ?a" "\<not> rung_too_big answers q r" by (auto simp: rung_works_def)
      then show ?thesis using works p1(1) unfolding step by (simp add: ladder_ok_def same_target_def)
    next
      case False
      show ?thesis
      proof (rule ladder_next [OF True False], cases "rung_too_big answers q r")
        case True
        then have "attrs_ok ?a" unfolding rung_too_big_def by blast
        with True show "ladder_ok answers got q rungs True ?rn (m_tooBigToMeasure p \<or> rung_too_big answers q r)
            (settle_from (stable_run answers) (stable_read got) (r # rungs) p e att rn)"
          using big p2(2) unfolding step by simp
      next
        case small_answer: False
        with False show "ladder_ok answers got q rungs True ?rn (m_tooBigToMeasure p \<or> rung_too_big answers q r)
            (settle_from (stable_run answers) (stable_read got) (r # rungs) p e att rn)"
          using small p1(2) unfolding step by simp
      qed
    qed
  qed
qed

section \<open>Properties\<close>

definition eligible_rungs :: "size_probe \<Rightarrow> size_source list" where
  "eligible_rungs p = filter (eligible p) [SStat, SLs, SWc]"

lemma eligible_rungs_silent:
  "eligible_rungs p \<noteq> [] \<and> list_all P (eligible_rungs p)
   \<longleftrightarrow> (\<exists>r \<in> {SStat, SLs, SWc}. eligible p r) \<and> (\<forall>r \<in> {SStat, SLs, SWc}. eligible p r \<longrightarrow> P r)"
  by (auto simp: eligible_rungs_def)

lemma settled_rung:
  "case settle (stable_run answers) (stable_read got) p e of (src, first, p', e') \<Rightarrow>
     (case List.find (rung_works answers got p) [SStat, SLs, SWc] of
        Some r \<Rightarrow> src = r \<and> first = Some (rung_attrs answers p r) \<and> \<not> m_channelDied p' \<and> \<not> m_tooBigToMeasure p'
      | None \<Rightarrow> src = SNone \<and> first = None \<and>
          (m_channelDied p' \<longleftrightarrow> (\<exists>r \<in> {SStat, SLs, SWc}. eligible p r) \<and>
             (\<forall>r \<in> {SStat, SLs, SWc}. eligible p r \<longrightarrow> answers (probe_command p r) = None)) \<and>
          (m_tooBigToMeasure p' \<longleftrightarrow> eligible p SWc \<and> rung_too_big answers p SWc))"
proof -
  let ?p = "p\<lparr>m_tooBigToMeasure := False, m_tooBigSize := 0\<rparr>"
  have "same_target ?p p" by (simp add: same_target_def)
  from settle_from_stable [OF this, of answers got "[SStat, SLs, SWc]" False False e]
  have "ladder_ok answers got p [SStat, SLs, SWc] False False False (settle (stable_run answers) (stable_read got) p e)"
    by (simp add: settle_def)
  moreover have "\<not> rung_too_big answers p SStat" "\<not> rung_too_big answers p SLs" by (simp_all add: rung_too_big_def)
  moreover obtain src first p' e' where "settle (stable_run answers) (stable_read got) p e = (src, first, p', e')"
    by (cases "settle (stable_run answers) (stable_read got) p e") auto
  ultimately show ?thesis
    by (cases "List.find (rung_works answers got p) [SStat, SLs, SWc]") (auto simp: ladder_ok_def simp del: List.find.simps)
qed

text \<open>C31: size_probe_picks_first. Against a far end that answers the same each time, the probe settles on the first of
  stat, ls and wc that the far end has, whose answer parses, that wc may be asked for at that size, and behind
  whose size a last byte can be read, and reports what that tool printed. When there is none, the channel is
  taken for dead exactly when some tool was tried and no command ran at all, and the log for too big exactly
  when wc measured it beyond the ceiling.\<close>

theorem size_probe_picks_first:
  "case settle (stable_run answers) (stable_read got) p e of (src, first, p', e') \<Rightarrow>
     (case List.find (rung_works answers got p) [SStat, SLs, SWc] of
        Some r \<Rightarrow> src = r \<and> first = Some (rung_attrs answers p r) \<and> \<not> m_channelDied p' \<and> \<not> m_tooBigToMeasure p'
      | None \<Rightarrow> src = SNone \<and> first = None \<and>
          (m_channelDied p' \<longleftrightarrow> eligible_rungs p \<noteq> [] \<and> list_all (\<lambda>r. answers (probe_command p r) = None) (eligible_rungs p)) \<and>
          (m_tooBigToMeasure p' \<longleftrightarrow> eligible p SWc \<and> rung_too_big answers p SWc))"
  unfolding eligible_rungs_silent by (rule settled_rung)

text \<open>What a line makes of the bytes that pass over it when it passes each on as itself, as another byte, or not
  at all: a terminal's line discipline.\<close>

fun through :: "(char \<Rightarrow> char option) \<Rightarrow> string \<Rightarrow> string" where
  "through f [] = []"
| "through f (c # cs) = (case f c of None \<Rightarrow> through f cs | Some d \<Rightarrow> d # through f cs)"

lemma through_shorter: "length (through f s) \<le> length s"
  by (induction s) (auto split: option.split)

lemma through_same: "through f s = s \<longleftrightarrow> (\<forall>c \<in> set s. f c = Some c)"
proof (induction s)
  case (Cons c cs)
  show ?case
  proof (cases "f c")
    case None
    then have "length (through f (c # cs)) < length (c # cs)" using through_shorter [of f cs] by simp
    then show ?thesis using None by force
  qed (use Cons in auto)
qed simp

text \<open>C32: byte_safety_raw_is_intact. With an encoder on the far end nothing is refused, and when the head of the log,
  sent through it, can still be decoded after the line, raw is chosen when what the line shows of the log is what it
  begins with, and base64 otherwise. Without an encoder base64 is never chosen, and raw exactly when the sample
  shows no NUL and the test pattern comes back as it was sent; a line that drops or changes single bytes, and at
  most those of the pattern and the NUL, then passes every text without a NUL unchanged.\<close>

theorem byte_safety_raw_is_intact:
  assumes raw: "read (snd (runRawMode run (snd (run e0 base64ProbeCommand)))) 0 kSampleBytes = (line sample, e3)"
    and settled: "settle_bytes fromBase64 run read s0 e0 = (safety, refused, s, e)"
  shows "(m_hasEncoder s \<longleftrightarrow> map_option lastNonEmptyLine (fst (run e0 base64ProbeCommand)) = Some base64_probe_answer) \<and>
    (m_hasEncoder s \<longrightarrow> safety \<noteq> None \<and> refused = None) \<and>
    (m_hasEncoder s \<and>
      fst (run e3 (readCommand (bs_path s0) 0 (int (length (line sample))) Base64)) = Some (line printed) \<and>
      decodeBase64Payload fromBase64 (line printed) = Some (take (length (line sample)) content) \<longrightarrow>
      safety = Some (if line sample = take (length (line sample)) content then Raw else Base64)) \<and>
    (\<not> m_hasEncoder s \<longrightarrow> safety \<noteq> Some Base64 \<and> (safety = None) = (refused \<noteq> None) \<and>
      (safety = Some Raw \<longleftrightarrow> CHR 0x00 \<notin> set (line sample) \<and> fst (run e3 patternCommand) = Some kPattern)) \<and>
    (\<not> m_hasEncoder s \<and> safety = Some Raw \<and> fst (run e3 patternCommand) = Some (through f kPattern) \<and>
      (\<forall>c. f c \<noteq> Some c \<longrightarrow> c = CHR 0x00 \<or> c \<in> set kPattern) \<and> CHR 0x00 \<notin> set sent \<longrightarrow> through f sent = sent)"
proof -
  obtain probed e1 where p: "run e0 base64ProbeCommand = (probed, e1)" by (cases "run e0 base64ProbeCommand")
  obtain ok e2 where m: "runRawMode run e1 = (ok, e2)" by (cases "runRawMode run e1")
  have r: "read e2 0 kSampleBytes = (line sample, e3)" using raw p m by simp
  obtain pat e5 where g: "run e3 patternCommand = (pat, e5)" by (cases "run e3 patternCommand")
  have survives: "generatedPatternSurvives run e3 = (pat = Some kPattern, e5)"
    using g by (simp add: generatedPatternSurvives_def split: option.split)
  obtain got e4 where x: "run e3 (readCommand (bs_path s0) 0 (int (length (line sample))) Base64) = (got, e4)" by fastforce
  have agrees: "encoderRoundTripAgrees fromBase64 run (bs_path s0) e3 (line sample) =
      (Option.bind got (decodeBase64Payload fromBase64) = Some (line sample), e4)"
    using x by (auto simp: encoderRoundTripAgrees_def split: option.split)
  note known = settled [unfolded settle_bytes_def Let_def p prod.case m r survives]
  have enc: "m_hasEncoder s \<longleftrightarrow> map_option lastNonEmptyLine (fst (run e0 base64ProbeCommand)) = Some base64_probe_answer"
    using known by (auto simp: agrees p split: if_splits option.splits)
  have with_encoder: "m_hasEncoder s \<longrightarrow> refused = None \<and>
      safety = Some (if line sample = [] \<or> Option.bind got (decodeBase64Payload fromBase64) = Some (line sample) then Raw else Base64)"
    using known by (auto simp: agrees split: if_splits option.splits)
  have without: "\<not> m_hasEncoder s \<longrightarrow> (safety = None) = (refused \<noteq> None) \<and>
      safety = (if CHR 0x00 \<notin> set (line sample) \<and> pat = Some kPattern then Some Raw else None)"
    using known by (auto simp: agrees split: if_splits option.splits)
  have passes: "pat = Some kPattern \<Longrightarrow> pat = Some (through f kPattern) \<Longrightarrow>
      \<forall>c. f c \<noteq> Some c \<longrightarrow> c = CHR 0x00 \<or> c \<in> set kPattern \<Longrightarrow> CHR 0x00 \<notin> set sent \<Longrightarrow> through f sent = sent"
    unfolding through_same using through_same [of f kPattern] by (metis option.inject)
  show ?thesis
    using enc with_encoder without passes x g by (auto split: if_splits)
qed

text \<open>A line whose flow control eats XOFF, and a log that begins with one: a far end with base64, and one without.\<close>

definition xoff_byte :: "char \<Rightarrow> char option" where
  "xoff_byte c = (if c = CHR 0x13 then None else Some c)"

definition xoff_log :: string where
  "xoff_log = [CHR 0x13, CHR ''a'']"

definition xoff_run :: "unit run_command" where
  "xoff_run e c = (Some (if c = base64ProbeCommand then base64_probe_answer else ''Ew==''), e)"

definition bare_run :: "(char \<Rightarrow> char option) \<Rightarrow> unit run_command" where
  "bare_run f e c = (if c = patternCommand then Some (through f kPattern) else None, e)"

definition xoff_probe :: byte_safety_probe where
  "xoff_probe = \<lparr>bs_path = ''log'', m_hasEncoder = False, m_verifiedAgainstEncoder = False\<rparr>"

definition xoff_decode :: "string \<Rightarrow> string option" where
  "xoff_decode s = (if s = ''Ew=='' then Some [CHR 0x13] else None)"

text \<open>With base64 the XOFF is seen to be lost and base64 is chosen. Without it the same line is refused, and a line that
  only eats NULs is taken raw and passes a log with an XOFF in it.\<close>

theorem byte_safety_raw_is_intact_witness:
  "fst (settle_bytes xoff_decode xoff_run (\<lambda>e off n. (through xoff_byte xoff_log, e)) xoff_probe ()) = Some Base64 \<and>
   fst (settle_bytes xoff_decode (bare_run xoff_byte) (\<lambda>e off n. (through xoff_byte xoff_log, e)) xoff_probe ()) = None \<and>
   through (\<lambda>c. if c = CHR 0x00 then None else Some c) xoff_log = xoff_log"
proof -
  let ?nul = "\<lambda>c. if c = CHR 0x00 then None else Some c"
  have a: "settle_bytes xoff_decode xoff_run (\<lambda>e off n. (through xoff_byte xoff_log, e)) xoff_probe () =
      (Some Base64, None, xoff_probe\<lparr>m_hasEncoder := True\<rparr>, ())" by code_simp
  have b: "settle_bytes xoff_decode (bare_run xoff_byte) (\<lambda>e off n. (through xoff_byte xoff_log, e)) xoff_probe () =
      (None, Some LineChangesBytes, xoff_probe, ())" by code_simp
  have c: "settle_bytes xoff_decode (bare_run ?nul) (\<lambda>e off n. (through ?nul xoff_log, e)) xoff_probe () =
      (Some Raw, None, xoff_probe, ())" by code_simp
  have probe: "bs_path xoff_probe = ''log''" "\<not> m_hasEncoder xoff_probe" by (simp_all add: xoff_probe_def)
  have shown: "through xoff_byte xoff_log = [CHR ''a'']" "through xoff_byte ''Ew=='' = ''Ew==''" by code_simp+
  have differs: "[CHR ''a''] \<noteq> take (length [CHR ''a'']) xoff_log" by (simp add: xoff_log_def)
  have ran: "fst (xoff_run () (readCommand ''log'' 0 (int (length [CHR ''a''])) Base64)) = Some ''Ew==''" by code_simp
  have decoded: "decodeBase64Payload xoff_decode ''Ew=='' = Some (take (length [CHR ''a'']) xoff_log)" by code_simp
  have "fst (settle_bytes xoff_decode xoff_run (\<lambda>e off n. (through xoff_byte xoff_log, e)) xoff_probe ()) = Some Base64"
    using byte_safety_raw_is_intact [where line = "through xoff_byte" and sample = xoff_log and printed = "''Ew==''"
        and content = xoff_log, OF _ a] shown differs ran decoded probe a by simp
  moreover have "fst (settle_bytes xoff_decode (bare_run xoff_byte) (\<lambda>e off n. (through xoff_byte xoff_log, e)) xoff_probe ()) = None"
    using a b by simp
  moreover have "through ?nul xoff_log = xoff_log"
  proof -
    have pattern: "fst (bare_run ?nul () patternCommand) = Some (through ?nul kPattern)" by (simp add: bare_run_def)
    have clean: "CHR 0x00 \<notin> set xoff_log" by (simp add: xoff_log_def)
    show ?thesis
      using byte_safety_raw_is_intact [where line = "through ?nul" and sample = xoff_log and f = ?nul and sent = xoff_log, OF _ c]
        probe pattern clean by simp
  qed
  ultimately show ?thesis by blast
qed

end
