(* ===== verification/Patterns.thy ===== *)
theory Patterns
  imports Bytes
begin

text \<open>
  \<open>src/core/PatternCompiler\<close> with \<open>LogFormat.h\<close> and \<open>CompileError.h\<close>: from a conversion pattern to the
  regular expressions of a record, its fields, and the program that reads a date. The expressions are text, as
  in the code; the text of a date is kept as the list of the fragments it is put together from, whose printed
  form is the text the code appends. Texts are in the Latin-1 range; translations of names are not modelled.
\<close>

section \<open>Formats\<close>

datatype field_role =
    RDate | RPriority | RLogger | RThread | RMessage | RFileName | RLineNumber | RMethod
  | RLocation | RThreadName | RProcessId | RHostname | RElapsed | RNdc | RMdc | REnvVar

record field =
  f_role :: field_role
  f_name :: string
  f_group :: nat

datatype date_token_kind =
    TLiteral | TYear4 | TYear2 | TMonthNumber | TMonthName | TDay | THour24 | THour12 | TMinute | TSecond
  | TMillis | TMillisFrac | TAmPm | TEpochSeconds | TUtcOffset | TSkipDigits | TSkipWord

record date_token =
  t_kind :: date_token_kind
  t_width :: nat
  t_literal :: char
  t_dot :: bool

datatype error_code =
    EmptyPattern | DanglingPercent | UnknownSpecifier | UnterminatedDateBrace | UnterminatedBrace
  | UnsupportedDateCode | DanglingPercentInDate | InvalidRegex

record compile_error =
  e_code :: error_code
  e_offset :: int

definition error_at :: "error_code \<Rightarrow> int \<Rightarrow> compile_error" where
  "error_at c off = \<lparr>e_code = c, e_offset = off\<rparr>"

section \<open>Fragments of a date expression\<close>

definition rx_escape :: "char \<Rightarrow> string" where
  "rx_escape c =
     (if code c = 0 then [bslash, CHR ''0'']
      else if isDigit c \<or> 65 \<le> code c \<and> code c \<le> 90 \<or> 97 \<le> code c \<and> code c \<le> 122 \<or> c = CHR ''_'' then [c]
      else [bslash, c])"

datatype frag =
    FDigits nat | FSpaceDigits nat | FName | FNamePlain | FUpperAmPm | FLowerAmPm | FMillisFrac | FEpoch
  | FOffset | FZone | FTab | FChar char

fun frag_text :: "frag \<Rightarrow> string" where
  "frag_text (FDigits w) = (if w = 1 then bslash # ''d'' else bslash # ''d{'' @ dec w @ ''}'')"
| "frag_text (FSpaceDigits w) = ''[ '' @ bslash # ''d]'' @ bslash # ''d{'' @ dec (w - 1) @ ''}''"
| "frag_text FName = bslash # ''p{L}+'' @ bslash # ''.?''"
| "frag_text FNamePlain = bslash # ''p{L}+''"
| "frag_text FUpperAmPm = ''[AP]M''"
| "frag_text FLowerAmPm = ''[ap]m''"
| "frag_text FMillisFrac =
     bslash # ''d{3}(?:'' @ bslash # ''.'' @ bslash # ''d{1,6}|'' @ bslash # ''d{1,6})?''"
| "frag_text FEpoch = bslash # ''d{1,12}''"
| "frag_text FOffset = ''(?:[+-]'' @ bslash # ''d{2}:?'' @ bslash # ''d{2}|Z)''"
| "frag_text FZone = ''[A-Za-z][A-Za-z0-9_/+-]*''"
| "frag_text FTab = bslash # ''t''"
| "frag_text (FChar c) = rx_escape c"

definition frags_text :: "frag list \<Rightarrow> string" where
  "frags_text fs = concat (map frag_text fs)"

record translation =
  d_frags :: "frag list"
  d_qt :: string
  d_tokens :: "date_token list"
  d_millis :: bool

section \<open>Date formats\<close>

definition kDefaultDateFormat :: string where
  "kDefaultDateFormat = ''%Y-%m-%d %H:%M:%S''"

definition kDefaultQtDateFormat :: string where
  "kDefaultQtDateFormat = ''yyyy-MM-dd HH:mm:ss''"

definition isLetter :: "char \<Rightarrow> bool" where
  "isLetter c \<longleftrightarrow> 65 \<le> code c \<and> code c \<le> 90 \<or> 97 \<le> code c \<and> code c \<le> 122 \<or> code c \<in> {170, 181, 186}
     \<or> 192 \<le> code c \<and> code c \<noteq> 215 \<and> code c \<noteq> 247"

definition expansionOf :: "char \<Rightarrow> string" where
  "expansionOf c =
     (if c = CHR ''c'' then ''%a %b %e %H:%M:%S %Y''
      else if c = CHR ''D'' then ''%m/%d/%y''
      else if c = CHR ''F'' then ''%Y-%m-%d''
      else if c = CHR ''r'' then ''%I:%M:%S %p''
      else if c = CHR ''R'' then ''%H:%M''
      else if c = CHR ''T'' then ''%H:%M:%S''
      else if c = CHR ''x'' then ''%m/%d/%y''
      else if c = CHR ''X'' then ''%H:%M:%S''
      else [])"

definition token :: "date_token_kind \<Rightarrow> nat \<Rightarrow> date_token" where
  "token k w = \<lparr>t_kind = k, t_width = w, t_literal = CHR 0x00, t_dot = False\<rparr>"

definition literal_token :: "char \<Rightarrow> date_token" where
  "literal_token c = \<lparr>t_kind = TLiteral, t_width = 0, t_literal = c, t_dot = False\<rparr>"

definition word_token :: "date_token_kind \<Rightarrow> bool \<Rightarrow> date_token" where
  "word_token k dot = \<lparr>t_kind = k, t_width = 0, t_literal = CHR 0x00, t_dot = dot\<rparr>"

text \<open>\<open>numeric\<close> and \<open>name\<close> of the code, and what is appended for one code: a fragment, the spelling of \<open>Qt\<close>, tokens.\<close>

definition numeric :: "date_token_kind \<Rightarrow> nat \<Rightarrow> bool \<Rightarrow> string \<Rightarrow> translation" where
  "numeric k digits spacePadded qtSpelling =
     \<lparr>d_frags = [if spacePadded then FSpaceDigits digits else FDigits digits], d_qt = qtSpelling,
      d_tokens = [token k digits], d_millis = False\<rparr>"

definition name_field :: "date_token_kind \<Rightarrow> string \<Rightarrow> bool \<Rightarrow> translation" where
  "name_field k qtSpelling dotIsLiteral =
     \<lparr>d_frags = [if dotIsLiteral then FNamePlain else FName], d_qt = qtSpelling,
      d_tokens = [word_token k dotIsLiteral], d_millis = False\<rparr>"

definition skipped :: "nat \<Rightarrow> translation" where
  "skipped w = \<lparr>d_frags = [FDigits w], d_qt = [], d_tokens = [token TSkipDigits w], d_millis = False\<rparr>"

definition date_code :: "char \<Rightarrow> bool \<Rightarrow> translation option" where
  "date_code c dot =
     (if c = CHR ''Y'' then Some (numeric TYear4 4 False ''yyyy'')
      else if c = CHR ''y'' then Some (numeric TYear2 2 False ''yy'')
      else if c = CHR ''m'' then Some (numeric TMonthNumber 2 False ''MM'')
      else if c = CHR ''d'' then Some (numeric TDay 2 False ''dd'')
      else if c = CHR ''e'' then Some (numeric TDay 2 True ''d'')
      else if c = CHR ''b'' \<or> c = CHR ''h'' then Some (name_field TMonthName ''MMM'' dot)
      else if c = CHR ''B'' then Some (name_field TMonthName ''MMMM'' dot)
      else if c = CHR ''a'' then Some (name_field TSkipWord ''ddd'' dot)
      else if c = CHR ''A'' then Some (name_field TSkipWord ''dddd'' dot)
      else if c = CHR ''H'' then Some (numeric THour24 2 False ''HH'')
      else if c = CHR ''k'' then Some (numeric THour24 2 True ''H'')
      else if c = CHR ''I'' then Some (numeric THour12 2 False ''hh'')
      else if c = CHR ''l'' then Some (numeric THour12 2 True ''h'')
      else if c = CHR ''M'' then Some (numeric TMinute 2 False ''mm'')
      else if c = CHR ''S'' then Some (numeric TSecond 2 False ''ss'')
      else if c = CHR ''p'' then Some \<lparr>d_frags = [FUpperAmPm], d_qt = ''AP'', d_tokens = [word_token TAmPm dot], d_millis = False\<rparr>
      else if c = CHR ''P'' then Some \<lparr>d_frags = [FLowerAmPm], d_qt = ''ap'', d_tokens = [word_token TAmPm dot], d_millis = False\<rparr>
      else if c = CHR ''q'' then Some \<lparr>d_frags = [FDigits 3], d_qt = ''zzz'', d_tokens = [token TMillis 3], d_millis = True\<rparr>
      else if c = CHR ''Q'' then Some \<lparr>d_frags = [FMillisFrac], d_qt = ''zzz'', d_tokens = [token TMillisFrac 3], d_millis = True\<rparr>
      else if c = CHR ''s'' then Some \<lparr>d_frags = [FEpoch], d_qt = [], d_tokens = [token TEpochSeconds 12], d_millis = False\<rparr>
      else if c = CHR ''z'' then Some \<lparr>d_frags = [FOffset], d_qt = ''t'', d_tokens = [token TUtcOffset 0], d_millis = False\<rparr>
      else if c = CHR ''Z'' then Some \<lparr>d_frags = [FZone], d_qt = ''t'', d_tokens = [word_token TSkipWord dot], d_millis = False\<rparr>
      else if c = CHR ''j'' then Some (skipped 3)
      else if c = CHR ''C'' \<or> c = CHR ''g'' \<or> c = CHR ''U'' \<or> c = CHR ''V'' \<or> c = CHR ''W'' then Some (skipped 2)
      else if c = CHR ''G'' then Some (skipped 4)
      else if c = CHR ''u'' \<or> c = CHR ''w'' then Some (skipped 1)
      else if c = CHR ''t'' then Some \<lparr>d_frags = [FTab], d_qt = [squote, CHR 0x09, squote],
                                   d_tokens = [literal_token (CHR 0x09)], d_millis = False\<rparr>
      else if c = CHR ''%'' then Some \<lparr>d_frags = [FChar (CHR ''%'')], d_qt = ''%'',
                                   d_tokens = [literal_token (CHR ''%'')], d_millis = False\<rparr>
      else None)"

definition literal_char :: "char \<Rightarrow> translation" where
  "literal_char c =
     \<lparr>d_frags = [FChar c], d_qt = (if isLetter c then [squote, c, squote] else [c]),
      d_tokens = [literal_token c], d_millis = False\<rparr>"

definition nothing_yet :: translation where
  "nothing_yet = \<lparr>d_frags = [], d_qt = [], d_tokens = [], d_millis = False\<rparr>"

definition followed_by :: "translation \<Rightarrow> translation \<Rightarrow> translation" where
  "followed_by a b = \<lparr>d_frags = d_frags a @ d_frags b, d_qt = d_qt a @ d_qt b, d_tokens = d_tokens a @ d_tokens b,
     d_millis = (d_millis a \<or> d_millis b)\<rparr>"

text \<open>A format made only of codes without a spelling for \<open>Qt\<close> gets the default one.\<close>

definition finished :: "translation \<Rightarrow> translation" where
  "finished t = (if d_qt t = [] then t\<lparr>d_qt := kDefaultQtDateFormat\<rparr> else t)"

definition composite_weight :: "char \<Rightarrow> nat" where
  "composite_weight c = (if expansionOf c \<noteq> [] then 50 else 1)"

lemma expansion_weight: "expansionOf c \<noteq> [] \<Longrightarrow> sum_list (map composite_weight (expansionOf c)) < 50"
  by (auto simp: expansionOf_def composite_weight_def split: if_splits)

lemma weight_pos: "0 < composite_weight c"
  by (simp add: composite_weight_def)

text \<open>The loop, from index \<open>i\<close>, on the rest of the format.\<close>

function translate_from :: "string \<Rightarrow> nat \<Rightarrow> int \<Rightarrow> char option \<Rightarrow> compile_error + translation" where
  "translate_from fmt i baseOffset following =
     (case fmt of
        [] \<Rightarrow> Inr nothing_yet
      | c # rest \<Rightarrow>
          if c \<noteq> CHR ''%'' then map_sum id (followed_by (literal_char c)) (translate_from rest (i + 1) baseOffset following)
          else (case rest of
                  [] \<Rightarrow> Inl (error_at DanglingPercentInDate (baseOffset + int i))
                | c' # rest' \<Rightarrow>
                    (let following' = (case rest' of [] \<Rightarrow> following | d # _ \<Rightarrow> Some d)
                     in if expansionOf c' \<noteq> [] then
                          (case translate_from (expansionOf c') 0 (baseOffset + int i) following' of
                             Inl e \<Rightarrow> Inl e
                           | Inr t \<Rightarrow> map_sum id (followed_by (finished t)) (translate_from rest' (i + 2) baseOffset following))
                        else (case date_code c' (following' = Some CHR ''.'') of
                                None \<Rightarrow> Inl (error_at UnsupportedDateCode (baseOffset + int i))
                              | Some t \<Rightarrow> map_sum id (followed_by t) (translate_from rest' (i + 2) baseOffset following)))))"
  by pat_completeness auto
termination
  by (relation "measure (\<lambda>(fmt, i, b, f). sum_list (map composite_weight fmt))")
    (auto simp: weight_pos composite_weight_def [of "_"] dest: expansion_weight)

declare translate_from.simps [simp del]

record date_format =
  df_strftime :: string
  df_translation :: translation

definition translateDateFormat :: "string \<Rightarrow> int \<Rightarrow> char option \<Rightarrow> compile_error + date_format" where
  "translateDateFormat fmt baseOffset following =
     map_sum id (\<lambda>t. \<lparr>df_strftime = fmt, df_translation = finished t\<rparr>) (translate_from fmt 0 baseOffset following)"

section \<open>Pieces\<close>

definition rx_space :: string where
  "rx_space = bslash # ''s+''"

fun literal_run :: "string \<Rightarrow> bool \<Rightarrow> string" where
  "literal_run [] in_space = []"
| "literal_run (c # cs) in_space =
     (if isSpace c then (if in_space then [] else rx_space) @ literal_run cs True
      else rx_escape c @ literal_run cs False)"

definition compileLiteral :: "string \<Rightarrow> string" where
  "compileLiteral text = literal_run text False"

definition fieldName :: "field_role \<Rightarrow> string" where
  "fieldName r = (case r of
     RDate \<Rightarrow> ''Time'' | RPriority \<Rightarrow> ''Priority'' | RLogger \<Rightarrow> ''Subsystem'' | RThread \<Rightarrow> ''Thread''
   | RMessage \<Rightarrow> ''Message'' | RFileName \<Rightarrow> ''File'' | RLineNumber \<Rightarrow> ''Line'' | RMethod \<Rightarrow> ''Method''
   | RLocation \<Rightarrow> ''Location'' | RThreadName \<Rightarrow> ''Thread name'' | RProcessId \<Rightarrow> ''PID'' | RHostname \<Rightarrow> ''Host''
   | RElapsed \<Rightarrow> ''Elapsed'' | RNdc \<Rightarrow> ''NDC'' | RMdc \<Rightarrow> ''MDC'' | REnvVar \<Rightarrow> ''Env'')"

definition kFreeText :: string where
  "kFreeText = ''.*?''"

definition rx_word :: string where
  "rx_word = bslash # ''S+''"

definition rx_number :: string where
  "rx_number = bslash # ''d+''"

record piece =
  p_regex :: string
  p_isField :: bool
  p_role :: field_role
  p_isMessage :: bool
  p_name :: string

definition makeFieldPiece :: "string \<Rightarrow> field_role \<Rightarrow> bool \<Rightarrow> bool \<Rightarrow> piece" where
  "makeFieldPiece base role hasMinWidth isMessage =
     (let group = ''('' @ base @ '')''; pad = bslash # ''s*''
      in \<lparr>p_regex = (if hasMinWidth then pad @ group @ pad else group), p_isField = True, p_role = role,
          p_isMessage = isMessage, p_name = []\<rparr>)"

section \<open>The compiler\<close>

datatype time_spec = UTC | LocalTime

record compiling =
  c_pieces :: "piece list"
  c_literal :: string
  c_counter :: nat
  c_dateGroup :: int
  c_prioGroup :: int
  c_loggerGroup :: int
  c_threadGroup :: int
  c_msgGroup :: int
  c_dateFormat :: "date_format option"
  c_zone :: time_spec

definition compiling_start :: compiling where
  "compiling_start = \<lparr>c_pieces = [], c_literal = [], c_counter = 0, c_dateGroup = - 1, c_prioGroup = - 1,
     c_loggerGroup = - 1, c_threadGroup = - 1, c_msgGroup = - 1, c_dateFormat = None, c_zone = LocalTime\<rparr>"

definition flushLiteral :: "compiling \<Rightarrow> compiling" where
  "flushLiteral st =
     (if c_literal st = [] then st
      else st\<lparr>c_pieces := c_pieces st @ [\<lparr>p_regex = compileLiteral (c_literal st), p_isField = False,
                                           p_role = RMessage, p_isMessage = False, p_name = []\<rparr>],
              c_literal := []\<rparr>)"

text \<open>The group a role is remembered under; the display-only roles have none.\<close>

definition set_group :: "field_role \<Rightarrow> nat \<Rightarrow> compiling \<Rightarrow> compiling" where
  "set_group r g st =
     (case r of
        RDate \<Rightarrow> st\<lparr>c_dateGroup := int g\<rparr> | RPriority \<Rightarrow> st\<lparr>c_prioGroup := int g\<rparr>
      | RLogger \<Rightarrow> st\<lparr>c_loggerGroup := int g\<rparr> | RThread \<Rightarrow> st\<lparr>c_threadGroup := int g\<rparr>
      | RMessage \<Rightarrow> st\<lparr>c_msgGroup := int g\<rparr> | _ \<Rightarrow> st)"

definition emit_field :: "string \<Rightarrow> field_role \<Rightarrow> bool \<Rightarrow> string \<Rightarrow> compiling \<Rightarrow> compiling" where
  "emit_field base role hasMinWidth shown st =
     (let st1 = flushLiteral st;
          p = makeFieldPiece base role hasMinWidth (role = RMessage)
      in set_group role (c_counter st1 + 1)
           (st1\<lparr>c_pieces := c_pieces st1 @ [p\<lparr>p_name := shown\<rparr>], c_counter := c_counter st1 + 1\<rparr>))"

text \<open>The optional modifier: whether it has a minimum width, and how much of the text it takes.\<close>

definition modifier :: "string \<Rightarrow> bool \<times> nat" where
  "modifier s =
     (let s1 = (if s \<noteq> [] \<and> hd s = CHR ''-'' then drop 1 s else s);
          digits = length (takeWhile isDigit s1);
          s2 = drop digits s1;
          s3 = (if s2 \<noteq> [] \<and> hd s2 = CHR ''.'' then dropWhile isDigit (drop 1 s2) else s2)
      in (0 < digits, length s - length s3))"

text \<open>\<open>scanBraceArg\<close>: the argument and how much it takes with its braces, \<open>None\<close> when it is never closed.\<close>

definition scanBraceArg :: "string \<Rightarrow> (string \<times> nat) option" where
  "scanBraceArg s =
     (if s = [] \<or> hd s \<noteq> CHR ''{'' then Some ([], 0)
      else (let a = takeWhile (\<lambda>c. c \<noteq> CHR ''}'') (drop 1 s)
            in if length a + 1 < length s then Some (a, length a + 2) else None))"

definition simple_spec :: "char \<Rightarrow> (string \<times> field_role) option" where
  "simple_spec c =
     (if c = CHR ''p'' then Some (rx_word, RPriority)
      else if c = CHR ''t'' then Some (rx_word, RThread)
      else if c = CHR ''T'' then Some (rx_word, RThreadName)
      else if c = CHR ''F'' \<or> c = CHR ''b'' then Some (rx_word, RFileName)
      else if c = CHR ''L'' then Some (rx_number, RLineNumber)
      else if c = CHR ''l'' then Some (rx_word, RLocation)
      else if c = CHR ''M'' then Some (rx_word, RMethod)
      else if c = CHR ''i'' then Some (rx_number, RProcessId)
      else if c = CHR ''r'' then Some (rx_number, RElapsed)
      else if c = CHR ''h'' \<or> c = CHR ''H'' then Some (rx_word, RHostname)
      else if c = CHR ''x'' then Some (kFreeText, RNdc)
      else if c = CHR ''m'' then Some (''.*'', RMessage)
      else None)"

definition brace_spec :: "char \<Rightarrow> (string \<times> field_role \<times> string) option" where
  "brace_spec c =
     (if c = CHR ''c'' then Some (rx_word, RLogger, [])
      else if c = CHR ''X'' then Some (kFreeText, RMdc, ''MDC'')
      else if c = CHR ''E'' then Some (kFreeText, REnvVar, ''Env'')
      else None)"

definition shown_name :: "string \<Rightarrow> string \<Rightarrow> string" where
  "shown_name label a = (if label = [] \<or> a = [] then [] else label @ ''['' @ a @ '']'')"

text \<open>
  One conversion: what follows the percent sign at \<open>percentPos\<close>. The answer is the state and how much of the text
  was taken.
\<close>

definition date_spec :: "nat \<Rightarrow> char \<Rightarrow> bool \<Rightarrow> string \<Rightarrow> compiling \<Rightarrow> compile_error + (compiling \<times> nat)" where
  "date_spec j spec hasMinWidth rest st =
     (case scanBraceArg rest of
        None \<Rightarrow> Inl (error_at UnterminatedDateBrace (int (j + 1)))
      | Some (a, n) \<Rightarrow>
          (let (innerFmt, fmtOffset) = (if n = 0 then (kDefaultDateFormat, j) else (a, j + 2))
           in case translateDateFormat innerFmt (int fmtOffset) None of
                Inl e \<Rightarrow> Inl e
              | Inr t \<Rightarrow>
                  Inr ((emit_field (frags_text (d_frags (df_translation t))) RDate hasMinWidth [] st)
                         \<lparr>c_dateFormat := Some t, c_zone := (if spec = CHR ''d'' then UTC else LocalTime)\<rparr>, n)))"

definition conversion :: "nat \<Rightarrow> string \<Rightarrow> compiling \<Rightarrow> compile_error + (compiling \<times> nat)" where
  "conversion percentPos s st =
     (if s = [] then Inl (error_at DanglingPercent (int percentPos))
      else (let (hasMinWidth, m) = modifier s; j = percentPos + 1 + m
            in case drop m s of
                 [] \<Rightarrow> Inl (error_at DanglingPercent (int percentPos))
               | spec # rest \<Rightarrow>
                   if spec = CHR ''%'' then Inr (st\<lparr>c_literal := c_literal st @ ''%''\<rparr>, m + 1)
                   else if spec = CHR ''d'' \<or> spec = CHR ''D'' then
                     map_sum id (\<lambda>(st', n). (st', m + 1 + n)) (date_spec j spec hasMinWidth rest st)
                   else if spec = CHR ''n'' then Inr (flushLiteral st, m + 1)
                   else (case simple_spec spec of
                           Some (base, role) \<Rightarrow> Inr (emit_field base role hasMinWidth [] st, m + 1)
                         | None \<Rightarrow>
                             (case brace_spec spec of
                                None \<Rightarrow> Inl (error_at UnknownSpecifier (int j))
                              | Some (base, role, label) \<Rightarrow>
                                  (case scanBraceArg rest of
                                     None \<Rightarrow> Inl (error_at UnterminatedBrace (int (j + 1)))
                                   | Some (a, n) \<Rightarrow>
                                       Inr (emit_field base role hasMinWidth (shown_name label a) st, m + 1 + n))))))"

text \<open>The loop over the pattern, from index \<open>i\<close> on the rest of it.\<close>

function compile_from :: "nat \<Rightarrow> string \<Rightarrow> compiling \<Rightarrow> compile_error + compiling" where
  "compile_from i pat st =
     (case pat of
        [] \<Rightarrow> Inr (flushLiteral st)
      | c # rest \<Rightarrow>
          if c \<noteq> CHR ''%'' then compile_from (i + 1) rest (st\<lparr>c_literal := c_literal st @ [c]\<rparr>)
          else (case conversion i rest st of
                  Inl e \<Rightarrow> Inl e
                | Inr (st', n) \<Rightarrow> compile_from (i + 1 + n) (drop n rest) st'))"
  by pat_completeness auto
termination
  by (relation "measure (\<lambda>(i, pat, st). length pat)") auto

declare compile_from.simps [simp del]

record log_format =
  recordPattern :: string
  startPattern :: string
  l_fields :: "field list"
  l_dateGroup :: int
  l_prioGroup :: int
  l_loggerGroup :: int
  l_threadGroup :: int
  l_msgGroup :: int
  impliedDateFormat :: "date_format option"
  impliedZone :: time_spec

fun number_fields :: "nat \<Rightarrow> piece list \<Rightarrow> field list" where
  "number_fields k [] = []"
| "number_fields k (p # ps) =
     (if p_isField p
      then \<lparr>f_role = p_role p, f_name = (if p_name p = [] then fieldName (p_role p) else p_name p), f_group = k + 1\<rparr>
             # number_fields (k + 1) ps
      else number_fields k ps)"

definition format_of :: "compiling \<Rightarrow> log_format" where
  "format_of st =
     (let ps = c_pieces st
      in \<lparr>recordPattern = ''^'' @ concat (map p_regex ps) @ ''$'',
          startPattern = ''^'' @ concat (map p_regex (takeWhile (\<lambda>p. \<not> p_isMessage p) ps)),
          l_fields = number_fields 0 ps, l_dateGroup = c_dateGroup st, l_prioGroup = c_prioGroup st,
          l_loggerGroup = c_loggerGroup st, l_threadGroup = c_threadGroup st, l_msgGroup = c_msgGroup st,
          impliedDateFormat = c_dateFormat st, impliedZone = c_zone st\<rparr>)"

definition compile :: "(string \<Rightarrow> bool) \<Rightarrow> string \<Rightarrow> compile_error + log_format" where
  "compile validRegex pat =
     (if pat = [] then Inl (error_at EmptyPattern 0)
      else (case compile_from 0 pat compiling_start of
              Inl e \<Rightarrow> Inl e
            | Inr st \<Rightarrow>
                (let f = format_of st
                 in if \<not> validRegex (recordPattern f) \<or> \<not> validRegex (startPattern f)
                    then Inl (error_at InvalidRegex (- 1)) else Inr f)))"

section \<open>Reading a regular expression\<close>

text \<open>
  A reference reader of expression text that counts capturing groups: escapes, character classes, and groups that
  open with a question mark, which do not capture.
\<close>

datatype rx_mode = RxPlain | RxEscaped | RxClass | RxClassEscaped | RxOpened

definition rx_plain :: "nat \<Rightarrow> char \<Rightarrow> rx_mode \<times> nat" where
  "rx_plain n c =
     (if c = bslash then (RxEscaped, n) else if c = CHR ''['' then (RxClass, n)
      else if c = CHR ''('' then (RxOpened, n) else (RxPlain, n))"

fun rx_step :: "rx_mode \<times> nat \<Rightarrow> char \<Rightarrow> rx_mode \<times> nat" where
  "rx_step (RxPlain, n) c = rx_plain n c"
| "rx_step (RxEscaped, n) c = (RxPlain, n)"
| "rx_step (RxClass, n) c =
     (if c = bslash then (RxClassEscaped, n) else if c = CHR '']'' then (RxPlain, n) else (RxClass, n))"
| "rx_step (RxClassEscaped, n) c = (RxClass, n)"
| "rx_step (RxOpened, n) c = (if c = CHR ''?'' then (RxPlain, n) else rx_plain (n + 1) c)"

definition rx_read :: "rx_mode \<times> nat \<Rightarrow> string \<Rightarrow> rx_mode \<times> nat" where
  "rx_read = foldl rx_step"

definition captures :: "string \<Rightarrow> nat" where
  "captures s = snd (rx_read (RxPlain, 0) s)"

lemma rx_read_simps [simp]:
  "rx_read m [] = m" "rx_read m (c # cs) = rx_read (rx_step m c) cs" "rx_read m (a @ b) = rx_read (rx_read m a) b"
  by (simp_all add: rx_read_def)

lemma rx_plain_char:
  "c \<noteq> bslash \<Longrightarrow> c \<noteq> CHR ''['' \<Longrightarrow> c \<noteq> CHR ''('' \<Longrightarrow> rx_plain n c = (RxPlain, n)"
  by (simp add: rx_plain_def)

lemma rx_special: "code bslash = 92" "code (CHR ''['') = 91" "code (CHR ''('') = 40" "code (CHR ''?'') = 63"
  by (simp_all add: code_def bslash_def)

lemma rx_plain_code: "code c \<notin> {92, 91, 40} \<Longrightarrow> rx_plain n c = (RxPlain, n)"
  using rx_special by (intro rx_plain_char) auto

lemma rx_read_digits: "rx_read (RxPlain, n) (dec k) = (RxPlain, n)"
proof -
  have "rx_read (RxPlain, n) s = (RxPlain, n)" if "\<forall>c \<in> set s. 48 \<le> code c \<and> code c \<le> 57" for s
    using that by (induction s) (auto simp: rx_plain_code)
  then show ?thesis using dec_digits [of k] by blast
qed

lemma rx_escape_cases: "(\<exists>x. rx_escape c = [bslash, x]) \<or> rx_escape c = [c] \<and> code c \<notin> {92, 91, 40, 63}"
proof -
  have "code (CHR ''_'') = 95" by (simp add: code_def)
  then have "isDigit c \<or> 65 \<le> code c \<and> code c \<le> 90 \<or> 97 \<le> code c \<and> code c \<le> 122 \<or> c = CHR ''_''
      \<Longrightarrow> code c \<notin> {92, 91, 40, 63}"
    unfolding isDigit_def by (elim disjE) auto
  then show ?thesis unfolding rx_escape_def by (simp split: if_split)
qed

lemma rx_read_escape: "rx_read (RxPlain, n) (rx_escape c) = (RxPlain, n)"
  using rx_escape_cases [of c]
proof
  assume "\<exists>x. rx_escape c = [bslash, x]"
  then show ?thesis by (auto simp: rx_plain_def)
next
  assume "rx_escape c = [c] \<and> code c \<notin> {92, 91, 40, 63}"
  then show ?thesis by (simp add: rx_plain_code)
qed

lemma rx_read_frag: "rx_read (RxPlain, n) (frag_text f) = (RxPlain, n)"
  by (cases f) (simp_all add: rx_plain_def bslash_def rx_read_digits [simplified bslash_def] rx_read_escape)

lemma rx_read_frags: "rx_read (RxPlain, n) (frags_text fs) = (RxPlain, n)"
  by (induction fs) (simp_all add: frags_text_def rx_read_frag)

lemma rx_read_literal: "rx_read (RxPlain, n) (literal_run s b) = (RxPlain, n)"
  by (induction s b rule: literal_run.induct) (auto simp: rx_read_escape rx_space_def rx_plain_def bslash_def)

text \<open>A group captures unless its text starts with a question mark, which no fragment does.\<close>

definition group_ok :: "string \<Rightarrow> bool" where
  "group_ok base \<longleftrightarrow> (\<forall>n. rx_read (RxPlain, n) base = (RxPlain, n)) \<and> (base \<noteq> [] \<longrightarrow> hd base \<noteq> CHR ''?'')"

lemma group_captures:
  assumes "group_ok base"
  shows "rx_read (RxPlain, n) (''('' @ base @ '')'') = (RxPlain, n + 1)"
proof (cases base)
  case Nil
  then show ?thesis by (simp add: rx_plain_def bslash_def)
next
  case (Cons c cs)
  have p: "rx_read (rx_plain (n + 1) c) cs = (RxPlain, n + 1)"
    using assms Cons by (auto simp: group_ok_def dest: spec [of _ "n + 1"])
  then show ?thesis using assms Cons by (simp add: group_ok_def rx_plain_def [of _ "CHR ''(''"] rx_plain_def [of _ "CHR '')''"] bslash_def)
qed

lemma frag_text_first: "frag_text f \<noteq> [] \<and> hd (frag_text f) \<noteq> CHR ''?''"
proof (cases f)
  case (FChar c)
  have "bslash \<noteq> CHR ''?''" by (simp add: bslash_def)
  moreover have "code c \<notin> {92, 91, 40, 63} \<Longrightarrow> c \<noteq> CHR ''?''" using rx_special(4) by blast
  ultimately show ?thesis using rx_escape_cases [of c] unfolding FChar frag_text.simps by fastforce
qed (simp_all add: bslash_def)

lemma group_ok_frags: "group_ok (frags_text fs)"
proof (cases fs)
  case (Cons f gs)
  then have "frags_text fs \<noteq> [] \<longrightarrow> hd (frags_text fs) \<noteq> CHR ''?''"
    using frag_text_first [of f] by (simp add: frags_text_def)
  then show ?thesis by (simp add: group_ok_def rx_read_frags)
qed (simp add: group_ok_def frags_text_def)

lemma group_ok_bases: "group_ok rx_word" "group_ok rx_number" "group_ok kFreeText" "group_ok ''.*''"
  by (simp_all add: group_ok_def rx_word_def rx_number_def kFreeText_def rx_plain_def bslash_def)

section \<open>Groups and fields\<close>

definition last_group :: "field_role \<Rightarrow> field list \<Rightarrow> int" where
  "last_group r fs = (case rev (filter (\<lambda>x. f_role x = r) fs) of [] \<Rightarrow> - 1 | x # _ \<Rightarrow> int (f_group x))"

definition piece_count :: "piece list \<Rightarrow> nat" where
  "piece_count ps = length (filter p_isField ps)"

definition piece_ok :: "piece \<Rightarrow> bool" where
  "piece_ok p \<longleftrightarrow> (\<forall>n. rx_read (RxPlain, n) (p_regex p) = (RxPlain, n + (if p_isField p then 1 else 0)))
     \<and> (p_isMessage p \<longleftrightarrow> p_isField p \<and> p_role p = RMessage)"

definition compiling_ok :: "compiling \<Rightarrow> bool" where
  "compiling_ok st \<longleftrightarrow>
     (\<forall>p \<in> set (c_pieces st). piece_ok p) \<and> c_counter st = piece_count (c_pieces st)
     \<and> (let fs = number_fields 0 (c_pieces st)
        in c_dateGroup st = last_group RDate fs \<and> c_prioGroup st = last_group RPriority fs
           \<and> c_loggerGroup st = last_group RLogger fs \<and> c_threadGroup st = last_group RThread fs
           \<and> c_msgGroup st = last_group RMessage fs)"

lemma number_fields_append:
  "number_fields k (ps @ qs) = number_fields k ps @ number_fields (k + piece_count ps) qs"
  by (induction ps arbitrary: k) (simp_all add: piece_count_def)

lemma number_fields_length: "length (number_fields k ps) = piece_count ps"
  by (induction ps arbitrary: k) (simp_all add: piece_count_def)

lemma number_fields_group: "j < piece_count ps \<Longrightarrow> f_group (number_fields k ps ! j) = k + j + 1"
proof (induction ps arbitrary: k j)
  case (Cons p ps)
  then show ?case by (cases j) (auto simp: piece_count_def)
qed (simp add: piece_count_def)

lemma last_group_append: "last_group r (fs @ [x]) = (if f_role x = r then int (f_group x) else last_group r fs)"
  by (simp add: last_group_def)

lemma piece_count_append [simp]: "piece_count (ps @ qs) = piece_count ps + piece_count qs"
  by (simp add: piece_count_def)

lemma flush_ok:
  assumes "compiling_ok st"
  shows "compiling_ok (flushLiteral st)"
  using assms
  by (auto simp: flushLiteral_def compiling_ok_def Let_def number_fields_append piece_ok_def compileLiteral_def
      rx_read_literal piece_count_def)

lemma makeFieldPiece_ok:
  assumes "group_ok base"
  shows "piece_ok ((makeFieldPiece base role w (role = RMessage))\<lparr>p_name := x\<rparr>)"
  using group_captures [OF assms] by (auto simp: piece_ok_def makeFieldPiece_def Let_def rx_plain_def bslash_def)

lemma emit_ok:
  assumes "compiling_ok st" and "group_ok base"
  shows "compiling_ok (emit_field base role w x st)"
proof -
  have f: "compiling_ok (flushLiteral st)" by (rule flush_ok [OF assms(1)])
  define s1 where "s1 = flushLiteral st"
  define p where "p = (makeFieldPiece base role w (role = RMessage))\<lparr>p_name := x\<rparr>"
  have p: "piece_ok p" "p_isField p" "p_role p = role"
    using makeFieldPiece_ok [OF assms(2)] by (simp_all add: p_def makeFieldPiece_def Let_def)
  have nf: "number_fields 0 (c_pieces s1 @ [p]) =
      number_fields 0 (c_pieces s1) @ [\<lparr>f_role = role, f_name = (if p_name p = [] then fieldName role else p_name p),
        f_group = piece_count (c_pieces s1) + 1\<rparr>]"
    using p by (simp add: number_fields_append)
  have e: "emit_field base role w x st =
      set_group role (c_counter s1 + 1) (s1\<lparr>c_pieces := c_pieces s1 @ [p], c_counter := c_counter s1 + 1\<rparr>)"
    by (simp add: emit_field_def Let_def s1_def p_def)
  have "compiling_ok s1" using f by (simp add: s1_def)
  then show ?thesis
    unfolding e using p
    by (cases role) (simp_all add: compiling_ok_def Let_def set_group_def nf last_group_append piece_count_def)
qed

lemma date_spec_ok:
  assumes "compiling_ok st" and "date_spec j spec w rest st = Inr (st', n)"
  shows "compiling_ok st'"
  using assms emit_ok [OF assms(1) group_ok_frags]
  by (auto simp: date_spec_def Let_def compiling_ok_def split: option.splits sum.splits if_splits)

lemma simple_spec_ok: "simple_spec c = Some (base, role) \<Longrightarrow> group_ok base"
  by (auto simp: simple_spec_def group_ok_bases split: if_splits)

lemma brace_spec_ok: "brace_spec c = Some (base, role, label) \<Longrightarrow> group_ok base"
  by (auto simp: brace_spec_def group_ok_bases split: if_splits)

lemma literal_ok: "compiling_ok st \<Longrightarrow> compiling_ok (st\<lparr>c_literal := l\<rparr>)"
  by (simp add: compiling_ok_def)

lemma map_sum_Inr: "map_sum id f x = Inr y \<longleftrightarrow> (\<exists>z. x = Inr z \<and> y = f z)"
  by (cases x) auto

lemma map_sum_Inl: "map_sum id f x = Inl e \<longleftrightarrow> x = Inl e"
  by (cases x) auto

lemma conversion_ok:
  assumes "compiling_ok st" and "conversion i s st = Inr (st', n)"
  shows "compiling_ok st'"
  using assms
  by (auto simp: conversion_def Let_def literal_ok flush_ok emit_ok simple_spec_ok brace_spec_ok map_sum_Inr
      split: prod.splits list.splits if_splits option.splits sum.splits
      dest: date_spec_ok [OF assms(1)])


lemma compile_from_ok:
  "compiling_ok st \<Longrightarrow> compile_from i pat st = Inr st' \<Longrightarrow> compiling_ok st'"
proof (induction i pat st arbitrary: st' rule: compile_from.induct)
  case (1 i pat st)
  show ?case
  proof (cases pat)
    case Nil
    then show ?thesis using 1(3,4) by (subst (asm) compile_from.simps) (auto simp: flush_ok)
  next
    case (Cons c rest)
    show ?thesis
    proof (cases "c = CHR ''%''")
      case False
      then have "compile_from (i + 1) rest (st\<lparr>c_literal := c_literal st @ [c]\<rparr>) = Inr st'"
        using 1(4) Cons by (subst (asm) compile_from.simps) simp
      then show ?thesis using 1(1) [OF Cons False] literal_ok [OF 1(3)] by blast
    next
      case True
      then obtain s2 n where c: "conversion i rest st = Inr (s2, n)" and r: "compile_from (i + 1 + n) (drop n rest) s2 = Inr st'"
        using 1(4) Cons by (subst (asm) compile_from.simps) (auto split: sum.splits)
      then show ?thesis using 1(2) [OF Cons _ c refl] True conversion_ok [OF 1(3) c] by blast
    qed
  qed
qed

lemma start_ok: "compiling_ok compiling_start"
  by (simp add: compiling_ok_def compiling_start_def piece_count_def last_group_def Let_def)

lemma pieces_read:
  "\<forall>p \<in> set ps. piece_ok p \<Longrightarrow> rx_read (RxPlain, n) (concat (map p_regex ps)) = (RxPlain, n + piece_count ps)"
  by (induction ps arbitrary: n) (auto simp: piece_ok_def piece_count_def)

lemma fields_before_message:
  "\<forall>p \<in> set ps. piece_ok p \<Longrightarrow>
     piece_count (takeWhile (\<lambda>p. \<not> p_isMessage p) ps) = length (takeWhile (\<lambda>x. f_role x \<noteq> RMessage) (number_fields k ps))"
  by (induction ps arbitrary: k) (auto simp: piece_ok_def piece_count_def)

text \<open>C15: compile_numbers_fields. Whatever pattern compiles, group numbers are field numbers: the expression of a record
  captures exactly as many groups as there are fields, the fields are numbered in the order of the pattern, each
  role is remembered under the group of its last field and under -1 when the pattern has none, and the start
  expression is the front of the whole one, up to the message, and captures the fields in front of it.\<close>

theorem compile_numbers_fields:
  assumes "compile validRegex pat = Inr f"
  shows "captures (recordPattern f) = length (l_fields f)
         \<and> (\<forall>k < length (l_fields f). f_group (l_fields f ! k) = k + 1)
         \<and> l_dateGroup f = last_group RDate (l_fields f) \<and> l_prioGroup f = last_group RPriority (l_fields f)
         \<and> l_loggerGroup f = last_group RLogger (l_fields f) \<and> l_threadGroup f = last_group RThread (l_fields f)
         \<and> l_msgGroup f = last_group RMessage (l_fields f)
         \<and> captures (startPattern f) = length (takeWhile (\<lambda>x. f_role x \<noteq> RMessage) (l_fields f))
         \<and> (\<exists>rest. recordPattern f = startPattern f @ rest)"
proof -
  from assms obtain st where c: "compile_from 0 pat compiling_start = Inr st" and f: "f = format_of st"
    by (auto simp: compile_def Let_def split: if_splits sum.splits)
  have ok: "compiling_ok st" by (rule compile_from_ok [OF start_ok c])
  then have pk: "\<forall>p \<in> set (c_pieces st). piece_ok p" by (simp add: compiling_ok_def)
  then have tw: "\<forall>p \<in> set (takeWhile (\<lambda>p. \<not> p_isMessage p) (c_pieces st)). piece_ok p"
    by (auto dest: set_takeWhileD)
  have fs: "l_fields f = number_fields 0 (c_pieces st)" by (simp add: f format_of_def Let_def)
  have "captures (recordPattern f) = length (l_fields f)"
    using pieces_read [OF pk, of 0]
    by (simp add: fs number_fields_length) (simp add: f format_of_def Let_def captures_def rx_plain_def bslash_def)
  moreover have "captures (startPattern f) = length (takeWhile (\<lambda>x. f_role x \<noteq> RMessage) (l_fields f))"
    using pieces_read [OF tw, of 0] fields_before_message [OF pk, of 0]
    by (simp add: fs) (simp add: f format_of_def Let_def captures_def rx_plain_def bslash_def)
  moreover have "\<forall>k < length (l_fields f). f_group (l_fields f ! k) = k + 1"
    using number_fields_group [of _ "c_pieces st" 0] by (simp add: fs number_fields_length)
  moreover have "\<exists>rest. recordPattern f = startPattern f @ rest"
    by (rule exI [of _ "concat (map p_regex (dropWhile (\<lambda>p. \<not> p_isMessage p) (c_pieces st))) @ ''$''"])
      (simp add: f format_of_def Let_def takeWhile_dropWhile_id flip: append_assoc concat_append map_append)
  ultimately show ?thesis using ok by (simp add: fs compiling_ok_def Let_def f format_of_def)
qed

definition witness_pattern :: string where
  "witness_pattern = ''%D{%H:%M} [%5t] %p %X{id}(%c{2}) - %m%n''"

theorem compile_numbers_fields_witness:
  "\<exists>f. compile (\<lambda>re. True) witness_pattern = Inr f \<and> captures (recordPattern f) = 6 \<and> l_threadGroup f = 2
       \<and> map f_name (l_fields f) = [''Time'', ''Thread'', ''Priority'', ''MDC[id]'', ''Subsystem'', ''Message'']"
proof -
  obtain f where f: "compile (\<lambda>re. True) witness_pattern = Inr f" "map f_name (l_fields f) =
      [''Time'', ''Thread'', ''Priority'', ''MDC[id]'', ''Subsystem'', ''Message'']" "l_threadGroup f = 2"
  proof -
    have "(case compile (\<lambda>re. True) witness_pattern of Inl e \<Rightarrow> False
           | Inr f \<Rightarrow> map f_name (l_fields f) =
               [''Time'', ''Thread'', ''Priority'', ''MDC[id]'', ''Subsystem'', ''Message''] \<and> l_threadGroup f = 2)"
      by code_simp
    then show ?thesis using that by (auto split: sum.splits)
  qed
  have "length (l_fields f) = 6" using arg_cong [OF f(2), of length] by simp
  with compile_numbers_fields [OF f(1)] f show ?thesis by auto
qed

section \<open>Where an error points\<close>

lemma map_sum_Inl': "Inl e = map_sum id f x \<longleftrightarrow> x = Inl e"
  by (cases x) auto

definition stands_at :: "string \<Rightarrow> nat \<Rightarrow> char \<Rightarrow> bool" where
  "stands_at p k c \<longleftrightarrow> (\<exists>r. drop k p = c # r)"

definition error_points :: "string \<Rightarrow> nat \<Rightarrow> compile_error \<Rightarrow> bool" where
  "error_points p k e \<longleftrightarrow> e_offset e = int k \<and>
     (case e_code e of
        DanglingPercent \<Rightarrow> stands_at p k (CHR ''%'')
      | DanglingPercentInDate \<Rightarrow> stands_at p k (CHR ''%'')
      | UnsupportedDateCode \<Rightarrow> stands_at p k (CHR ''%'')
      | UnterminatedBrace \<Rightarrow> stands_at p k (CHR ''{'')
      | UnterminatedDateBrace \<Rightarrow> stands_at p k (CHR ''{'')
      | UnknownSpecifier \<Rightarrow> \<exists>c. stands_at p k c \<and> simple_spec c = None \<and> brace_spec c = None \<and> c \<notin> set ''%dDn''
      | _ \<Rightarrow> False)"

lemma expansion_translates: "\<exists>t. translate_from (expansionOf c) 0 b fol = Inr t"
proof -
  have "expansionOf c \<in> set [''%a %b %e %H:%M:%S %Y'', ''%m/%d/%y'', ''%Y-%m-%d'', ''%I:%M:%S %p'', ''%H:%M'', ''%H:%M:%S'', []]"
    by (simp add: expansionOf_def)
  then show ?thesis by (auto simp: translate_from.simps expansionOf_def date_code_def Let_def)
qed

lemma translate_error:
  assumes "translate_from fmt i b fol = Inl e"
  shows "\<exists>k c. drop k fmt = CHR ''%'' # c \<and> e_offset e = b + int (i + k) \<and> e_code e \<in> {DanglingPercentInDate, UnsupportedDateCode}"
  using assms
proof (induction "length fmt" arbitrary: fmt i rule: less_induct)
  case less
  have up: ?case if "drop n fmt = rest" "0 < n" "n \<le> length fmt" "translate_from rest (i + n) b fol = Inl e" for n rest
  proof -
    have "length rest < length fmt" using that(1-3) by (simp flip: that(1))
    from less.hyps [OF this that(4)] obtain k c where kc: "drop k rest = CHR ''%'' # c"
      "e_offset e = b + int (i + n + k)" "e_code e \<in> {DanglingPercentInDate, UnsupportedDateCode}" by blast
    have "drop (n + k) fmt = CHR ''%'' # c" using kc(1) unfolding that(1) [symmetric] by (simp add: add.commute)
    moreover have "e_offset e = b + int (i + (n + k))" using kc(2) by simp
    ultimately show ?thesis using kc(3) by blast
  qed
  have here: ?case if "fmt = CHR ''%'' # c" "e = error_at d (b + int i)" "d \<in> {DanglingPercentInDate, UnsupportedDateCode}" for c d
    using that by (auto simp: error_at_def intro!: exI [of _ 0])
  show ?case
  proof (cases fmt)
    case Nil
    then show ?thesis using less.prems by (simp add: translate_from.simps)
  next
    case (Cons c rest)
    show ?thesis
    proof (cases "c = CHR ''%''")
      case False
      then have "translate_from rest (i + 1) b fol = Inl e"
        using less.prems Cons by (subst (asm) translate_from.simps) (simp add: map_sum_Inl)
      then show ?thesis using up [of 1 rest] Cons by simp
    next
      case pc: True
      show ?thesis
      proof (cases rest)
        case Nil
        then have "e = error_at DanglingPercentInDate (b + int i)"
          using less.prems Cons pc by (subst (asm) translate_from.simps) simp
        then show ?thesis using here Cons pc by blast
      next
        case r: (Cons c' rest')
        define f' where "f' = (case rest' of [] \<Rightarrow> fol | d # _ \<Rightarrow> Some d)"
        have "translate_from fmt i b fol = (if expansionOf c' \<noteq> [] then
                          (case translate_from (expansionOf c') 0 (b + int i) f' of
                             Inl e \<Rightarrow> Inl e
                           | Inr t \<Rightarrow> map_sum id (followed_by (finished t)) (translate_from rest' (i + 2) b fol))
                        else (case date_code c' (f' = Some CHR ''.'') of
                                None \<Rightarrow> Inl (error_at UnsupportedDateCode (b + int i))
                              | Some t \<Rightarrow> map_sum id (followed_by t) (translate_from rest' (i + 2) b fol)))"
          unfolding f'_def using Cons pc r by (subst translate_from.simps) (simp add: Let_def)
        then consider "translate_from rest' (i + 2) b fol = Inl e" | "e = error_at UnsupportedDateCode (b + int i)"
          using less.prems expansion_translates [of c' "b + int i" f']
          by (auto simp: map_sum_Inl' split: if_splits option.splits)
        then show ?thesis
        proof cases
          case 1
          then show ?thesis using up [of 2 rest'] Cons r by simp
        next
          case 2
          then show ?thesis using here Cons pc by blast
        qed
      qed
    qed
  qed
qed

lemma stands_later: "drop n p = s \<Longrightarrow> drop m s = c # r \<Longrightarrow> stands_at p (n + m) c"
  unfolding stands_at_def by (intro exI [of _ r]) (metis add.commute drop_drop)

lemma stands_in_range: "stands_at p k c \<Longrightarrow> k < length p"
  by (auto simp: stands_at_def dest!: arg_cong [of _ _ length])

lemma brace_open: "scanBraceArg s = None \<Longrightarrow> \<exists>r. s = CHR ''{'' # r"
  by (cases s) (auto simp: scanBraceArg_def split: if_splits)

lemma brace_inside:
  assumes "scanBraceArg s = Some (a, n)" and "n \<noteq> 0" and "drop k a = c # r"
  shows "\<exists>r'. drop (1 + k) s = c # r'"
proof -
  have a: "a = takeWhile (\<lambda>c. c \<noteq> CHR ''}'') (drop 1 s)" using assms(1,2) by (auto simp: scanBraceArg_def Let_def split: if_splits)
  have "drop 1 s = a @ drop (length a) (drop 1 s)" unfolding a by (metis takeWhile_eq_take append_take_drop_id)
  then have "drop k (drop 1 s) = drop k a @ drop (k - length a) (drop (length a) (drop 1 s))" by (metis drop_append)
  then show ?thesis using assms(3) by simp
qed

lemma date_spec_error:
  assumes "date_spec j spec w rest st = Inl e" and "drop (j + 1) p = rest"
  shows "\<exists>k. error_points p k e"
proof (cases "scanBraceArg rest")
  case None
  then have "e = error_at UnterminatedDateBrace (int (j + 1))" using assms(1) by (simp add: date_spec_def)
  moreover obtain r where "rest = CHR ''{'' # r" using brace_open [OF None] by blast
  then have "stands_at p (j + 1 + 0) (CHR ''{'')" by (intro stands_later [OF assms(2)]) simp
  ultimately show ?thesis by (intro exI [of _ "j + 1"]) (simp add: error_points_def error_at_def)
next
  case (Some x)
  obtain a n where x: "scanBraceArg rest = Some (a, n)" using Some by (cases x) auto
  show ?thesis
  proof (cases "n = 0")
    case True
    have "\<exists>t. translate_from kDefaultDateFormat 0 (int j) None = Inr t"
      by (simp add: kDefaultDateFormat_def translate_from.simps expansionOf_def date_code_def Let_def)
    then show ?thesis using assms(1) x True by (auto simp: date_spec_def Let_def translateDateFormat_def)
  next
    case False
    then have "translate_from a 0 (int (j + 2)) None = Inl e"
      using assms(1) x by (auto simp: date_spec_def Let_def translateDateFormat_def map_sum_Inl split: sum.splits)
    from translate_error [OF this] obtain k c where k: "drop k a = CHR ''%'' # c" "e_offset e = int (j + 2) + int (0 + k)"
      "e_code e \<in> {DanglingPercentInDate, UnsupportedDateCode}" by blast
    obtain r where "drop (1 + k) rest = CHR ''%'' # r" using brace_inside [OF x False k(1)] by blast
    from stands_later [OF assms(2) this] have "stands_at p (j + 1 + (1 + k)) (CHR ''%'')" .
    then show ?thesis using k(2,3) by (intro exI [of _ "j + 2 + k"]) (auto simp: error_points_def)
  qed
qed

lemma conversion_error:
  assumes e: "conversion i s st = Inl e" and s: "drop (i + 1) p = s" and pc: "stands_at p i (CHR ''%'')"
  shows "\<exists>k. error_points p k e"
proof -
  obtain w m where m: "modifier s = (w, m)" by (cases "modifier s")
  show ?thesis
  proof (cases "s = [] \<or> drop m s = []")
    case True
    then have "e = error_at DanglingPercent (int i)" using e m by (cases "s = []") (auto simp: conversion_def Let_def)
    then show ?thesis using pc by (intro exI [of _ i]) (simp add: error_points_def error_at_def)
  next
    case False
    then obtain spec rest where sr: "drop m s = spec # rest" by (cases "drop m s") auto
    let ?j = "i + 1 + m"
    have here: "stands_at p ?j spec" by (rule stands_later [OF s sr])
    have "drop (m + (i + 1)) p = spec # rest" using s sr by (metis drop_drop)
    then have "drop (Suc (i + 1 + m)) p = rest" by (metis add.commute drop_Suc list.sel(3) tl_drop)
    then have after_spec: "drop (?j + 1) p = rest" by simp
    have un: "conversion i s st = (if spec = CHR ''%'' then Inr (st\<lparr>c_literal := c_literal st @ ''%''\<rparr>, m + 1)
        else if spec = CHR ''d'' \<or> spec = CHR ''D'' then map_sum id (\<lambda>(st', n). (st', m + 1 + n)) (date_spec ?j spec w rest st)
        else if spec = CHR ''n'' then Inr (flushLiteral st, m + 1)
        else (case simple_spec spec of
                Some (base, role) \<Rightarrow> Inr (emit_field base role w [] st, m + 1)
              | None \<Rightarrow> (case brace_spec spec of
                           None \<Rightarrow> Inl (error_at UnknownSpecifier (int ?j))
                         | Some (base, role, label) \<Rightarrow>
                             (case scanBraceArg rest of
                                None \<Rightarrow> Inl (error_at UnterminatedBrace (int (?j + 1)))
                              | Some (a, n) \<Rightarrow> Inr (emit_field base role w (shown_name label a) st, m + 1 + n)))))"
      using False by (simp only: conversion_def Let_def m prod.case sr list.case de_Morgan_disj if_False simp_thms)
    consider (date) "date_spec ?j spec w rest st = Inl e"
      | (unknown) "e = error_at UnknownSpecifier (int ?j)" "simple_spec spec = None" "brace_spec spec = None" "spec \<notin> set ''%dDn''"
      | (open_brace) "e = error_at UnterminatedBrace (int (?j + 1))" "scanBraceArg rest = None"
      using e unfolding un by (auto simp: map_sum_Inl split: if_splits option.splits prod.splits)
    then show ?thesis
    proof cases
      case date
      then show ?thesis using date_spec_error [OF _ after_spec] by blast
    next
      case unknown
      then show ?thesis using here by (intro exI [of _ ?j]) (auto simp: error_points_def error_at_def)
    next
      case open_brace
      obtain r where "rest = CHR ''{'' # r" using brace_open [OF open_brace(2)] by blast
      then have "stands_at p (?j + 1 + 0) (CHR ''{'')" by (intro stands_later [OF after_spec]) simp
      then show ?thesis using open_brace(1) by (intro exI [of _ "?j + 1"]) (simp add: error_points_def error_at_def)
    qed
  qed
qed

lemma compile_from_error:
  "compile_from i pat st = Inl e \<Longrightarrow> drop i p = pat \<Longrightarrow> \<exists>k. error_points p k e"
proof (induction "length pat" arbitrary: i pat st rule: less_induct)
  case less
  show ?case
  proof (cases pat)
    case Nil
    then show ?thesis using less.prems(1) by (simp add: compile_from.simps)
  next
    case (Cons c rest)
    have d: "drop (i + 1) p = rest" using less.prems(2) Cons by (metis Suc_eq_plus1 drop_Suc list.sel(3) tl_drop)
    show ?thesis
    proof (cases "c = CHR ''%''")
      case False
      then have "compile_from (i + 1) rest (st\<lparr>c_literal := c_literal st @ [c]\<rparr>) = Inl e"
        using less.prems(1) Cons by (subst (asm) compile_from.simps) simp
      then show ?thesis using less.hyps [OF _ _ d] Cons by simp
    next
      case True
      then have pc: "stands_at p i (CHR ''%'')" using less.prems(2) Cons by (auto simp: stands_at_def)
      show ?thesis
      proof (cases "conversion i rest st")
        case (Inl e')
        then have "e' = e" using less.prems(1) Cons True by (subst (asm) compile_from.simps) simp
        then show ?thesis using conversion_error [OF Inl d pc] by simp
      next
        case (Inr x)
        obtain st' n where x: "x = (st', n)" by (cases x)
        then have "compile_from (i + 1 + n) (drop n rest) st' = Inl e"
          using less.prems(1) Cons True Inr by (subst (asm) compile_from.simps) simp
        moreover have "drop (i + 1 + n) p = drop n rest" using d by (metis add.commute drop_drop)
        ultimately show ?thesis using less.hyps [of "drop n rest"] Cons by simp
      qed
    qed
  qed
qed

text \<open>C16: compile_error_points. A pattern that does not compile is answered with the place of the fault: unless it is
  empty, or the library refuses the expression that was built, the offset of the error is a position of the
  pattern, and what stands there is what the error speaks of: the percent sign that is left alone or starts an
  unsupported date code, also inside braces, the brace that is never closed, or the unknown letter itself.\<close>

theorem compile_error_points:
  assumes "compile validRegex pat = Inl e"
  shows "pat = [] \<and> e = error_at EmptyPattern 0 \<or> e = error_at InvalidRegex (- 1)
         \<or> (\<exists>k < length pat. error_points pat k e)"
proof -
  have "k < length pat" if "error_points pat k e" for k
    using that stands_in_range by (auto simp: error_points_def split: error_code.splits)
  then show ?thesis
    using assms compile_from_error [of 0 pat compiling_start e pat]
    by (auto simp: compile_def Let_def split: if_splits sum.splits)
qed

theorem compile_error_points_witness:
  "compile (\<lambda>re. True) ''%p %D{%H:%E} %m'' = Inl (error_at UnsupportedDateCode 9)
   \<and> (\<exists>k < length ''%p %D{%H:%E} %m''. error_points ''%p %D{%H:%E} %m'' k (error_at UnsupportedDateCode 9))"
proof -
  have c: "compile (\<lambda>re. True) ''%p %D{%H:%E} %m'' = Inl (error_at UnsupportedDateCode 9)" by code_simp
  from compile_error_points [OF c] show ?thesis using c by (auto simp: error_at_def)
qed

end
