(* ===== verification/Timestamps.thy ===== *)
theory Timestamps
  imports Patterns Records
begin

text \<open>
  \<open>src/core/TimestampParser\<close>: from the text of a date field to milliseconds since the epoch, driven by the tokens
  the pattern compiler emitted. The calendar, the zones, the clock and the names of the system's months are
  parameters.
\<close>

section \<open>The parser\<close>

text \<open>
  \<open>atTime\<close> is the instant of a date and a time in a zone, \<open>None\<close> where the date or the combination is invalid;
  \<open>fromString\<close> the library's own reader of a text by a format, in a zone.
\<close>

record 'z calendar =
  atTime :: "'z \<Rightarrow> int \<Rightarrow> int \<Rightarrow> int \<Rightarrow> int \<Rightarrow> int \<Rightarrow> int \<Rightarrow> int \<Rightarrow> int option"
  offsetZone :: "int \<Rightarrow> 'z"
  fromString :: "string \<Rightarrow> string \<Rightarrow> 'z \<Rightarrow> int option"
  toLower :: "string \<Rightarrow> string"
  systemMonths :: "(string \<times> string) list"
  currentYear :: int
  currentMs :: int

definition kFutureGraceMs :: int where
  "kFutureGraceMs = 24 * 60 * 60 * 1000"

definition kEnglishShortMonths :: "string list" where
  "kEnglishShortMonths = [''jan'', ''feb'', ''mar'', ''apr'', ''may'', ''jun'', ''jul'', ''aug'', ''sep'', ''oct'', ''nov'', ''dec'']"

definition kEnglishLongMonths :: "string list" where
  "kEnglishLongMonths = [''january'', ''february'', ''march'', ''april'', ''may'', ''june'',
     ''july'', ''august'', ''september'', ''october'', ''november'', ''december'']"

record 'z timestamp_parser =
  m_tokens :: "date_token list"
  m_zone :: 'z
  m_qtFormat :: string
  m_months :: "string \<Rightarrow> int option"
  m_valid :: bool
  m_inferYear :: bool
  m_assumedYear :: int
  m_futureCutoffMs :: int

text \<open>Month names, a later insertion over an earlier one: English first, then the system's.\<close>

fun insert_months :: "(string \<times> string) list \<Rightarrow> int \<Rightarrow> (string \<Rightarrow> int option) \<Rightarrow> string \<Rightarrow> int option" where
  "insert_months [] k m = m"
| "insert_months ((a, b) # ns) k m = insert_months ns (k + 1) (m(a \<mapsto> k, b \<mapsto> k))"

definition has_kind :: "date_token_kind list \<Rightarrow> date_token list \<Rightarrow> bool" where
  "has_kind ks ts \<longleftrightarrow> list_ex (\<lambda>t. t_kind t \<in> set ks) ts"

definition make_parser :: "'z calendar \<Rightarrow> date_token list \<Rightarrow> string \<Rightarrow> 'z \<Rightarrow> 'z timestamp_parser" where
  "make_parser cal tokens qtFormat sourceZone =
     (let p = \<lparr>m_tokens = tokens, m_zone = sourceZone, m_qtFormat = qtFormat, m_months = Map.empty, m_valid = False,
                m_inferYear = False, m_assumedYear = 1970, m_futureCutoffMs = 0\<rparr>
      in if tokens = [] \<and> qtFormat = [] then p
         else (let hasYear = has_kind [TYear4, TYear2, TEpochSeconds] tokens;
                   hasMonth = has_kind [TMonthNumber, TMonthName] tokens;
                   hasDay = has_kind [TDay] tokens;
                   hasNames = has_kind [TMonthName, TSkipWord] tokens;
                   months = (if hasNames
                     then insert_months (map (\<lambda>(a, b). (toLower cal a, toLower cal b)) (systemMonths cal)) 1
                            (insert_months (zip kEnglishShortMonths kEnglishLongMonths) 1 Map.empty)
                     else Map.empty);
                   infer = (\<not> hasYear \<and> hasMonth \<and> hasDay)
               in p\<lparr>m_valid := True, m_months := months, m_inferYear := infer,
                    m_assumedYear := (if infer then currentYear cal else 1970),
                    m_futureCutoffMs := (if infer then currentMs cal + kFutureGraceMs else 0)\<rparr>))"

section \<open>Reading tokens\<close>

record reading =
  r_year :: int
  r_month :: int
  r_day :: int
  r_hour :: int
  r_minute :: int
  r_second :: int
  r_millis :: int
  r_pm :: bool
  r_hour12 :: bool
  r_sawEpoch :: bool
  r_epoch :: int
  r_sawOffset :: bool
  r_offset :: int

definition decimal :: "string \<Rightarrow> int" where
  "decimal ds = foldl (\<lambda>v c. v * 10 + (int (code c) - 48)) 0 ds"

text \<open>\<open>readInt\<close> and \<open>readWord\<close>: what was read and the text behind it.\<close>

definition readInt :: "nat \<Rightarrow> string \<Rightarrow> (int \<times> string) option" where
  "readInt maxWidth text =
     (let s = dropWhile (\<lambda>c. c = CHR '' '') text; ds = take maxWidth (takeWhile isDigit s)
      in if ds = [] then None else Some (decimal ds, drop (length ds) s))"

definition readWord :: "date_token \<Rightarrow> string \<Rightarrow> string \<times> string" where
  "readWord tok text =
     (let w = takeWhile isLetter text; s = dropWhile isLetter text
      in (w, if \<not> t_dot tok \<and> s \<noteq> [] \<and> hd s = CHR ''.'' then drop 1 s else s))"

definition upper :: "char \<Rightarrow> char" where
  "upper c = (if 97 \<le> code c \<and> code c \<le> 122 then char_of (code c - 32) else c)"

definition read_offset :: "string \<Rightarrow> reading \<Rightarrow> (string \<times> reading) option" where
  "read_offset text r =
     (case text of
        [] \<Rightarrow> None
      | c # cs \<Rightarrow>
          if c = CHR ''Z'' \<or> c = CHR ''z'' then Some (cs, r\<lparr>r_sawOffset := True, r_offset := 0\<rparr>)
          else if c \<noteq> CHR ''-'' \<and> c \<noteq> CHR ''+'' then None
          else (case readInt 2 cs of
                  None \<Rightarrow> None
                | Some (oh, s1) \<Rightarrow>
                    (let s2 = (if s1 \<noteq> [] \<and> hd s1 = CHR '':'' then drop 1 s1 else s1)
                     in case readInt 2 s2 of
                          None \<Rightarrow> None
                        | Some (om, s3) \<Rightarrow>
                            Some (s3, r\<lparr>r_sawOffset := True,
                                        r_offset := (oh * 3600 + om * 60) * (if c = CHR ''-'' then - 1 else 1)\<rparr>))))"

definition read_frac :: "string \<Rightarrow> reading \<Rightarrow> (string \<times> reading) option" where
  "read_frac text r =
     (case readInt 3 text of
        None \<Rightarrow> None
      | Some (v, s) \<Rightarrow>
          (let s1 = (if s \<noteq> [] \<and> hd s = CHR ''.'' then drop 1 s else s)
           in if s1 \<noteq> [] \<and> isDigit (hd s1)
              then map_option (\<lambda>(_, s2). (s2, r\<lparr>r_millis := v\<rparr>)) (readInt 6 s1)
              else Some (s1, r\<lparr>r_millis := v\<rparr>)))"

definition read_am_pm :: "date_token \<Rightarrow> string \<Rightarrow> reading \<Rightarrow> (string \<times> reading) option" where
  "read_am_pm tok text r =
     (let (w, s) = readWord tok text
      in if length w \<noteq> 2 then None
         else (let first = upper (w ! 0)
               in if upper (w ! 1) \<noteq> CHR ''M'' \<or> first \<noteq> CHR ''A'' \<and> first \<noteq> CHR ''P'' then None
                  else Some (s, r\<lparr>r_pm := (first = CHR ''P'')\<rparr>)))"

definition read_literal :: "char \<Rightarrow> string \<Rightarrow> reading \<Rightarrow> (string \<times> reading) option" where
  "read_literal c text r =
     (if c = CHR '' '' then
        (if text = [] \<or> \<not> isSpace (hd text) then None else Some (dropWhile isSpace text, r))
      else if text = [] \<or> hd text \<noteq> c then None else Some (drop 1 text, r))"

definition read_token :: "'z calendar \<Rightarrow> (string \<Rightarrow> int option) \<Rightarrow> date_token \<Rightarrow> string \<Rightarrow> reading \<Rightarrow> (string \<times> reading) option" where
  "read_token cal months tok text r =
     (let int_to = (\<lambda>w f. map_option (\<lambda>(v, s). (s, f v)) (readInt w text))
      in case t_kind tok of
           TYear4 \<Rightarrow> int_to 4 (\<lambda>v. r\<lparr>r_year := v\<rparr>)
         | TYear2 \<Rightarrow> int_to 2 (\<lambda>v. r\<lparr>r_year := v + (if v < 70 then 2000 else 1900)\<rparr>)
         | TMonthNumber \<Rightarrow> int_to 2 (\<lambda>v. r\<lparr>r_month := v\<rparr>)
         | TMonthName \<Rightarrow> (let (w, s) = readWord tok text
                         in if w = [] then None else map_option (\<lambda>m. (s, r\<lparr>r_month := m\<rparr>)) (months (toLower cal w)))
         | TDay \<Rightarrow> int_to 2 (\<lambda>v. r\<lparr>r_day := v\<rparr>)
         | THour24 \<Rightarrow> int_to 2 (\<lambda>v. r\<lparr>r_hour := v\<rparr>)
         | THour12 \<Rightarrow> int_to 2 (\<lambda>v. r\<lparr>r_hour := v, r_hour12 := True\<rparr>)
         | TMinute \<Rightarrow> int_to 2 (\<lambda>v. r\<lparr>r_minute := v\<rparr>)
         | TSecond \<Rightarrow> int_to 2 (\<lambda>v. r\<lparr>r_second := v\<rparr>)
         | TMillis \<Rightarrow> int_to 3 (\<lambda>v. r\<lparr>r_millis := v\<rparr>)
         | TMillisFrac \<Rightarrow> read_frac text r
         | TAmPm \<Rightarrow> read_am_pm tok text r
         | TEpochSeconds \<Rightarrow> int_to (t_width tok) (\<lambda>v. r\<lparr>r_epoch := v, r_sawEpoch := True\<rparr>)
         | TUtcOffset \<Rightarrow> read_offset text r
         | TSkipDigits \<Rightarrow> int_to (t_width tok) (\<lambda>v. r)
         | TSkipWord \<Rightarrow> (let (w, s) = readWord tok text in if w = [] then None else Some (s, r))
         | TLiteral \<Rightarrow> read_literal (t_literal tok) text r)"

fun read_tokens :: "'z calendar \<Rightarrow> (string \<Rightarrow> int option) \<Rightarrow> date_token list \<Rightarrow> string \<Rightarrow> reading \<Rightarrow> (string \<times> reading) option" where
  "read_tokens cal months [] text r = Some (text, r)"
| "read_tokens cal months (tok # toks) text r =
     (case read_token cal months tok text r of
        None \<Rightarrow> None | Some (s, r') \<Rightarrow> read_tokens cal months toks s r')"

section \<open>The instant\<close>

definition valid_time :: "int \<Rightarrow> int \<Rightarrow> int \<Rightarrow> int \<Rightarrow> bool" where
  "valid_time h mi s ms \<longleftrightarrow> 0 \<le> h \<and> h < 24 \<and> 0 \<le> mi \<and> mi < 60 \<and> 0 \<le> s \<and> s < 60 \<and> 0 \<le> ms \<and> ms < 1000"

definition or_none :: "int option \<Rightarrow> int" where
  "or_none x = (case x of Some ms \<Rightarrow> ms | None \<Rightarrow> kNoTimestamp)"

definition hour_of :: "reading \<Rightarrow> int" where
  "hour_of r = (if r_hour12 r then (if r_hour r = 12 then 0 else r_hour r) + (if r_pm r then 12 else 0) else r_hour r)"

definition instant :: "'z calendar \<Rightarrow> 'z timestamp_parser \<Rightarrow> reading \<Rightarrow> int" where
  "instant cal p r =
     (if r_sawEpoch r then r_epoch r * 1000 + r_millis r
      else if \<not> valid_time (hour_of r) (r_minute r) (r_second r) (r_millis r) then kNoTimestamp
      else (let zone = (if r_sawOffset r then offsetZone cal (r_offset r) else m_zone p);
                instantAt = (\<lambda>y. or_none (atTime cal zone y (r_month r) (r_day r) (hour_of r) (r_minute r) (r_second r) (r_millis r)));
                ms = instantAt (r_year r)
            in if m_inferYear p \<and> (ms = kNoTimestamp \<or> m_futureCutoffMs p < ms)
               then (let previous = instantAt (r_year r - 1) in if previous \<noteq> kNoTimestamp then previous else ms)
               else ms))"

definition reading_start :: "'z timestamp_parser \<Rightarrow> reading" where
  "reading_start p = \<lparr>r_year = (if m_inferYear p then m_assumedYear p else 1970), r_month = 1, r_day = 1, r_hour = 0,
     r_minute = 0, r_second = 0, r_millis = 0, r_pm = False, r_hour12 = False, r_sawEpoch = False, r_epoch = 0,
     r_sawOffset = False, r_offset = 0\<rparr>"

definition parse_time :: "'z calendar \<Rightarrow> 'z timestamp_parser \<Rightarrow> string \<Rightarrow> int" where
  "parse_time cal p text =
     (if \<not> m_valid p then kNoTimestamp
      else if m_tokens p = [] then or_none (fromString cal text (m_qtFormat p) (m_zone p))
      else (case read_tokens cal (m_months p) (m_tokens p) text (reading_start p) of
              None \<Rightarrow> kNoTimestamp | Some (_, r) \<Rightarrow> instant cal p r))"

section \<open>What a writer puts\<close>

text \<open>
  The texts a log may carry for a token at a moment, as the writer \<open>strftime\<close> and the log library spell them: numbers
  padded with zeroes or spaces, names with or without a final dot, an offset with or without a colon. \<open>stops\<close> says
  that the text behind a token's is not taken for more of it.
\<close>

record moment =
  mo_year :: int
  mo_month :: int
  mo_day :: int
  mo_hour :: int
  mo_minute :: int
  mo_second :: int
  mo_millis :: int
  mo_offset :: int

definition unpadded :: "string \<Rightarrow> string" where
  "unpadded t = dropWhile (\<lambda>c. c = CHR '' '') t"

definition numeral_text :: "nat \<Rightarrow> int \<Rightarrow> string \<Rightarrow> bool" where
  "numeral_text w v t \<longleftrightarrow>
     unpadded t \<noteq> [] \<and> list_all isDigit (unpadded t) \<and> length (unpadded t) \<le> w \<and> decimal (unpadded t) = v"

definition no_digit :: "string \<Rightarrow> bool" where
  "no_digit rest \<longleftrightarrow> rest = [] \<or> \<not> isDigit (hd rest)"

definition number_stops :: "nat \<Rightarrow> string \<Rightarrow> string \<Rightarrow> bool" where
  "number_stops w t rest \<longleftrightarrow> length (unpadded t) = w \<or> no_digit rest"

definition word_text :: "date_token \<Rightarrow> string \<Rightarrow> string \<Rightarrow> bool" where
  "word_text tok w t \<longleftrightarrow> w \<noteq> [] \<and> list_all isLetter w \<and> (t = w \<or> t = w @ ''.'' \<and> \<not> t_dot tok)"

definition word_stops :: "date_token \<Rightarrow> string \<Rightarrow> string \<Rightarrow> bool" where
  "word_stops tok t rest \<longleftrightarrow>
     (List.last t = CHR ''.'' \<or> rest = [] \<or> \<not> isLetter (hd rest) \<and> (t_dot tok \<or> hd rest \<noteq> CHR ''.''))"

definition frac_text :: "int \<Rightarrow> string \<Rightarrow> bool" where
  "frac_text v t \<longleftrightarrow>
     (let ds = takeWhile isDigit t; f = dropWhile isDigit t
      in 3 \<le> length ds \<and> decimal (take 3 ds) = v
         \<and> (f = [] \<and> length ds \<le> 9
            \<or> length ds = 3 \<and> hd f = CHR ''.'' \<and> drop 1 f \<noteq> [] \<and> length f \<le> 7 \<and> list_all isDigit (drop 1 f)))"

definition frac_stops :: "string \<Rightarrow> string \<Rightarrow> bool" where
  "frac_stops t rest \<longleftrightarrow> no_digit rest \<and> (length t = 3 \<longrightarrow> rest = [] \<or> hd rest \<noteq> CHR ''.'')"

definition two_digits :: "int \<Rightarrow> string \<Rightarrow> bool" where
  "two_digits v t \<longleftrightarrow> length t = 2 \<and> list_all isDigit t \<and> decimal t = v"

definition offset_text :: "int \<Rightarrow> string \<Rightarrow> bool" where
  "offset_text off t \<longleftrightarrow>
     t = ''Z'' \<and> off = 0
     \<or> (\<exists>s hh mm oh om. (t = s # hh @ mm \<or> t = s # hh @ CHR '':'' # mm) \<and> two_digits oh hh \<and> two_digits om mm
          \<and> (s = CHR ''+'' \<and> off = oh * 3600 + om * 60 \<or> s = CHR ''-'' \<and> off = - (oh * 3600 + om * 60)))"

definition spelled :: "'z calendar \<Rightarrow> (string \<Rightarrow> int option) \<Rightarrow> moment \<Rightarrow> date_token \<Rightarrow> string \<Rightarrow> bool" where
  "spelled cal months m tok t \<longleftrightarrow>
     (case t_kind tok of
        TYear4 \<Rightarrow> numeral_text 4 (mo_year m) t
      | TYear2 \<Rightarrow> numeral_text 2 (mo_year m mod 100) t \<and> 1970 \<le> mo_year m \<and> mo_year m < 2070
      | TMonthNumber \<Rightarrow> numeral_text 2 (mo_month m) t
      | TMonthName \<Rightarrow> (\<exists>w. word_text tok w t \<and> months (toLower cal w) = Some (mo_month m))
      | TDay \<Rightarrow> numeral_text 2 (mo_day m) t
      | THour24 \<Rightarrow> numeral_text 2 (mo_hour m) t
      | THour12 \<Rightarrow> numeral_text 2 ((mo_hour m + 11) mod 12 + 1) t
      | TMinute \<Rightarrow> numeral_text 2 (mo_minute m) t
      | TSecond \<Rightarrow> numeral_text 2 (mo_second m) t
      | TMillis \<Rightarrow> numeral_text 3 (mo_millis m) t
      | TMillisFrac \<Rightarrow> frac_text (mo_millis m) t
      | TAmPm \<Rightarrow> t \<in> (if 12 \<le> mo_hour m then {''PM'', ''pm''} else {''AM'', ''am''})
      | TEpochSeconds \<Rightarrow> False
      | TUtcOffset \<Rightarrow> offset_text (mo_offset m) t
      | TSkipDigits \<Rightarrow> (\<exists>v. numeral_text (t_width tok) v t)
      | TSkipWord \<Rightarrow> (\<exists>w. word_text tok w t)
      | TLiteral \<Rightarrow> t = [t_literal tok])"

definition stops :: "date_token \<Rightarrow> string \<Rightarrow> string \<Rightarrow> bool" where
  "stops tok t rest \<longleftrightarrow>
     (case t_kind tok of
        TYear4 \<Rightarrow> number_stops 4 t rest
      | TMillis \<Rightarrow> number_stops 3 t rest
      | TSkipDigits \<Rightarrow> number_stops (t_width tok) t rest
      | TMillisFrac \<Rightarrow> frac_stops t rest
      | TMonthName \<Rightarrow> word_stops tok t rest
      | TSkipWord \<Rightarrow> word_stops tok t rest
      | TAmPm \<Rightarrow> word_stops tok t rest
      | TUtcOffset \<Rightarrow> True
      | TEpochSeconds \<Rightarrow> False
      | TLiteral \<Rightarrow> t_literal tok = CHR '' '' \<longrightarrow> rest = [] \<or> \<not> isSpace (hd rest)
      | _ \<Rightarrow> number_stops 2 t rest)"

fun written :: "'z calendar \<Rightarrow> (string \<Rightarrow> int option) \<Rightarrow> moment \<Rightarrow> date_token list \<Rightarrow> string list \<Rightarrow> bool" where
  "written cal months m [] [] = True"
| "written cal months m (tok # toks) (t # ts) =
     (spelled cal months m tok t \<and> stops tok t (concat ts) \<and> written cal months m toks ts)"
| "written cal months m _ _ = False"

text \<open>What reading a token records of the moment.\<close>

definition record_token :: "moment \<Rightarrow> date_token \<Rightarrow> reading \<Rightarrow> reading" where
  "record_token m tok r =
     (case t_kind tok of
        TYear4 \<Rightarrow> r\<lparr>r_year := mo_year m\<rparr> | TYear2 \<Rightarrow> r\<lparr>r_year := mo_year m\<rparr>
      | TMonthNumber \<Rightarrow> r\<lparr>r_month := mo_month m\<rparr> | TMonthName \<Rightarrow> r\<lparr>r_month := mo_month m\<rparr>
      | TDay \<Rightarrow> r\<lparr>r_day := mo_day m\<rparr> | THour24 \<Rightarrow> r\<lparr>r_hour := mo_hour m\<rparr>
      | THour12 \<Rightarrow> r\<lparr>r_hour := (mo_hour m + 11) mod 12 + 1, r_hour12 := True\<rparr>
      | TMinute \<Rightarrow> r\<lparr>r_minute := mo_minute m\<rparr> | TSecond \<Rightarrow> r\<lparr>r_second := mo_second m\<rparr>
      | TMillis \<Rightarrow> r\<lparr>r_millis := mo_millis m\<rparr> | TMillisFrac \<Rightarrow> r\<lparr>r_millis := mo_millis m\<rparr>
      | TAmPm \<Rightarrow> r\<lparr>r_pm := (12 \<le> mo_hour m)\<rparr>
      | TUtcOffset \<Rightarrow> r\<lparr>r_sawOffset := True, r_offset := mo_offset m\<rparr>
      | _ \<Rightarrow> r)"

section \<open>Reading what was written\<close>

lemma digit_facts: "isDigit c \<Longrightarrow> c \<noteq> CHR '' '' \<and> c \<noteq> CHR ''.'' \<and> c \<noteq> CHR '':''"
proof -
  have "\<not> isDigit (CHR '' '')" "\<not> isDigit (CHR ''.'')" "\<not> isDigit (CHR '':'')" by (simp_all add: isDigit_def code_def)
  moreover assume "isDigit c"
  ultimately show ?thesis by metis
qed

lemma unpadded_append: "unpadded t \<noteq> [] \<Longrightarrow> unpadded (t @ rest) = unpadded t @ rest"
  unfolding unpadded_def dropWhile_append by auto

lemma takeWhile_stop: "list_all P ds \<Longrightarrow> rest = [] \<or> \<not> P (hd rest) \<Longrightarrow> takeWhile P (ds @ rest) = ds"
proof (induction ds)
  case Nil
  then show ?case by (cases rest) auto
qed auto

lemma dropWhile_stop: "list_all P ds \<Longrightarrow> rest = [] \<or> \<not> P (hd rest) \<Longrightarrow> dropWhile P (ds @ rest) = rest"
proof (induction ds)
  case Nil
  then show ?case by (cases rest) auto
qed auto

lemma readInt_numeral:
  assumes "numeral_text w v t" and "number_stops w t rest"
  shows "readInt w (t @ rest) = Some (v, rest)"
proof -
  define ds where "ds = unpadded t"
  have d: "ds \<noteq> []" "list_all isDigit ds" "length ds \<le> w" "decimal ds = v"
    using assms(1) by (simp_all add: numeral_text_def ds_def)
  have s: "dropWhile (\<lambda>c. c = CHR '' '') (t @ rest) = ds @ rest"
    using unpadded_append [of t rest] d(1) by (simp add: unpadded_def ds_def)
  have k: "take w (takeWhile isDigit (ds @ rest)) = ds"
  proof (cases "length ds = w")
    case True
    then show ?thesis using d(2) by (simp add: takeWhile_append2 list_all_iff)
  next
    case False
    then have "takeWhile isDigit (ds @ rest) = ds"
      using assms(2) takeWhile_stop [OF d(2)] by (simp add: number_stops_def no_digit_def ds_def)
    then show ?thesis using d(3) by simp
  qed
  show ?thesis unfolding readInt_def Let_def s k using d(1,4) by simp
qed

lemma dot_no_letter: "\<not> isLetter (CHR ''.'')"
  by (simp add: isLetter_def code_def)

lemma readWord_text:
  assumes "word_text tok w t" and "word_stops tok t rest"
  shows "readWord tok (t @ rest) = (w, rest)"
proof (cases "t = w")
  case True
  have l: "w \<noteq> []" "list_all isLetter w" using assms(1) by (simp_all add: word_text_def)
  then have "List.last w \<noteq> CHR ''.''" using dot_no_letter by (metis last_in_set list_all_iff)
  then have r: "rest = [] \<or> \<not> isLetter (hd rest) \<and> (t_dot tok \<or> hd rest \<noteq> CHR ''.'')"
    using assms(2) True by (simp add: word_stops_def)
  then have "takeWhile isLetter (t @ rest) = w" "dropWhile isLetter (t @ rest) = rest"
    using takeWhile_stop [OF l(2)] dropWhile_stop [OF l(2)] True by auto
  then show ?thesis using r by (auto simp: readWord_def)
next
  case False
  then have t: "t = w @ ''.''" "\<not> t_dot tok" "list_all isLetter w" using assms(1) by (auto simp: word_text_def)
  have "takeWhile isLetter (w @ ''.'' @ rest) = w" "dropWhile isLetter (w @ ''.'' @ rest) = ''.'' @ rest"
    using takeWhile_stop [OF t(3), of "''.'' @ rest"] dropWhile_stop [OF t(3), of "''.'' @ rest"] dot_no_letter by simp_all
  then show ?thesis using t(1,2) by (simp add: readWord_def)
qed

lemma two_digits_read: "two_digits v t \<Longrightarrow> readInt 2 (t @ rest) = Some (v, rest)"
proof -
  assume a: "two_digits v t"
  then have "unpadded t = t" using digit_facts by (cases t) (auto simp: two_digits_def unpadded_def)
  then show ?thesis using a by (intro readInt_numeral) (auto simp: numeral_text_def number_stops_def two_digits_def)
qed

lemma frac_read:
  assumes "frac_text v t" and "frac_stops t rest"
  shows "read_frac (t @ rest) r = Some (rest, r\<lparr>r_millis := v\<rparr>)"
proof -
  define ds f where "ds = takeWhile isDigit t" and "f = dropWhile isDigit t"
  have t: "t = ds @ f" by (simp add: ds_def f_def)
  have d1: "list_all isDigit ds" unfolding ds_def list_all_iff by (blast dest: set_takeWhileD)
  have d2: "3 \<le> length ds" "decimal (take 3 ds) = v"
    using assms(1) unfolding frac_text_def Let_def ds_def [symmetric] by blast+
  note d = d1 d2
  obtain a b where ab: "ds = a @ b" "length a = 3" using d(2) by (metis append_take_drop_id length_take min.absorb2)
  then have a: "list_all isDigit a" "list_all isDigit b" "decimal a = v" using d by (auto simp: list_all_iff)
  have ua: "unpadded a = a" using a(1) ab(2) digit_facts by (cases a) (auto simp: unpadded_def)
  have r3: "readInt 3 (a @ x) = Some (v, x)" for x
    using a ab(2) ua by (intro readInt_numeral) (auto simp: numeral_text_def number_stops_def)
  have rest: "no_digit rest" using assms(2) by (simp add: frac_stops_def)
  have r6: "readInt 6 (x @ rest) = Some (decimal x, rest)" if "list_all isDigit x" "x \<noteq> []" "length x \<le> 6" for x
  proof -
    have "unpadded x = x" using that(1,2) digit_facts by (cases x) (auto simp: unpadded_def)
    then show ?thesis using that rest by (intro readInt_numeral) (auto simp: numeral_text_def number_stops_def)
  qed
  consider (none) "b = []" "f = []" | (run) "b \<noteq> []" "f = []" "length b \<le> 6"
    | (dot) "b = []" "f = CHR ''.'' # drop 1 f" "drop 1 f \<noteq> []" "length (drop 1 f) \<le> 6" "list_all isDigit (drop 1 f)"
  proof -
    have "f = [] \<and> length ds \<le> 9 \<or> length ds = 3 \<and> hd f = CHR ''.'' \<and> drop 1 f \<noteq> [] \<and> length f \<le> 7 \<and> list_all isDigit (drop 1 f)"
      using assms(1) unfolding frac_text_def Let_def ds_def f_def by blast
    then show ?thesis
    proof
      assume e: "f = [] \<and> length ds \<le> 9"
      then have "length b \<le> 6" using ab by simp
      then show ?thesis using none run e by blast
    next
      assume e: "length ds = 3 \<and> hd f = CHR ''.'' \<and> drop 1 f \<noteq> [] \<and> length f \<le> 7 \<and> list_all isDigit (drop 1 f)"
      then have "b = []" using ab by simp
      moreover have "f = CHR ''.'' # drop 1 f" using e by (cases f) auto
      moreover have "length f \<le> 7" using e by blast
      then have "length (drop 1 f) \<le> 6" by simp
      ultimately show ?thesis using dot e by blast
    qed
  qed
  then show ?thesis
  proof cases
    case none
    then have "rest = [] \<or> hd rest \<noteq> CHR ''.''" using assms(2) ab t by (simp add: frac_stops_def)
    then show ?thesis using none t ab r3 rest by (auto simp: read_frac_def Let_def no_digit_def)
  next
    case run
    obtain c cs where c: "b = c # cs" using run(1) by (cases b) auto
    then have "isDigit c" "c \<noteq> CHR ''.''" using a(2) digit_facts by auto
    then show ?thesis using run t ab r3 [of "b @ rest"] r6 [OF a(2) run(1,3)] c by (simp add: read_frac_def Let_def)
  next
    case dot
    obtain c cs where c: "drop 1 f = c # cs" using dot(3) by (cases "drop 1 f") auto
    then have "isDigit c" using dot(5) by simp
    then show ?thesis
      using dot(1,2) t ab r3 [of "f @ rest"] r6 [OF dot(5,3,4)] c by (simp add: read_frac_def Let_def)
  qed
qed

lemma offset_read:
  assumes "offset_text off t"
  shows "read_offset (t @ rest) r = Some (rest, r\<lparr>r_sawOffset := True, r_offset := off\<rparr>)"
proof -
  consider (z) "t = ''Z''" "off = 0"
    | (sgn) s hh mm oh om where "t = s # hh @ mm \<or> t = s # hh @ CHR '':'' # mm" "two_digits oh hh" "two_digits om mm"
        "s = CHR ''+'' \<and> off = oh * 3600 + om * 60 \<or> s = CHR ''-'' \<and> off = - (oh * 3600 + om * 60)"
    using assms unfolding offset_text_def by blast
  then show ?thesis
  proof cases
    case z
    then show ?thesis by (simp add: read_offset_def)
  next
    case sgn
    obtain c cs where c: "mm = c # cs" "isDigit c" using sgn(3) by (cases mm) (auto simp: two_digits_def)
    then have "c \<noteq> CHR '':''" using digit_facts by blast
    then show ?thesis
      using sgn(1,4) c two_digits_read [OF sgn(2)] two_digits_read [OF sgn(3), of rest]
      by (auto simp: read_offset_def Let_def)
  qed
qed

lemma am_pm_read:
  assumes "t \<in> (if pm then {''PM'', ''pm''} else {''AM'', ''am''})" and "word_stops tok t rest"
  shows "read_am_pm tok (t @ rest) r = Some (rest, r\<lparr>r_pm := pm\<rparr>)"
proof -
  have l: "isLetter (CHR ''P'')" "isLetter (CHR ''A'')" "isLetter (CHR ''M'')" "isLetter (CHR ''p'')" "isLetter (CHR ''a'')" "isLetter (CHR ''m'')"
    by (simp_all add: isLetter_def code_def)
  have "word_text tok t t" using assms(1) l by (auto simp: word_text_def split: if_splits)
  then have "readWord tok (t @ rest) = (t, rest)" using assms(2) by (rule readWord_text)
  then have r: "read_am_pm tok (t @ rest) r = (if length t \<noteq> 2 then None
      else if upper (t ! 1) \<noteq> CHR ''M'' \<or> upper (t ! 0) \<noteq> CHR ''A'' \<and> upper (t ! 0) \<noteq> CHR ''P'' then None
           else Some (rest, r\<lparr>r_pm := (upper (t ! 0) = CHR ''P'')\<rparr>))"
    by (simp add: read_am_pm_def Let_def)
  have u: "upper (CHR ''P'') = CHR ''P''" "upper (CHR ''A'') = CHR ''A''" "upper (CHR ''M'') = CHR ''M''"
    "upper (CHR ''p'') = CHR ''P''" "upper (CHR ''a'') = CHR ''A''" "upper (CHR ''m'') = CHR ''M''" by code_simp+
  consider "t = ''PM''" pm | "t = ''pm''" pm | "t = ''AM''" "\<not> pm" | "t = ''am''" "\<not> pm"
    using assms(1) by (cases pm) auto
  then show ?thesis unfolding r by cases (simp_all add: u)
qed

lemma literal_read:
  assumes "c = CHR '' '' \<longrightarrow> rest = [] \<or> \<not> isSpace (hd rest)"
  shows "read_literal c ([c] @ rest) r = Some (rest, r)"
proof -
  have "isSpace (CHR '' '')" by (simp add: isSpace_def code_def)
  then show ?thesis using assms by (cases rest) (auto simp: read_literal_def)
qed

lemma mod_100: "1970 \<le> y \<Longrightarrow> y < 2070 \<Longrightarrow> y mod 100 + (if y mod 100 < 70 then 2000 else 1900) = (y :: int)"
  by (cases "y < 2000") (simp_all, presburger+)

text \<open>One token: its text is taken whole, and what it says is recorded.\<close>

lemma token_read:
  assumes "spelled cal months m tok t" and "stops tok t rest"
  shows "read_token cal months tok (t @ rest) r = Some (rest, record_token m tok r)"
proof (cases "t_kind tok")
  case TMonthName
  then obtain w where w: "word_text tok w t" "months (toLower cal w) = Some (mo_month m)"
    using assms(1) by (auto simp: spelled_def)
  then have "readWord tok (t @ rest) = (w, rest)" "w \<noteq> []"
    using readWord_text assms(2) TMonthName by (auto simp: stops_def word_text_def)
  then show ?thesis using w(2) TMonthName by (simp add: read_token_def record_token_def)
next
  case TSkipWord
  then obtain w where w: "word_text tok w t" using assms(1) by (auto simp: spelled_def)
  then have "readWord tok (t @ rest) = (w, rest)" "w \<noteq> []"
    using readWord_text assms(2) TSkipWord by (auto simp: stops_def word_text_def)
  then show ?thesis using TSkipWord by (simp add: read_token_def record_token_def)
next
  case TSkipDigits
  then obtain v where "numeral_text (t_width tok) v t" using assms(1) by (auto simp: spelled_def)
  then show ?thesis using readInt_numeral assms(2) TSkipDigits
    by (simp add: read_token_def record_token_def stops_def)
next
  case TYear2
  then show ?thesis using assms readInt_numeral [of 2 "mo_year m mod 100" t rest] mod_100 [of "mo_year m"]
    by (simp add: read_token_def record_token_def stops_def spelled_def)
next
  case TMillisFrac
  then show ?thesis using assms frac_read by (simp add: read_token_def record_token_def stops_def spelled_def)
next
  case TAmPm
  then show ?thesis using assms am_pm_read [of t "12 \<le> mo_hour m" tok rest r]
    by (simp add: read_token_def record_token_def stops_def spelled_def)
next
  case TUtcOffset
  then show ?thesis using assms offset_read by (simp add: read_token_def record_token_def spelled_def)
next
  case TLiteral
  then show ?thesis using assms literal_read [of "t_literal tok" rest r]
    by (simp add: read_token_def record_token_def stops_def spelled_def)
qed (use assms readInt_numeral in \<open>simp_all add: read_token_def record_token_def stops_def spelled_def\<close>)

lemma tokens_read:
  "written cal months m toks ts \<Longrightarrow>
     read_tokens cal months toks (concat ts) r = Some ([], fold (record_token m) toks r)"
proof (induction cal months m toks ts arbitrary: r rule: written.induct)
  case (2 cal months m tok toks t ts)
  then show ?case using token_read [of cal months m tok t "concat ts" r] by simp
qed simp_all

section \<open>From the text to the instant\<close>

definition complete_tokens :: "date_token list \<Rightarrow> bool" where
  "complete_tokens toks \<longleftrightarrow>
     has_kind [TYear4, TYear2] toks \<and> has_kind [TMonthNumber, TMonthName] toks \<and> has_kind [TDay] toks
     \<and> has_kind [TMinute] toks \<and> has_kind [TSecond] toks \<and> \<not> has_kind [TEpochSeconds] toks
     \<and> (has_kind [THour24] toks \<and> \<not> has_kind [THour12] toks
        \<or> has_kind [THour12] toks \<and> has_kind [TAmPm] toks \<and> \<not> has_kind [THour24] toks)"

definition moment_in_range :: "moment \<Rightarrow> bool" where
  "moment_in_range m \<longleftrightarrow> valid_time (mo_hour m) (mo_minute m) (mo_second m) (mo_millis m)"

text \<open>A field of the reading that only some kinds of token set, all to one value.\<close>

lemma fold_field:
  assumes "\<And>tok r. tok \<in> set toks \<Longrightarrow> g (record_token m tok r) = (if t_kind tok \<in> set ks then v else g r)"
  shows "g (fold (record_token m) toks r) = (if has_kind ks toks then v else g r)"
  using assms by (induction toks arbitrary: r) (auto simp: has_kind_def)

lemma no_kind: "\<not> has_kind ks toks \<Longrightarrow> tok \<in> set toks \<Longrightarrow> t_kind tok \<notin> set ks"
  by (auto simp: has_kind_def list_ex_iff)

lemma twelve_hours:
  assumes "0 \<le> h" and "h < (24 :: int)"
  shows "(if (h + 11) mod 12 + 1 = 12 then 0 else (h + 11) mod 12 + 1) + (if 12 \<le> h then 12 else 0) = h"
proof -
  have "h \<in> set [0..23]" using assms by simp
  then have "\<forall>k \<in> set [0..23]. (if (k + 11) mod 12 + 1 = 12 then 0 else (k + 11) mod 12 + 1) + (if 12 \<le> k then 12 else 0) = (k :: int)
      \<Longrightarrow> ?thesis" by blast
  moreover have "\<forall>k \<in> set [0..23]. (if (k + 11) mod 12 + 1 = 12 then 0 else (k + 11) mod 12 + 1) + (if 12 \<le> k then 12 else 0) = (k :: int)"
    by code_simp
  ultimately show ?thesis by blast
qed

lemma hour_recorded:
  assumes "complete_tokens toks" and "moment_in_range m" and "r = fold (record_token m) toks (reading_start p)"
  shows "hour_of r = mo_hour m"
proof (cases "has_kind [THour24] toks")
  case True
  then have n: "\<not> has_kind [THour12] toks" using assms(1) by (auto simp: complete_tokens_def)
  have "r_hour r = mo_hour m"
    unfolding assms(3) using True no_kind [OF n]
    by (subst fold_field [where ks = "[THour24]" and v = "mo_hour m"]) (auto simp: record_token_def split: date_token_kind.split)
  moreover have "\<not> r_hour12 r"
    unfolding assms(3) using n
    by (subst fold_field [where ks = "[THour12]" and v = True]) (auto simp: record_token_def reading_start_def split: date_token_kind.split)
  ultimately show ?thesis by (simp add: hour_of_def)
next
  case False
  then have h: "has_kind [THour12] toks" "has_kind [TAmPm] toks" using assms(1) by (auto simp: complete_tokens_def)
  have a: "r_hour r = (mo_hour m + 11) mod 12 + 1"
    unfolding assms(3) using h(1) no_kind [OF False]
    by (subst fold_field [where ks = "[THour12]" and v = "(mo_hour m + 11) mod 12 + 1"]) (auto simp: record_token_def split: date_token_kind.split)
  have b: "r_hour12 r"
    unfolding assms(3) using h(1)
    by (subst fold_field [where ks = "[THour12]" and v = True]) (auto simp: record_token_def split: date_token_kind.split)
  have c: "r_pm r = (12 \<le> mo_hour m)"
    unfolding assms(3) using h(2)
    by (subst fold_field [where ks = "[TAmPm]" and v = "12 \<le> mo_hour m"]) (auto simp: record_token_def split: date_token_kind.split)
  have "0 \<le> mo_hour m" "mo_hour m < 24" using assms(2) by (simp_all add: moment_in_range_def valid_time_def)
  then show ?thesis using twelve_hours [of "mo_hour m"] by (simp only: hour_of_def a b c if_True)
qed

text \<open>C17: timestamp_reads_written. A time that was written is read back: for every list of tokens that determines a
  date and a time of day, whatever the order, the names, the twelve-hour clock, padding and fractions, the text
  of a moment spelled token by token is read whole, and the answer is the instant of that moment in the zone of
  the log, or in the zone of the offset the text carries. No text of a token may run on into the next one's.\<close>

theorem timestamp_reads_written:
  assumes "make_parser cal toks qtFormat zone = p" and "complete_tokens toks"
    and "written cal (m_months p) m toks ts" and "moment_in_range m"
    and "has_kind [TMillis, TMillisFrac] toks \<or> mo_millis m = 0"
  shows "parse_time cal p (concat ts) =
           or_none (atTime cal (if has_kind [TUtcOffset] toks then offsetZone cal (mo_offset m) else zone)
             (mo_year m) (mo_month m) (mo_day m) (mo_hour m) (mo_minute m) (mo_second m) (mo_millis m))"
proof -
  have ne: "toks \<noteq> []" using assms(2) by (auto simp: complete_tokens_def has_kind_def)
  have "has_kind [TYear4, TYear2, TEpochSeconds] toks"
    using assms(2) by (auto simp: complete_tokens_def has_kind_def list_ex_iff)
  then have p: "m_valid p" "m_tokens p = toks" "\<not> m_inferYear p" "m_zone p = zone"
    using assms(1) ne by (auto simp: make_parser_def Let_def)
  define r where "r = fold (record_token m) toks (reading_start p)"
  have k: "has_kind [TYear4, TYear2] toks" "has_kind [TMonthNumber, TMonthName] toks" "has_kind [TDay] toks"
    "has_kind [TMinute] toks" "has_kind [TSecond] toks"
    using assms(2) by (simp_all add: complete_tokens_def)
  note field = fold_field [where toks = toks and m = m and r = "reading_start p", folded r_def]
  have date: "r_year r = mo_year m" "r_month r = mo_month m" "r_day r = mo_day m" "r_minute r = mo_minute m" "r_second r = mo_second m"
    using k field [where g = r_year and ks = "[TYear4, TYear2]" and v = "mo_year m"]
      field [where g = r_month and ks = "[TMonthNumber, TMonthName]" and v = "mo_month m"]
      field [where g = r_day and ks = "[TDay]" and v = "mo_day m"]
      field [where g = r_minute and ks = "[TMinute]" and v = "mo_minute m"]
      field [where g = r_second and ks = "[TSecond]" and v = "mo_second m"]
    by (simp_all add: record_token_def split: date_token_kind.split)
  have ms: "r_millis r = mo_millis m"
  proof -
    have "r_millis r = (if has_kind [TMillis, TMillisFrac] toks then mo_millis m else r_millis (reading_start p))"
      by (rule field) (simp add: record_token_def split: date_token_kind.split)
    then show ?thesis using assms(5) by (auto simp: reading_start_def)
  qed
  have rest: "r_sawEpoch r = False" "r_sawOffset r = has_kind [TUtcOffset] toks"
    using field [where g = r_sawEpoch and ks = "[]" and v = True] field [where g = r_sawOffset and ks = "[TUtcOffset]" and v = True]
    by (simp_all add: record_token_def reading_start_def has_kind_def list_ex_iff split: date_token_kind.split)
  have off: "has_kind [TUtcOffset] toks \<Longrightarrow> r_offset r = mo_offset m"
    using field [where g = r_offset and ks = "[TUtcOffset]" and v = "mo_offset m"]
    by (simp add: record_token_def split: date_token_kind.split)
  have hour: "hour_of r = mo_hour m" by (rule hour_recorded [OF assms(2,4) r_def])
  show ?thesis
    using tokens_read [OF assms(3), of "reading_start p"] p ne date ms rest off hour assms(4)
    by (simp add: parse_time_def instant_def Let_def moment_in_range_def r_def [symmetric])
qed

text \<open>A calendar of equal months, and the format \<open>%d/%m/%Y %I:%M:%S %p\<close>.\<close>

definition witness_calendar :: "int calendar" where
  "witness_calendar = \<lparr>atTime = (\<lambda>z y mo d h mi s ms. Some ((((((y * 12 + mo) * 31 + d) * 24 + h) * 60 + mi) * 60 + s - z) * 1000 + ms)),
     offsetZone = (\<lambda>off. off), fromString = (\<lambda>text fmt z. None), toLower = (\<lambda>w. w), systemMonths = [],
     currentYear = 2026, currentMs = 0\<rparr>"

definition witness_tokens :: "date_token list" where
  "witness_tokens = [token TDay 2, literal_token (CHR ''/''), token TMonthNumber 2, literal_token (CHR ''/''), token TYear4 4,
     literal_token (CHR '' ''), token THour12 2, literal_token (CHR '':''), token TMinute 2, literal_token (CHR '':''),
     token TSecond 2, literal_token (CHR '' ''), word_token TAmPm False]"

definition witness_moment :: moment where
  "witness_moment = \<lparr>mo_year = 2026, mo_month = 3, mo_day = 4, mo_hour = 17, mo_minute = 6, mo_second = 7, mo_millis = 0, mo_offset = 0\<rparr>"

definition witness_texts :: "string list" where
  "witness_texts = ['' 4'', ''/'', ''03'', ''/'', ''2026'', '' '', ''05'', '':'', ''06'', '':'', ''07'', '' '', ''PM'']"

theorem timestamp_reads_written_witness:
  "parse_time witness_calendar (make_parser witness_calendar witness_tokens [] 0) '' 4/03/2026 05:06:07 PM'' = 65125703167000"
proof -
  have w: "written witness_calendar (m_months (make_parser witness_calendar witness_tokens [] 0)) witness_moment witness_tokens witness_texts"
    by (simp add: witness_texts_def witness_tokens_def witness_moment_def spelled_def stops_def token_def literal_token_def
        word_token_def numeral_text_def number_stops_def no_digit_def unpadded_def decimal_def isDigit_def isSpace_def
        isLetter_def word_stops_def code_def)
  have c: "complete_tokens witness_tokens" "moment_in_range witness_moment" "mo_millis witness_moment = 0" by code_simp+
  have t: "concat witness_texts = '' 4/03/2026 05:06:07 PM''" by code_simp
  have o1: "\<not> has_kind [TUtcOffset] witness_tokens" by code_simp
  have o2: "or_none (atTime witness_calendar 0 2026 3 4 17 6 7 0) = 65125703167000" by code_simp
  show ?thesis
    using timestamp_reads_written [OF refl c(1) w c(2)] c(3) o1 o2 unfolding t by (simp add: witness_moment_def)
qed

section \<open>What the expression takes and the parser does not\<close>

text \<open>The texts each fragment of a date's expression matches, and those a list of fragments matches whole.\<close>

fun frag_matches :: "frag \<Rightarrow> string \<Rightarrow> bool" where
  "frag_matches (FDigits w) t = (length t = w \<and> list_all isDigit t)"
| "frag_matches (FSpaceDigits w) t =
     (length t = w \<and> t \<noteq> [] \<and> (hd t = CHR '' '' \<or> isDigit (hd t)) \<and> list_all isDigit (drop 1 t))"
| "frag_matches FName t = (t \<noteq> [] \<and> isLetter (hd t) \<and> dropWhile isLetter t \<in> {[], ''.''})"
| "frag_matches FNamePlain t = (t \<noteq> [] \<and> list_all isLetter t)"
| "frag_matches FUpperAmPm t = (t \<in> {''AM'', ''PM''})"
| "frag_matches FLowerAmPm t = (t \<in> {''am'', ''pm''})"
| "frag_matches FMillisFrac t =
     (3 \<le> length t \<and> list_all isDigit (take 3 t)
      \<and> (let r = drop 3 t; ds = (if r \<noteq> [] \<and> hd r = CHR ''.'' then drop 1 r else r)
         in r = [] \<or> ds \<noteq> [] \<and> length ds \<le> 6 \<and> list_all isDigit ds))"
| "frag_matches FEpoch t = (t \<noteq> [] \<and> length t \<le> 12 \<and> list_all isDigit t)"
| "frag_matches FOffset t =
     (t = ''Z'' \<or> t \<noteq> [] \<and> hd t \<in> {CHR ''+'', CHR ''-''} \<and> list_all isDigit (take 2 (drop 1 t))
      \<and> (let r = drop 3 t; mm = (if r \<noteq> [] \<and> hd r = CHR '':'' then drop 1 r else r) in length mm = 2 \<and> list_all isDigit mm))"
| "frag_matches FZone t =
     (t \<noteq> [] \<and> isLetter (hd t) \<and> code (hd t) < 128
      \<and> list_all (\<lambda>c. isLetter c \<and> code c < 128 \<or> isDigit c \<or> c \<in> {CHR ''_'', CHR ''/'', CHR ''+'', CHR ''-''}) t)"
| "frag_matches FTab t = (t = [CHR 0x09])"
| "frag_matches (FChar c) t = (t = [c])"

fun frags_match :: "frag list \<Rightarrow> string \<Rightarrow> bool" where
  "frags_match [] t = (t = [])"
| "frags_match (f # fs) t = list_ex (\<lambda>k. frag_matches f (take k t) \<and> frags_match fs (drop k t)) [0..<Suc (length t)]"

definition date_matches :: "string \<Rightarrow> string \<Rightarrow> bool" where
  "date_matches fmt text =
     (case translateDateFormat fmt 0 None of Inl e \<Rightarrow> False | Inr df \<Rightarrow> frags_match (d_frags (df_translation df)) text)"

definition date_read :: "'z calendar \<Rightarrow> string \<Rightarrow> 'z \<Rightarrow> string \<Rightarrow> int" where
  "date_read cal fmt zone text =
     (case translateDateFormat fmt 0 None of
        Inl e \<Rightarrow> kNoTimestamp
      | Inr df \<Rightarrow> parse_time cal (make_parser cal (d_tokens (df_translation df)) (d_qt (df_translation df)) zone) text)"

definition date_tokens :: "string \<Rightarrow> date_token list" where
  "date_tokens fmt = (case translateDateFormat fmt 0 None of Inl e \<Rightarrow> [] | Inr df \<Rightarrow> d_tokens (df_translation df))"

text \<open>What the tokens of a format answer, wherever they start, is what is read.\<close>

lemma date_read_tokens:
  assumes "date_tokens fmt = toks" and "toks \<noteq> []"
    and "\<And>months p r0. (case read_tokens cal months toks text r0 of
                          None \<Rightarrow> kNoTimestamp | Some (_, r) \<Rightarrow> instant cal (p :: 'z timestamp_parser) r) = v"
  shows "date_read (cal :: 'z calendar) fmt zone text = v"
proof -
  obtain df where df: "translateDateFormat fmt 0 None = Inr df" "d_tokens (df_translation df) = toks"
    using assms(1,2) by (auto simp: date_tokens_def split: sum.splits)
  define p where "p = make_parser cal toks (d_qt (df_translation df)) zone"
  have "m_valid p" "m_tokens p = toks" using assms(2) by (simp_all add: make_parser_def Let_def p_def)
  then have "date_read cal fmt zone text = (case read_tokens cal (m_months p) toks text (reading_start p) of
      None \<Rightarrow> kNoTimestamp | Some (_, r) \<Rightarrow> instant cal p r)"
    using df assms(2) by (simp add: date_read_def parse_time_def p_def [symmetric])
  also have "\<dots> = v" by (rule assms(3))
  finally show ?thesis .
qed

lemmas reader_defs = token_def literal_token_def word_token_def read_token_def readInt_def readWord_def read_literal_def
  read_frac_def isDigit_def isSpace_def isLetter_def code_def decimal_def

text \<open>C23: date_match_unread. A text the expression of a date takes is not always read: two spaces in a row in the format,
  a milliseconds-with-remainder code before a literal dot and a zone name with a sign match a text that then has no
  timestamp, and a seconds-since-the-epoch code right before milliseconds swallows two of them. The first space takes
  the whole run, the remainder takes the dot, a name ends at its last letter, and twelve digits are read where ten
  were meant.\<close>

theorem date_match_unread:
  "date_matches ''%Y  %m'' ''2026  03'' \<and> date_read cal ''%Y  %m'' zone ''2026  03'' = kNoTimestamp
   \<and> date_matches ''%Q.%Y'' ''123.2026'' \<and> date_read cal ''%Q.%Y'' zone ''123.2026'' = kNoTimestamp
   \<and> date_matches ''%Z %Y'' ''UTC+3 2026'' \<and> date_read cal ''%Z %Y'' zone ''UTC+3 2026'' = kNoTimestamp
   \<and> date_matches ''%s%q'' ''1700000000123'' \<and> date_read cal ''%s%q'' zone ''1700000000123'' = 170000000012003"
proof -
  have m: "date_matches ''%Y  %m'' ''2026  03''" "date_matches ''%Q.%Y'' ''123.2026''"
    "date_matches ''%Z %Y'' ''UTC+3 2026''" "date_matches ''%s%q'' ''1700000000123''" by code_simp+
  have t: "date_tokens ''%Y  %m'' = [token TYear4 4, literal_token (CHR '' ''), literal_token (CHR '' ''), token TMonthNumber 2]"
    "date_tokens ''%Q.%Y'' = [token TMillisFrac 3, literal_token (CHR ''.''), token TYear4 4]"
    "date_tokens ''%Z %Y'' = [word_token TSkipWord False, literal_token (CHR '' ''), token TYear4 4]"
    "date_tokens ''%s%q'' = [token TEpochSeconds 12, token TMillis 3]" by code_simp+
  have "date_read cal ''%Y  %m'' zone ''2026  03'' = kNoTimestamp"
    by (rule date_read_tokens [OF t(1)]) (simp_all add: reader_defs)
  moreover have "date_read cal ''%Q.%Y'' zone ''123.2026'' = kNoTimestamp"
    by (rule date_read_tokens [OF t(2)]) (simp_all add: reader_defs)
  moreover have "date_read cal ''%Z %Y'' zone ''UTC+3 2026'' = kNoTimestamp"
    by (rule date_read_tokens [OF t(3)]) (simp_all add: reader_defs)
  moreover have "date_read cal ''%s%q'' zone ''1700000000123'' = 170000000012003"
    by (rule date_read_tokens [OF t(4)]) (simp_all add: reader_defs instant_def)
  ultimately show ?thesis using m by blast
qed

end
