(* ===== verification/QStrings.thy ===== *)
theory QStrings
  imports Bytes "HOL-Library.Word"
begin

unbundle bit_operations_syntax

text \<open>
  The operations of \<open>QString\<close> that the address code uses, on strings of UTF-16 code units, so that a lone
  surrogate and a pair are what they are in the code. -1 as an index is \<open>None\<close>.
\<close>

section \<open>Code units and literals\<close>

type_synonym qchar = "16 word"
type_synonym qstring = "qchar list"

definition lit :: "string \<Rightarrow> qstring" where
  "lit s = map (\<lambda>c. of_nat (code c)) s"

abbreviation slash :: qchar where "slash \<equiv> 0x2F"
abbreviation colon :: qchar where "colon \<equiv> 0x3A"
abbreviation atsign :: qchar where "atsign \<equiv> 0x40"
abbreviation percent :: qchar where "percent \<equiv> 0x25"
abbreviation tilde :: qchar where "tilde \<equiv> 0x7E"

lemma lit_simps [simp]: "lit [] = []" "lit (c # cs) = of_nat (code c) # lit cs"
  by (simp_all add: lit_def)

definition is_digit :: "qchar \<Rightarrow> bool" where
  "is_digit c \<longleftrightarrow> 0x30 \<le> c \<and> c \<le> 0x39"

definition is_letter :: "qchar \<Rightarrow> bool" where
  "is_letter c \<longleftrightarrow> 0x61 \<le> c \<and> c \<le> 0x7A \<or> 0x41 \<le> c \<and> c \<le> 0x5A"

definition is_hex :: "qchar \<Rightarrow> bool" where
  "is_hex c \<longleftrightarrow> 0x30 \<le> c \<and> c \<le> 0x39 \<or> 0x61 \<le> c \<and> c \<le> 0x66 \<or> 0x41 \<le> c \<and> c \<le> 0x46"

section \<open>Searching\<close>

text \<open>\<open>indexOf\<close>, \<open>lastIndexOf\<close> and \<open>indexOf\<close> from a position, for one code unit.\<close>

fun find_ch :: "qchar \<Rightarrow> qstring \<Rightarrow> nat option" where
  "find_ch c [] = None"
| "find_ch c (d # ds) = (if d = c then Some 0 else map_option Suc (find_ch c ds))"

fun last_ch :: "qchar \<Rightarrow> qstring \<Rightarrow> nat option" where
  "last_ch c [] = None"
| "last_ch c (d # ds) = (case last_ch c ds of Some i \<Rightarrow> Some (Suc i) | None \<Rightarrow> if d = c then Some 0 else None)"

definition find_from :: "qchar \<Rightarrow> qstring \<Rightarrow> nat \<Rightarrow> nat option" where
  "find_from c s start = map_option (\<lambda>i. start + i) (find_ch c (drop start s))"

text \<open>\<open>indexOf\<close> of the mark between a scheme and an authority.\<close>

definition scheme_mark :: qstring where
  "scheme_mark = lit ''://''"

fun find_mark :: "qstring \<Rightarrow> nat option" where
  "find_mark [] = None"
| "find_mark (c # cs) = (if take 3 (c # cs) = scheme_mark then Some 0 else map_option Suc (find_mark cs))"

lemma find_ch_None: "find_ch c s = None \<longleftrightarrow> c \<notin> set s"
  by (induction s) auto

lemma find_ch_none [simp]: "c \<notin> set s \<Longrightarrow> find_ch c s = None"
  by (simp add: find_ch_None)

lemma find_ch_at [simp]: "c \<notin> set a \<Longrightarrow> find_ch c (a @ c # b) = Some (length a)"
  by (induction a) auto

lemma find_ch_some: "find_ch c s = Some i \<Longrightarrow> s = take i s @ c # drop (Suc i) s \<and> c \<notin> set (take i s) \<and> i < length s"
proof (induction s arbitrary: i)
  case (Cons d ds)
  then show ?case by (cases i) (auto split: if_splits)
qed simp

lemma last_ch_None: "last_ch c s = None \<longleftrightarrow> c \<notin> set s"
  by (induction s) (auto split: option.splits)

lemma last_ch_none [simp]: "c \<notin> set s \<Longrightarrow> last_ch c s = None"
  by (simp add: last_ch_None)

lemma last_ch_at [simp]: "c \<notin> set b \<Longrightarrow> last_ch c (a @ c # b) = Some (length a)"
proof (induction a)
  case Nil
  then have "last_ch c b = None" by simp
  then show ?case by simp
qed auto

lemma last_ch_some: "last_ch c s = Some i \<Longrightarrow> s = take i s @ c # drop (Suc i) s \<and> c \<notin> set (drop (Suc i) s) \<and> i < length s"
proof (induction s arbitrary: i)
  case (Cons d ds)
  show ?case
  proof (cases "last_ch c ds")
    case None
    then have "c \<notin> set ds" by (simp add: last_ch_None)
    with None show ?thesis using Cons.prems by (auto split: if_splits)
  next
    case (Some j)
    then show ?thesis using Cons.prems Cons.IH [OF Some] by auto
  qed
qed simp

lemma find_ch_drop: "find_ch c s = Some i \<Longrightarrow> drop i s = c # drop (Suc i) s"
  using find_ch_some [of c s i] by (metis append_eq_conv_conj length_take min.absorb4)

lemma last_ch_drop: "last_ch c s = Some i \<Longrightarrow> drop i s = c # drop (Suc i) s"
  using last_ch_some [of c s i] by (metis append_eq_conv_conj length_take min.absorb4)

section \<open>Prefixes, suffixes and sections\<close>

definition starts :: "qstring \<Rightarrow> qstring \<Rightarrow> bool" where
  "starts s p \<longleftrightarrow> take (length p) s = p"

text \<open>Case-insensitive prefixes and suffixes fold both sides, code unit by code unit.\<close>

definition startsFolded :: "(qchar \<Rightarrow> qchar) \<Rightarrow> qstring \<Rightarrow> qstring \<Rightarrow> bool" where
  "startsFolded fd s p \<longleftrightarrow> map fd (take (length p) s) = map fd p"

definition endsFolded :: "(qchar \<Rightarrow> qchar) \<Rightarrow> qstring \<Rightarrow> qstring \<Rightarrow> bool" where
  "endsFolded fd s p \<longleftrightarrow> length p \<le> length s \<and> map fd (drop (length s - length p) s) = map fd p"

text \<open>\<open>section(c, -1)\<close> and \<open>section(c, 0, 0)\<close>; \<open>split(c, SkipEmptyParts)\<close>.\<close>

definition after_last :: "qchar \<Rightarrow> qstring \<Rightarrow> qstring" where
  "after_last c s = (case last_ch c s of None \<Rightarrow> s | Some i \<Rightarrow> drop (Suc i) s)"

definition before_first :: "qchar \<Rightarrow> qstring \<Rightarrow> qstring" where
  "before_first c s = (case find_ch c s of None \<Rightarrow> s | Some i \<Rightarrow> take i s)"

fun pieces :: "qchar \<Rightarrow> qstring \<Rightarrow> qstring list" where
  "pieces c [] = [[]]"
| "pieces c (d # ds) =
     (if d = c then [] # pieces c ds
      else (case pieces c ds of [] \<Rightarrow> [[d]] | w # ws \<Rightarrow> (d # w) # ws))"

definition segments :: "qstring \<Rightarrow> qstring list" where
  "segments s = filter (\<lambda>w. w \<noteq> []) (pieces slash s)"

lemma starts_append [simp]: "starts (p @ x) p"
  by (simp add: starts_def)

lemma startsFolded_append [simp]: "startsFolded f (p @ x) p"
  by (simp add: startsFolded_def)

lemma pieces_ne [simp]: "pieces c s \<noteq> []"
  by (induction s) (auto split: list.split)

lemma pieces_class: "\<forall>w \<in> set (pieces c s). c \<notin> set w"
proof (induction s)
  case (Cons d s)
  then show ?case by (cases "pieces c s") auto
qed simp

lemma pieces_at: "c \<notin> set a \<Longrightarrow> pieces c (a @ c # b) = a # pieces c b"
  by (induction a) auto

lemma pieces_one: "c \<notin> set a \<Longrightarrow> pieces c a = [a]"
  by (induction a) auto

lemma segments_class: "w \<in> set (segments s) \<Longrightarrow> w \<noteq> [] \<and> slash \<notin> set w"
  using pieces_class [of slash s] by (auto simp: segments_def)

lemma after_last_class: "c \<notin> set (after_last c s)"
  using last_ch_some [of c s] by (auto simp: after_last_def last_ch_None split: option.split)

section \<open>Numbers and place markers\<close>

definition number :: "int \<Rightarrow> qstring" where
  "number n = (if n < 0 then [0x2D] else []) @ lit (dec (nat \<bar>n\<bar>))"

text \<open>
  \<open>QString::arg\<close>: every place marker with the lowest number of the string, \<open>%1\<close> to \<open>%99\<close>, is replaced; a marker
  written with \<open>L\<close> takes the localised text.
\<close>

definition digit_value :: "qchar \<Rightarrow> nat" where
  "digit_value c = unat (c - 0x30)"

definition marker_digits :: "qstring \<Rightarrow> (nat \<times> nat) option" where
  "marker_digits s =
     (case s of [] \<Rightarrow> None
      | d # r \<Rightarrow> if \<not> is_digit d then None
                else (case r of [] \<Rightarrow> Some (digit_value d, 1)
                      | e # _ \<Rightarrow> if is_digit e then Some (10 * digit_value d + digit_value e, 2)
                                else Some (digit_value d, 1)))"

definition marker :: "qstring \<Rightarrow> (nat \<times> bool \<times> nat) option" where
  "marker s =
     (case s of [] \<Rightarrow> None
      | p # r \<Rightarrow> if p \<noteq> percent then None
                else if r \<noteq> [] \<and> hd r = 0x4C
                then map_option (\<lambda>(n, l). (n, True, l + 2)) (marker_digits (drop 1 r))
                else map_option (\<lambda>(n, l). (n, False, l + 1)) (marker_digits r))"

fun markers :: "qstring \<Rightarrow> nat \<Rightarrow> nat list" where
  "markers [] k = []"
| "markers (c # cs) k =
     (if 0 < k then markers cs (k - 1)
      else (case marker (c # cs) of None \<Rightarrow> markers cs 0 | Some (n, _, l) \<Rightarrow> n # markers cs (l - 1)))"

fun arg_sub :: "nat \<Rightarrow> qstring \<Rightarrow> qstring \<Rightarrow> qstring \<Rightarrow> nat \<Rightarrow> qstring" where
  "arg_sub m plain loc [] k = []"
| "arg_sub m plain loc (c # cs) k =
     (if 0 < k then arg_sub m plain loc cs (k - 1)
      else (case marker (c # cs) of
              None \<Rightarrow> c # arg_sub m plain loc cs 0
            | Some (n, localised, l) \<Rightarrow>
                if n = m then (if localised then loc else plain) @ arg_sub m plain loc cs (l - 1)
                else c # arg_sub m plain loc cs 0))"

definition arg :: "qstring \<Rightarrow> qstring \<Rightarrow> qstring \<Rightarrow> qstring" where
  "arg s plain loc =
     (case markers s 0 of [] \<Rightarrow> s | m # ms \<Rightarrow> arg_sub (foldl min m ms) plain loc s 0)"

lemma marker_not: "c \<noteq> percent \<Longrightarrow> marker (c # cs) = None"
  by (simp add: marker_def)

lemma markers_skip: "percent \<notin> set a \<Longrightarrow> markers (a @ s) 0 = markers s 0"
  by (induction a) (auto simp: marker_not)

lemma arg_sub_skip: "percent \<notin> set a \<Longrightarrow> arg_sub m p l (a @ s) 0 = a @ arg_sub m p l s 0"
  by (induction a) (auto simp: marker_not)

text \<open>A string without a percent sign in front of its only marker.\<close>

lemma marker_plain: "is_digit d \<Longrightarrow> marker [percent, d] = Some (digit_value d, False, 2)"
  by (auto simp: marker_def marker_digits_def is_digit_def)

lemma arg_at_end:
  assumes "percent \<notin> set a" and "is_digit d"
  shows "arg (a @ [percent, d]) p l = a @ p"
  using assms markers_skip [OF assms(1), of "[percent, d]"]
  by (simp add: arg_def marker_plain arg_sub_skip)

lemma number_digits:
  assumes "0 \<le> n"
  shows "number n \<noteq> [] \<and> (\<forall>c \<in> set (number n). is_digit c)"
proof -
  have "is_digit (of_nat (code c))" if "c \<in> set (dec (nat n))" for c
  proof -
    have b: "48 \<le> code c" "code c \<le> 57" using dec_digits [of "nat n"] that by auto
    then have "unat (of_nat (code c) :: qchar) = code c" by (simp add: unat_of_nat)
    with b show ?thesis by (simp add: is_digit_def word_le_nat_alt)
  qed
  then show ?thesis using assms dec_digits [of "nat n"] by (auto simp: number_def lit_def)
qed

lemma dec_inj: "dec m = dec n \<Longrightarrow> m = n"
  by (metis digits_value_dec option.inject)

lemma lit_inj: "lit s = lit t \<Longrightarrow> s = t"
proof (induction s arbitrary: t)
  case Nil
  then show ?case by (simp add: lit_def)
next
  case (Cons c s)
  then obtain d t' where t: "t = d # t'" by (cases t) auto
  have small: "unat (of_nat (code x) :: qchar) = code x" for x
  proof -
    have "code x < 65536" using nat_of_char_less_256 [of x] unfolding code_def by linarith
    then show ?thesis by (simp add: unat_of_nat)
  qed
  have "(of_nat (code c) :: qchar) = of_nat (code d)" "lit s = lit t'" using Cons.prems t by auto
  then have "code c = code d" using small [of c] small [of d] by metis
  then have "c = d" unfolding code_def by (metis char_of_char)
  moreover have "s = t'" using \<open>lit s = lit t'\<close> by (rule Cons.IH)
  ultimately show ?case using t by blast
qed

lemma number_inj: "0 \<le> m \<Longrightarrow> 0 \<le> n \<Longrightarrow> number m = number n \<Longrightarrow> m = n"
  using lit_inj [of "dec (nat m)" "dec (nat n)"] dec_inj [of "nat m" "nat n"]
  by (auto simp: number_def)

section \<open>Surrogates and noncharacters\<close>

definition isHighSurrogate :: "qchar \<Rightarrow> bool" where
  "isHighSurrogate u \<longleftrightarrow> 0xD800 \<le> u \<and> u \<le> 0xDBFF"

definition isLowSurrogate :: "qchar \<Rightarrow> bool" where
  "isLowSurrogate u \<longleftrightarrow> 0xDC00 \<le> u \<and> u \<le> 0xDFFF"

definition surrogateToUcs4 :: "qchar \<Rightarrow> qchar \<Rightarrow> 32 word" where
  "surrogateToUcs4 h l = push_bit 10 (ucast h) + ucast l - 0x35FDC00"

text \<open>Well-formed UTF-16: every surrogate is one half of a pair.\<close>

fun wf16 :: "qstring \<Rightarrow> bool" where
  "wf16 [] = True"
| "wf16 [u] = (\<not> isHighSurrogate u \<and> \<not> isLowSurrogate u)"
| "wf16 (u # v # us) =
     (if isHighSurrogate u then isLowSurrogate v \<and> wf16 us else \<not> isLowSurrogate u \<and> wf16 (v # us))"

lemma wf16_ascii: "c < 128 \<Longrightarrow> wf16 (c # s) = wf16 s"
proof -
  assume c: "c < 128"
  have "\<not> 0xD800 \<le> c" using order.strict_trans [OF c, of "0xD800"] by (simp add: not_le)
  moreover have "\<not> 0xDC00 \<le> c" using order.strict_trans [OF c, of "0xDC00"] by (simp add: not_le)
  ultimately show ?thesis by (cases s) (simp_all add: isHighSurrogate_def isLowSurrogate_def)
qed

end
