(* ===== verification/Spools.thy ===== *)
theory Spools
  imports Bytes
begin

text \<open>
  \<open>src/core/SourceSpool\<close>: the registry of the spools, which are local copies of logs that are elsewhere, one per log and
  shared by the tabs on it. Spool objects and fetcher threads are named by the serial of their acquisition.
  Several threads use the registry: the last handle of a spool may be dropped on the thread of another fetcher,
  so what the code does between two takings of its lock is one step of a relation. What a fetcher does, the
  choice of a fetcher for a key and the digest of a key are parameters.
\<close>

section \<open>State\<close>

text \<open>
  A spool object is held by handles; after the last is dropped it is on its way out: first its key is forgotten, then
  it is destroyed and its fetcher retired.
\<close>

datatype spool_phase = Held nat | Dropped | Forgotten

record 'k spool =
  sp_key :: 'k
  sp_dir :: string
  sp_phase :: spool_phase

text \<open>
  \<open>g_map\<close> is the map of weak pointers, \<open>g_heap\<close> the spool objects; \<open>g_pending\<close> are the acquisitions that have made
  their directory and not yet their spool, innermost first; \<open>g_running\<close> the fetchers whose thread has not exited
  (\<open>isStopped\<close> is false); \<open>g_dirs\<close> the directories on disk.
\<close>

record 'k registry =
  g_serial :: nat
  g_map :: "'k \<rightharpoonup> nat"
  g_heap :: "nat \<rightharpoonup> 'k spool"
  g_retired :: "(nat \<times> string) list"
  g_abandoned :: "nat set"
  g_pending :: "(nat \<times> 'k \<times> string) list"
  g_running :: "nat set"
  g_dirs :: "string set"

definition registry_init :: "'k registry" where
  "registry_init = \<lparr>g_serial = 0, g_map = Map.empty, g_heap = Map.empty, g_retired = [], g_abandoned = {}, g_pending = [],
     g_running = {}, g_dirs = {}\<rparr>"

section \<open>Operations\<close>

definition spoolDirName :: "('k \<Rightarrow> string) \<Rightarrow> 'k \<Rightarrow> nat \<Rightarrow> string" where
  "spoolDirName digest key serial = take 16 (digest key) @ ''-'' @ dec serial"

text \<open>A weak pointer answers nothing once the last handle is gone.\<close>

definition held :: "'k registry \<Rightarrow> nat \<Rightarrow> bool" where
  "held g i \<longleftrightarrow> (case g_heap g i of Some s \<Rightarrow> (case sp_phase s of Held n \<Rightarrow> True | _ \<Rightarrow> False) | None \<Rightarrow> False)"

definition find_spool :: "'k registry \<Rightarrow> 'k \<Rightarrow> nat option" where
  "find_spool g key = (case g_map g key of Some i \<Rightarrow> if held g i then Some i else None | None \<Rightarrow> None)"

definition forget :: "'k \<Rightarrow> 'k registry \<Rightarrow> 'k registry" where
  "forget key g = g\<lparr>g_map := (g_map g)(key := None)\<rparr>"

definition set_phase :: "nat \<Rightarrow> spool_phase \<Rightarrow> 'k registry \<Rightarrow> 'k registry" where
  "set_phase i ph g = g\<lparr>g_heap := (g_heap g)(i := map_option (\<lambda>s. s\<lparr>sp_phase := ph\<rparr>) (g_heap g i))\<rparr>"

text \<open>\<open>acquire\<close>: a live spool gets another handle; otherwise a directory is made under a new serial, and then the fetcher
  is refused, refuses to start, or starts and the spool is entered.\<close>

definition share :: "nat \<Rightarrow> 'k registry \<Rightarrow> 'k registry" where
  "share i g = (case g_heap g i of Some s \<Rightarrow> (case sp_phase s of Held n \<Rightarrow> set_phase i (Held (Suc n)) g | _ \<Rightarrow> g) | None \<Rightarrow> g)"

definition acquire_enter :: "('k \<Rightarrow> string) \<Rightarrow> 'k \<Rightarrow> bool \<Rightarrow> 'k registry \<Rightarrow> 'k registry" where
  "acquire_enter digest key made g =
     (let i = Suc (g_serial g); d = spoolDirName digest key i
      in if made then g\<lparr>g_serial := i, g_dirs := insert d (g_dirs g), g_pending := (i, key, d) # g_pending g\<rparr>
         else g\<lparr>g_serial := i\<rparr>)"

fun acquire_refused :: "(nat \<times> 'k \<times> string) \<Rightarrow> 'k registry \<Rightarrow> 'k registry" where
  "acquire_refused (i, key, d) g = g\<lparr>g_dirs := g_dirs g - {d}\<rparr>"

fun acquire_started :: "(nat \<times> 'k \<times> string) \<Rightarrow> 'k registry \<Rightarrow> 'k registry" where
  "acquire_started (i, key, d) g =
     g\<lparr>g_running := insert i (g_running g),
       g_heap := (g_heap g)(i \<mapsto> \<lparr>sp_key = key, sp_dir = d, sp_phase = Held 1\<rparr>),
       g_map := (g_map g)(key \<mapsto> i)\<rparr>"

definition acquire_leave :: "bool \<Rightarrow> 'k registry \<Rightarrow> 'k registry" where
  "acquire_leave started g =
     (case g_pending g of
        [] \<Rightarrow> g
      | p # ps \<Rightarrow> (if started then acquire_started p else acquire_refused p) (g\<lparr>g_pending := ps\<rparr>))"

text \<open>Dropping a handle, and the two parts of the deleter that the last one runs: \<open>forget\<close>, and the destructor with \<open>retire\<close>.\<close>

definition drop_handle :: "nat \<Rightarrow> 'k registry \<Rightarrow> 'k registry" where
  "drop_handle i g =
     (case g_heap g i of
        Some s \<Rightarrow> (case sp_phase s of Held n \<Rightarrow> set_phase i (if n \<le> 1 then Dropped else Held (n - 1)) g | _ \<Rightarrow> g)
      | None \<Rightarrow> g)"

definition deleter_forget :: "nat \<Rightarrow> 'k registry \<Rightarrow> 'k registry" where
  "deleter_forget i g =
     (case g_heap g i of Some s \<Rightarrow> set_phase i Forgotten (forget (sp_key s) g) | None \<Rightarrow> g)"

definition retire :: "nat \<Rightarrow> string \<Rightarrow> 'k registry \<Rightarrow> 'k registry" where
  "retire i d g =
     (if i \<notin> g_running g then g\<lparr>g_dirs := g_dirs g - {d}\<rparr> else g\<lparr>g_retired := g_retired g @ [(i, d)]\<rparr>)"

definition destroy :: "nat \<Rightarrow> 'k registry \<Rightarrow> 'k registry" where
  "destroy i g =
     (case g_heap g i of Some s \<Rightarrow> retire i (sp_dir s) (g\<lparr>g_heap := (g_heap g)(i := None)\<rparr>) | None \<Rightarrow> g)"

definition collectRetired :: "'k registry \<Rightarrow> 'k registry" where
  "collectRetired g =
     g\<lparr>g_retired := filter (\<lambda>(i, d). i \<in> g_running g) (g_retired g),
       g_dirs := g_dirs g - snd ` set (filter (\<lambda>(i, d). i \<notin> g_running g) (g_retired g))\<rparr>"

text \<open>\<open>clear\<close>; what \<open>drainRetired\<close> does with those still running when its time is up; and \<open>shutdown\<close> once the drain is over.\<close>

definition clear_map :: "'k registry \<Rightarrow> 'k registry" where
  "clear_map g = g\<lparr>g_map := Map.empty\<rparr>"

definition abandon :: "'k registry \<Rightarrow> 'k registry" where
  "abandon g = g\<lparr>g_abandoned := g_abandoned g \<union> fst ` set (g_retired g), g_retired := []\<rparr>"

definition shutdown :: "'k registry \<Rightarrow> 'k registry" where
  "shutdown g = (abandon (clear_map g))\<lparr>g_dirs := {}\<rparr>"

section \<open>Steps\<close>

text \<open>
  All threads together. An acquisition is of the GUI thread, but others run between its parts, and so do
  acquisitions a fetcher makes while it starts.
\<close>

inductive registry_step :: "('k \<Rightarrow> string) \<Rightarrow> 'k registry \<Rightarrow> 'k registry \<Rightarrow> bool" for digest where
  step_share: "find_spool g key = Some i \<Longrightarrow> registry_step digest g (share i g)"
| step_enter: "find_spool g key = None \<Longrightarrow> registry_step digest g (acquire_enter digest key made g)"
| step_leave: "registry_step digest g (acquire_leave started g)"
| step_drop: "registry_step digest g (drop_handle i g)"
| step_forget: "g_heap g i = Some s \<Longrightarrow> sp_phase s = Dropped \<Longrightarrow> registry_step digest g (deleter_forget i g)"
| step_destroy: "g_heap g i = Some s \<Longrightarrow> sp_phase s = Forgotten \<Longrightarrow> registry_step digest g (destroy i g)"
| step_stopped: "registry_step digest g (g\<lparr>g_running := g_running g - {i}\<rparr>)"
| step_collect: "registry_step digest g (collectRetired g)"
| step_clear: "registry_step digest g (clear_map g)"

inductive registry_reachable :: "('k \<Rightarrow> string) \<Rightarrow> 'k registry \<Rightarrow> bool" for digest where
  reach_init: "registry_reachable digest registry_init"
| reach_step: "registry_reachable digest g \<Longrightarrow> registry_step digest g g' \<Longrightarrow> registry_reachable digest g'"

text \<open>
  One thread: the deleter runs to its end where the last handle is dropped, nothing clears the map, and the fetchers
  of a log acquire only other logs while they start.
\<close>

definition drop_whole :: "nat \<Rightarrow> 'k registry \<Rightarrow> 'k registry" where
  "drop_whole i g =
     (let g' = drop_handle i g
      in if (case g_heap g' i of Some s \<Rightarrow> sp_phase s = Dropped | None \<Rightarrow> False) then destroy i (deleter_forget i g') else g')"

inductive gui_reachable :: "('k \<Rightarrow> string) \<Rightarrow> 'k registry \<Rightarrow> bool" for digest where
  gui_init: "gui_reachable digest registry_init"
| gui_share: "gui_reachable digest g \<Longrightarrow> find_spool g key = Some i \<Longrightarrow> gui_reachable digest (share i g)"
| gui_enter: "gui_reachable digest g \<Longrightarrow> find_spool g key = None \<Longrightarrow> key \<notin> (\<lambda>(i, k, d). k) ` set (g_pending g) \<Longrightarrow>
    gui_reachable digest (acquire_enter digest key made g)"
| gui_leave: "gui_reachable digest g \<Longrightarrow> gui_reachable digest (acquire_leave started g)"
| gui_drop: "gui_reachable digest g \<Longrightarrow> gui_reachable digest (drop_whole i g)"
| gui_stopped: "gui_reachable digest g \<Longrightarrow> gui_reachable digest (g\<lparr>g_running := g_running g - {i}\<rparr>)"
| gui_collect: "gui_reachable digest g \<Longrightarrow> gui_reachable digest (collectRetired g)"

section \<open>Directories\<close>

lemma spoolDirName_inj:
  assumes "\<And>k. length (digest k) = 40" and "spoolDirName digest k i = spoolDirName digest k' j"
  shows "i = j"
proof -
  have "length (take 16 (digest k)) = length (take 16 (digest k'))" using assms(1) by simp
  then have "dec i = dec j" using assms(2) by (simp add: spoolDirName_def)
  then show ?thesis using digits_value_dec by (metis option.inject)
qed

text \<open>Who uses a directory: a spool object, a retired fetcher, an acquisition under way.\<close>

definition owns :: "'k registry \<Rightarrow> nat \<Rightarrow> string \<Rightarrow> bool" where
  "owns g i d \<longleftrightarrow> (\<exists>s. g_heap g i = Some s \<and> sp_dir s = d) \<or> (i, d) \<in> set (g_retired g) \<or> (\<exists>k. (i, k, d) \<in> set (g_pending g))"

definition retired_ids :: "'k registry \<Rightarrow> nat set" where
  "retired_ids g = fst ` set (g_retired g)"

definition pending_ids :: "'k registry \<Rightarrow> nat set" where
  "pending_ids g = fst ` set (g_pending g)"

definition registry_ok :: "('k \<Rightarrow> string) \<Rightarrow> 'k registry \<Rightarrow> bool" where
  "registry_ok digest g \<longleftrightarrow>
     (\<forall>i d. owns g i d \<longrightarrow> d \<in> g_dirs g \<and> i \<le> g_serial g \<and> (\<exists>k. d = spoolDirName digest k i))
     \<and> g_running g \<subseteq> dom (g_heap g) \<union> retired_ids g
     \<and> distinct (map fst (g_pending g)) \<and> distinct (map fst (g_retired g))
     \<and> dom (g_heap g) \<inter> retired_ids g = {} \<and> dom (g_heap g) \<inter> pending_ids g = {}
     \<and> retired_ids g \<inter> pending_ids g = {}"

lemma registry_okI:
  assumes "\<And>i d. owns g i d \<Longrightarrow> d \<in> g_dirs g \<and> i \<le> g_serial g \<and> (\<exists>k. d = spoolDirName digest k i)"
    and "g_running g \<subseteq> dom (g_heap g) \<union> retired_ids g"
    and "distinct (map fst (g_pending g))" and "distinct (map fst (g_retired g))"
    and "dom (g_heap g) \<inter> retired_ids g = {}" and "dom (g_heap g) \<inter> pending_ids g = {}"
    and "retired_ids g \<inter> pending_ids g = {}"
  shows "registry_ok digest g"
  using assms unfolding registry_ok_def by blast

lemma registry_okD:
  assumes "registry_ok digest g"
  shows "owns g i d \<Longrightarrow> d \<in> g_dirs g" "owns g i d \<Longrightarrow> i \<le> g_serial g" "owns g i d \<Longrightarrow> \<exists>k. d = spoolDirName digest k i"
    "g_running g \<subseteq> dom (g_heap g) \<union> retired_ids g"
    "distinct (map fst (g_pending g))" "distinct (map fst (g_retired g))"
    "dom (g_heap g) \<inter> retired_ids g = {}" "dom (g_heap g) \<inter> pending_ids g = {}" "retired_ids g \<inter> pending_ids g = {}"
  using assms unfolding registry_ok_def by blast+

lemmas id_defs = retired_ids_def pending_ids_def

lemma owned_ids: "(\<exists>d. owns g i d) \<longleftrightarrow> i \<in> dom (g_heap g) \<union> retired_ids g \<union> pending_ids g"
  by (force simp: owns_def id_defs)

lemma same_owners:
  assumes "owns g' = owns g" and "g_dirs g' = g_dirs g" and "g_serial g' = g_serial g" and "g_running g' \<subseteq> g_running g"
    and "dom (g_heap g') = dom (g_heap g)" and "g_retired g' = g_retired g" and "g_pending g' = g_pending g"
  shows "registry_ok digest g \<Longrightarrow> registry_ok digest g'"
  using assms unfolding registry_ok_def id_defs by auto

lemma dom_set_phase [simp]: "dom (g_heap (set_phase i ph g)) = dom (g_heap g)"
  by (auto simp: set_phase_def dom_def split: if_splits)

lemma ok_set_phase: "registry_ok digest g \<Longrightarrow> registry_ok digest (set_phase i ph g)"
proof -
  have o: "owns (set_phase i ph g) = owns g" by (intro ext) (auto simp: owns_def set_phase_def)
  show "registry_ok digest g \<Longrightarrow> registry_ok digest (set_phase i ph g)"
    by (rule same_owners [OF o]) (simp_all, simp_all add: set_phase_def)
qed

lemma ok_map: "registry_ok digest g \<Longrightarrow> registry_ok digest (g\<lparr>g_map := m\<rparr>)"
  by (rule same_owners) (auto simp: owns_def fun_eq_iff)

lemma ok_stopped: "registry_ok digest g \<Longrightarrow> registry_ok digest (g\<lparr>g_running := g_running g - R\<rparr>)"
  by (rule same_owners) (auto simp: owns_def fun_eq_iff)

lemma ok_share: "registry_ok digest g \<Longrightarrow> registry_ok digest (share i g)"
  by (simp add: share_def ok_set_phase split: option.split spool_phase.split)

lemma ok_drop: "registry_ok digest g \<Longrightarrow> registry_ok digest (drop_handle i g)"
  by (simp add: drop_handle_def ok_set_phase split: option.split spool_phase.split)

lemma ok_deleter_forget: "registry_ok digest g \<Longrightarrow> registry_ok digest (deleter_forget i g)"
  by (simp add: deleter_forget_def forget_def ok_set_phase ok_map split: option.split)

text \<open>Removing the directory of one id leaves the others'.\<close>

lemma dir_of_other:
  assumes "\<And>k. length (digest k) = 40" and "registry_ok digest g" and "owns g i d" and "owns g j e" and "i \<noteq> j"
  shows "e \<noteq> d"
proof -
  obtain k k' where "d = spoolDirName digest k i" "e = spoolDirName digest k' j"
    using registry_okD(3) [OF assms(2,3)] registry_okD(3) [OF assms(2,4)] by blast
  then show ?thesis using assms(5) spoolDirName_inj [where digest = digest and k = k and i = i and k' = k' and j = j, OF assms(1)] by metis
qed

text \<open>An operation by which the ids \<open>gone\<close> leave, with their directories.\<close>

lemma ok_leaving:
  assumes "\<And>k. length (digest k) = 40" and "registry_ok digest g"
    and "\<And>j e. owns g' j e \<Longrightarrow> owns g j e \<and> j \<notin> gone"
    and "g_dirs g' = g_dirs g - ds" and "\<And>d. d \<in> ds \<Longrightarrow> \<exists>i \<in> gone. owns g i d" and "g_serial g' = g_serial g"
    and "g_running g' \<subseteq> dom (g_heap g') \<union> retired_ids g'"
    and "distinct (map fst (g_pending g'))" and "distinct (map fst (g_retired g'))"
    and "dom (g_heap g') \<inter> retired_ids g' = {}" and "dom (g_heap g') \<inter> pending_ids g' = {}"
    and "retired_ids g' \<inter> pending_ids g' = {}"
  shows "registry_ok digest g'"
proof (rule registry_okI)
  fix j e
  assume "owns g' j e"
  then have j: "owns g j e" "j \<notin> gone" using assms(3) by blast+
  have "e \<notin> ds"
  proof
    assume "e \<in> ds"
    then obtain i where "i \<in> gone" "owns g i e" using assms(5) by blast
    then show False using dir_of_other [OF assms(1,2) _ j(1), of i e] j(2) by blast
  qed
  then show "e \<in> g_dirs g' \<and> j \<le> g_serial g' \<and> (\<exists>k. e = spoolDirName digest k j)"
    using registry_okD(1,2,3) [OF assms(2) j(1)] assms(4,6) by simp
qed (use assms in blast)+

lemma ok_enter:
  assumes "registry_ok digest g"
  shows "registry_ok digest (acquire_enter digest key made g)"
proof (cases made)
  case True
  let ?n = "Suc (g_serial g)"
  have n: "?n \<notin> dom (g_heap g) \<union> retired_ids g \<union> pending_ids g"
    using registry_okD(2) [OF assms, of ?n] owned_ids [of g ?n] by auto
  have o: "owns (acquire_enter digest key made g) i d
      \<longleftrightarrow> owns g i d \<or> i = ?n \<and> d = spoolDirName digest key ?n" for i d
    using True by (auto simp: owns_def acquire_enter_def Let_def)
  show ?thesis
  proof (rule registry_okI, unfold o)
    show "d \<in> g_dirs (acquire_enter digest key made g) \<and> i \<le> g_serial (acquire_enter digest key made g)
        \<and> (\<exists>k. d = spoolDirName digest k i)" if "owns g i d \<or> i = ?n \<and> d = spoolDirName digest key ?n" for i d
      using that registry_okD(1,2,3) [OF assms, of i d] True by (auto simp: acquire_enter_def Let_def)
  qed (use registry_okD(4-9) [OF assms] n True in \<open>auto simp: acquire_enter_def Let_def id_defs\<close>)
next
  case False
  have o: "owns (acquire_enter digest key made g) i d \<longleftrightarrow> owns g i d" for i d
    using False by (auto simp: owns_def acquire_enter_def Let_def)
  show ?thesis
  proof (rule registry_okI, unfold o)
    show "d \<in> g_dirs (acquire_enter digest key made g) \<and> i \<le> g_serial (acquire_enter digest key made g)
        \<and> (\<exists>k. d = spoolDirName digest k i)" if "owns g i d" for i d
      using registry_okD(1,2,3) [OF assms that] False by (auto simp: acquire_enter_def Let_def)
  qed (use registry_okD(4-9) [OF assms] False in \<open>auto simp: acquire_enter_def Let_def id_defs\<close>)
qed

lemma ok_leave:
  assumes "\<And>k. length (digest k) = 40" and "registry_ok digest g"
  shows "registry_ok digest (acquire_leave started g)"
proof (cases "g_pending g")
  case Nil
  then show ?thesis using assms by (simp add: acquire_leave_def)
next
  case (Cons p ps)
  obtain i k d where p: "p = (i, k, d)" by (cases p)
  note ok = registry_okD(4-9) [OF assms(2)]
  have own: "owns g i d" using Cons p by (auto simp: owns_def)
  have only: "i \<notin> dom (g_heap g)" "i \<notin> retired_ids g" "i \<notin> fst ` set ps"
    using ok Cons p by (auto simp: id_defs)
  show ?thesis
  proof (rule ok_leaving [OF assms, where gone = "if started then {} else {i}" and ds = "if started then {} else {d}"])
    show "owns g j e \<and> j \<notin> (if started then {} else {i})" if "owns (acquire_leave started g) j e" for j e
      using that Cons p only by (auto simp: owns_def acquire_leave_def id_defs image_iff split: if_splits)
  qed (use ok Cons p own only in \<open>auto simp: acquire_leave_def id_defs\<close>)
qed

lemma ok_destroy:
  assumes "\<And>k. length (digest k) = 40" and "registry_ok digest g"
  shows "registry_ok digest (destroy i g)"
proof (cases "g_heap g i")
  case None
  then show ?thesis using assms by (simp add: destroy_def)
next
  case (Some s)
  note ok = registry_okD(4-9) [OF assms(2)]
  have own: "owns g i (sp_dir s)" using Some by (simp add: owns_def)
  have only: "i \<notin> retired_ids g" "i \<notin> pending_ids g" using ok Some by auto
  let ?r = "i \<in> g_running g"
  show ?thesis
  proof (rule ok_leaving [OF assms, where gone = "if ?r then {} else {i}" and ds = "if ?r then {} else {sp_dir s}"])
    show "owns g j e \<and> j \<notin> (if ?r then {} else {i})" if "owns (destroy i g) j e" for j e
      using that Some only by (auto simp: owns_def destroy_def retire_def id_defs image_iff split: if_splits)
  qed (use ok Some own only in \<open>auto simp: destroy_def retire_def id_defs\<close>)
qed

lemma ok_collect:
  assumes "\<And>k. length (digest k) = 40" and "registry_ok digest g"
  shows "registry_ok digest (collectRetired g)"
proof -
  note ok = registry_okD(4-9) [OF assms(2)]
  define gone where "gone = retired_ids g - g_running g"
  have r: "retired_ids (collectRetired g) = retired_ids g \<inter> g_running g"
    by (force simp: collectRetired_def id_defs)
  show ?thesis
  proof (rule ok_leaving [OF assms, where gone = gone])
    show "owns g j e \<and> j \<notin> gone" if "owns (collectRetired g) j e" for j e
    proof -
      have "owns g j e" using that by (auto simp: owns_def collectRetired_def)
      moreover have "j \<in> dom (g_heap g) \<or> j \<in> pending_ids g \<or> j \<in> g_running g"
        using that by (force simp: owns_def collectRetired_def pending_ids_def)
      then have "j \<notin> gone" using ok(4,6) unfolding gone_def by blast
      ultimately show ?thesis by blast
    qed
    show "g_dirs (collectRetired g) = g_dirs g - snd ` set (filter (\<lambda>(i, d). i \<notin> g_running g) (g_retired g))"
      by (simp add: collectRetired_def)
    show "\<exists>i \<in> gone. owns g i d" if "d \<in> snd ` set (filter (\<lambda>(i, d). i \<notin> g_running g) (g_retired g))" for d
      using that by (force simp: owns_def gone_def id_defs)
  qed (use ok in \<open>unfold r, auto simp: collectRetired_def pending_ids_def distinct_map_filter\<close>)
qed

lemma ok_init: "registry_ok digest registry_init"
  by (simp add: registry_ok_def registry_init_def owns_def id_defs)

lemma ok_step:
  assumes "\<And>k. length (digest k) = 40" and "registry_step digest g g'" and "registry_ok digest g"
  shows "registry_ok digest g'"
  using assms(2)
  by cases (use assms(3) ok_enter [OF assms(3)] ok_leave [OF assms(1,3)] ok_destroy [OF assms(1,3)] ok_collect [OF assms(1,3)] in
    \<open>simp_all add: ok_share ok_drop ok_deleter_forget ok_stopped ok_map clear_map_def\<close>)

lemma reachable_ok:
  assumes "\<And>k. length (digest k) = 40" and "registry_reachable digest g"
  shows "registry_ok digest g"
  using assms(2) by induction (rule ok_init, rule ok_step [OF assms(1)])

text \<open>C24: spool_dirs_kept. Whatever the order in which threads share, acquire, drop and bury spools, and whenever
  fetchers stop: a fetcher whose thread has not exited still has its directory on disk, and no two acquisitions,
  spools or retired fetchers have one directory. A log that is reopened while its old fetcher winds up does not
  lose its files to the reaper.\<close>

theorem spool_dirs_kept:
  assumes "\<And>k. length (digest k) = 40" and "registry_reachable digest g"
  shows "(\<forall>i \<in> g_running g. \<exists>d. owns g i d \<and> d \<in> g_dirs g) \<and> (\<forall>i j d. owns g i d \<longrightarrow> owns g j d \<longrightarrow> i = j)"
proof -
  have ok: "registry_ok digest g" by (rule reachable_ok [OF assms])
  have "\<exists>d. owns g i d \<and> d \<in> g_dirs g" if "i \<in> g_running g" for i
    using that registry_okD(4) [OF ok] owned_ids [of g i] registry_okD(1) [OF ok] by blast
  then show ?thesis using dir_of_other [OF assms(1) ok] by blast
qed

section \<open>Sharing\<close>

lemma gui_is_reachable: "gui_reachable digest g \<Longrightarrow> registry_reachable digest g"
proof (induction rule: gui_reachable.induct)
  case (gui_drop g i)
  let ?g = "drop_handle i g"
  have d: "registry_reachable digest ?g" using gui_drop.IH step_drop by (rule reach_step)
  show ?case
  proof (cases "\<exists>s. g_heap ?g i = Some s \<and> sp_phase s = Dropped")
    case True
    then obtain s where s: "g_heap ?g i = Some s" "sp_phase s = Dropped" by blast
    have f: "registry_reachable digest (deleter_forget i ?g)" using d step_forget [OF s] by (rule reach_step)
    have "g_heap (deleter_forget i ?g) i = Some (s\<lparr>sp_phase := Forgotten\<rparr>)"
      using s by (simp add: deleter_forget_def set_phase_def forget_def)
    then have "registry_reachable digest (destroy i (deleter_forget i ?g))"
      using step_destroy [of "deleter_forget i ?g" i] by (intro reach_step [OF f]) simp
    then show ?thesis using s by (simp add: drop_whole_def)
  next
    case False
    then have "drop_whole i g = ?g" by (auto simp: drop_whole_def Let_def split: option.split)
    then show ?thesis using d by simp
  qed
qed (rule reach_init, (erule reach_step, rule registry_step.intros, assumption?)+)

definition pending_keys :: "'k registry \<Rightarrow> 'k list" where
  "pending_keys g = map (\<lambda>(i, k, d). k) (g_pending g)"

text \<open>The map and the heap agree, and a key under acquisition is in neither.\<close>

definition gui_ok :: "'k registry \<Rightarrow> bool" where
  "gui_ok g \<longleftrightarrow>
     (\<forall>i s. g_heap g i = Some s \<longrightarrow> (\<exists>n. sp_phase s = Held n \<and> 0 < n) \<and> g_map g (sp_key s) = Some i)
     \<and> (\<forall>k i. g_map g k = Some i \<longrightarrow> (\<exists>s. g_heap g i = Some s \<and> sp_key s = k))
     \<and> (\<forall>k \<in> set (pending_keys g). g_map g k = None) \<and> distinct (pending_keys g)"

lemma gui_okI:
  assumes "\<And>i s. g_heap g i = Some s \<Longrightarrow> (\<exists>n. sp_phase s = Held n \<and> 0 < n) \<and> g_map g (sp_key s) = Some i"
    and "\<And>k i. g_map g k = Some i \<Longrightarrow> \<exists>s. g_heap g i = Some s \<and> sp_key s = k"
    and "\<And>k. k \<in> set (pending_keys g) \<Longrightarrow> g_map g k = None" and "distinct (pending_keys g)"
  shows "gui_ok g"
  using assms unfolding gui_ok_def by blast

lemma gui_okD:
  assumes "gui_ok g"
  shows "g_heap g i = Some s \<Longrightarrow> \<exists>n. sp_phase s = Held n \<and> 0 < n" "g_heap g i = Some s \<Longrightarrow> g_map g (sp_key s) = Some i"
    "g_map g k = Some i \<Longrightarrow> \<exists>s. g_heap g i = Some s \<and> sp_key s = k"
    "k \<in> set (pending_keys g) \<Longrightarrow> g_map g k = None" "distinct (pending_keys g)"
  using assms unfolding gui_ok_def by blast+

lemma gui_find:
  assumes "gui_ok g"
  shows "find_spool g key = g_map g key"
proof (cases "g_map g key")
  case (Some i)
  then obtain s n where "g_heap g i = Some s" "sp_phase s = Held n" using gui_okD(1,3) [OF assms] by blast
  then show ?thesis using Some by (simp add: find_spool_def held_def)
qed (simp add: find_spool_def)

lemma gui_ok_phase:
  assumes "gui_ok g" and "0 < n"
  shows "gui_ok (set_phase i (Held n) g)"
proof (rule gui_okI)
  show "\<exists>s. g_heap (set_phase i (Held n) g) j = Some s \<and> sp_key s = k" if "g_map (set_phase i (Held n) g) k = Some j" for j k
    using that gui_okD(3) [OF assms(1), of k j] by (auto simp: set_phase_def)
qed (use gui_okD [OF assms(1)] assms(2) in \<open>auto simp: set_phase_def pending_keys_def split: if_splits\<close>)

lemma gui_ok_share: "gui_ok g \<Longrightarrow> gui_ok (share i g)"
  by (simp add: share_def gui_ok_phase split: option.split spool_phase.split)

lemma gui_ok_drop:
  assumes ok: "gui_ok g"
  shows "gui_ok (drop_whole i g)"
proof (cases "g_heap g i")
  case None
  then show ?thesis using ok by (simp add: drop_whole_def drop_handle_def)
next
  case (Some s)
  then obtain n where n: "sp_phase s = Held n" "0 < n" "g_map g (sp_key s) = Some i"
    using gui_okD(1,2) [OF ok] by blast
  show ?thesis
  proof (cases "n \<le> 1")
    case True
    let ?d = "destroy i (deleter_forget i (drop_handle i g))"
    have w: "drop_whole i g = ?d" using Some n True by (simp add: drop_whole_def drop_handle_def set_phase_def)
    have e: "g_heap ?d = (g_heap g)(i := None)" "g_map ?d = (g_map g)(sp_key s := None)" "g_pending ?d = g_pending g"
      using Some n True
      by (auto simp: destroy_def deleter_forget_def drop_handle_def set_phase_def forget_def retire_def)
    show ?thesis
    proof (rule gui_okI, unfold w e)
      show "(\<exists>n. sp_phase s' = Held n \<and> 0 < n) \<and> ((g_map g)(sp_key s := None)) (sp_key s') = Some j"
        if "((g_heap g)(i := None)) j = Some s'" for j s'
        using that gui_okD(1,2) [OF ok, of j s'] n(3) by (auto split: if_splits)
      show "\<exists>s'. ((g_heap g)(i := None)) j = Some s' \<and> sp_key s' = k"
        if "((g_map g)(sp_key s := None)) k = Some j" for j k
        using that gui_okD(3) [OF ok, of k j] Some by (auto split: if_splits)
    qed (use gui_okD(4,5) [OF ok] e(3) in \<open>simp_all add: pending_keys_def\<close>)
  next
    case False
    then have "drop_whole i g = set_phase i (Held (n - 1)) g"
      using Some n by (simp add: drop_whole_def drop_handle_def set_phase_def)
    then show ?thesis using gui_ok_phase [OF ok] False by simp
  qed
qed

lemma gui_ok_leave:
  assumes ok: "gui_ok g" and "registry_ok digest g"
  shows "gui_ok (acquire_leave started g)"
proof (cases "g_pending g")
  case Nil
  then show ?thesis using ok by (simp add: acquire_leave_def)
next
  case (Cons p ps)
  obtain i k d where p: "p = (i, k, d)" by (cases p)
  have i: "g_heap g i = None" using registry_okD(8) [OF assms(2)] Cons p by (auto simp: id_defs)
  have k: "g_map g k = None" "k \<notin> set (map (\<lambda>(i, k, d). k) ps)" "distinct (map (\<lambda>(i, k, d). k) ps)"
    using gui_okD(4,5) [OF ok] Cons p by (auto simp: pending_keys_def)
  have nk: "sp_key s \<noteq> k" if "g_heap g j = Some s" for j s using gui_okD(2) [OF ok that] k(1) by auto
  have ni: "g_map g k' \<noteq> Some i" for k' using gui_okD(3) [OF ok, of k' i] i by auto
  have rest: "g_map g k' = None" if "k' \<in> set (map (\<lambda>(i, k, d). k) ps)" for k'
    using gui_okD(4) [OF ok, of k'] that Cons by (simp add: pending_keys_def)
  show ?thesis
  proof (cases started)
    case True
    have e: "g_heap (acquire_leave started g) = (g_heap g)(i \<mapsto> \<lparr>sp_key = k, sp_dir = d, sp_phase = Held 1\<rparr>)"
      "g_map (acquire_leave started g) = (g_map g)(k \<mapsto> i)" "pending_keys (acquire_leave started g) = map (\<lambda>(i, k, d). k) ps"
      using True Cons p by (simp_all add: acquire_leave_def pending_keys_def)
    show ?thesis
    proof (rule gui_okI, unfold e)
      show "(\<exists>n. sp_phase s = Held n \<and> 0 < n) \<and> ((g_map g)(k \<mapsto> i)) (sp_key s) = Some j"
        if "((g_heap g)(i \<mapsto> \<lparr>sp_key = k, sp_dir = d, sp_phase = Held 1\<rparr>)) j = Some s" for j s
        using that gui_okD(1,2) [OF ok, of j s] nk [of j s] by (auto split: if_splits)
      show "\<exists>s. ((g_heap g)(i \<mapsto> \<lparr>sp_key = k, sp_dir = d, sp_phase = Held 1\<rparr>)) j = Some s \<and> sp_key s = k'"
        if "((g_map g)(k \<mapsto> i)) k' = Some j" for j k'
        using that gui_okD(3) [OF ok, of k' j] i by (auto split: if_splits)
      show "((g_map g)(k \<mapsto> i)) k' = None" if "k' \<in> set (map (\<lambda>(i, k, d). k) ps)" for k'
        using rest [OF that] that k(2) by (metis fun_upd_other)
    qed (rule k(3))
  next
    case False
    have e: "g_heap (acquire_leave started g) = g_heap g" "g_map (acquire_leave started g) = g_map g"
      "pending_keys (acquire_leave started g) = map (\<lambda>(i, k, d). k) ps"
      using False Cons p by (simp_all add: acquire_leave_def pending_keys_def)
    show ?thesis by (rule gui_okI, unfold e) (use gui_okD(1,2,3) [OF ok] rest k(3) in blast)+
  qed
qed

lemma gui_reachable_ok:
  assumes "\<And>k. length (digest k) = 40" and "gui_reachable digest g"
  shows "gui_ok g"
  using assms(2)
proof (induction rule: gui_reachable.induct)
  case gui_init
  show ?case by (simp add: gui_ok_def registry_init_def pending_keys_def)
next
  case (gui_enter g key made)
  then have "g_map g key = None" using gui_find by metis
  then show ?case using gui_enter
    by (auto simp: gui_ok_def acquire_enter_def Let_def pending_keys_def)
next
  case (gui_leave g started)
  then show ?case using gui_ok_leave [OF gui_leave.IH reachable_ok [OF assms(1) gui_is_reachable [OF gui_leave.hyps(1)]]] by simp
next
  case (gui_stopped g i)
  then show ?case by (simp add: gui_ok_def pending_keys_def)
next
  case (gui_collect g)
  then show ?case by (simp add: gui_ok_def pending_keys_def collectRetired_def)
qed (auto intro: gui_ok_share gui_ok_drop)

text \<open>C25: one_spool_per_log. As long as handles are dropped on the thread that acquires, two tabs on one log share one
  spool: of the spools that are held no two have one key, each is what its key finds, and a key is found exactly
  while its spool is held.\<close>

theorem one_spool_per_log:
  assumes "\<And>k. length (digest k) = 40" and "gui_reachable digest g"
  shows "find_spool g key = Some i \<longleftrightarrow> held g i \<and> map_option sp_key (g_heap g i) = Some key"
proof -
  have ok: "gui_ok g" by (rule gui_reachable_ok [OF assms])
  show ?thesis
  proof
    assume "find_spool g key = Some i"
    then have "g_map g key = Some i" by (simp add: gui_find [OF ok])
    then obtain s n where "g_heap g i = Some s" "sp_key s = key" "sp_phase s = Held n"
      using gui_okD(1,3) [OF ok] by blast
    then show "held g i \<and> map_option sp_key (g_heap g i) = Some key" by (simp add: held_def)
  next
    assume "held g i \<and> map_option sp_key (g_heap g i) = Some key"
    then show "find_spool g key = Some i" using gui_okD(2) [OF ok] by (auto simp: gui_find [OF ok])
  qed
qed

definition sha :: "string \<Rightarrow> string" where
  "sha key = replicate 40 (CHR ''0'')"

lemma sha_length: "length (sha key) = 40"
  by (simp add: sha_def)

text \<open>Acquire and start one log.\<close>

definition open_log :: "string \<Rightarrow> string registry \<Rightarrow> string registry" where
  "open_log key g = acquire_leave True (acquire_enter sha key True g)"

lemma open_log_gui:
  "gui_reachable sha g \<Longrightarrow> find_spool g key = None \<Longrightarrow> g_pending g = [] \<Longrightarrow> gui_reachable sha (open_log key g)"
  unfolding open_log_def by (intro gui_leave gui_enter) simp_all

lemma open_log_reachable:
  "registry_reachable sha g \<Longrightarrow> find_spool g key = None \<Longrightarrow> registry_reachable sha (open_log key g)"
  unfolding open_log_def by (blast intro: reach_step step_leave step_enter)

text \<open>A tab is opened, closed while its fetcher runs, and opened again.\<close>

definition reopened :: "string registry" where
  "reopened = open_log ''ssh://h/l'' (drop_whole 1 (open_log ''ssh://h/l'' registry_init))"

theorem spool_dirs_kept_witness:
  "g_running reopened = {1, 2} \<and> g_retired reopened = [(1, spoolDirName sha ''ssh://h/l'' 1)]
   \<and> (\<exists>d. owns reopened 1 d \<and> d \<in> g_dirs reopened)"
proof -
  have "gui_reachable sha (open_log ''ssh://h/l'' registry_init)"
    by (rule open_log_gui [OF gui_init]) (simp_all add: find_spool_def registry_init_def)
  then have "registry_reachable sha (drop_whole 1 (open_log ''ssh://h/l'' registry_init))"
    by (intro gui_is_reachable gui_drop)
  then have r: "registry_reachable sha reopened" unfolding reopened_def
    by (rule open_log_reachable)
      (simp add: find_spool_def open_log_def drop_whole_def drop_handle_def deleter_forget_def destroy_def retire_def forget_def
        set_phase_def acquire_leave_def acquire_enter_def Let_def registry_init_def)
  have s: "g_running reopened = {1, 2}" "g_retired reopened = [(1, spoolDirName sha ''ssh://h/l'' 1)]"
    by (auto simp: reopened_def open_log_def drop_whole_def drop_handle_def deleter_forget_def destroy_def retire_def forget_def
        set_phase_def acquire_leave_def acquire_enter_def Let_def registry_init_def)
  then show ?thesis using spool_dirs_kept [OF sha_length r] by blast
qed

theorem one_spool_per_log_witness:
  "find_spool (share 1 (open_log ''ssh://h/l'' registry_init)) ''ssh://h/l'' = Some 1
   \<and> held (share 1 (open_log ''ssh://h/l'' registry_init)) 1"
proof -
  let ?g = "open_log ''ssh://h/l'' registry_init"
  have r: "gui_reachable sha ?g"
    by (rule open_log_gui [OF gui_init]) (simp_all add: find_spool_def registry_init_def)
  have f: "find_spool ?g ''ssh://h/l'' = Some 1"
    by (simp add: find_spool_def held_def open_log_def acquire_leave_def acquire_enter_def Let_def registry_init_def)
  have "map_option sp_key (g_heap (share 1 ?g) 1) = Some ''ssh://h/l''" "held (share 1 ?g) 1"
    by (simp_all add: held_def share_def set_phase_def open_log_def acquire_leave_def acquire_enter_def Let_def registry_init_def)
  then show ?thesis using one_spool_per_log [OF sha_length gui_share [OF r f]] by blast
qed

text \<open>C26: spool_shared_no_more. With handles dropped on another thread, as a fetcher of an archive drops the container's,
  a log can get two spools at once, each with a fetcher of its own: between the last handle going and the
  deleter's call of forget the log is opened again, the deleter then forgets the new spool, and the next open finds
  none.\<close>

theorem spool_shared_no_more:
  "\<exists>g i j. registry_reachable sha g \<and> i \<noteq> j \<and> held g i \<and> held g j \<and> {i, j} \<subseteq> g_running g
     \<and> map_option sp_key (g_heap g i) = Some ''k'' \<and> map_option sp_key (g_heap g j) = Some ''k''
     \<and> g_pending g = [] \<and> g_map g ''k'' = Some j"
proof -
  note defs = find_spool_def held_def open_log_def drop_handle_def deleter_forget_def forget_def set_phase_def
    acquire_leave_def acquire_enter_def Let_def registry_init_def
  let ?a = "drop_handle 1 (open_log ''k'' registry_init)"
  let ?b = "deleter_forget 1 (open_log ''k'' ?a)"
  let ?c = "open_log ''k'' ?b"
  have "registry_reachable sha (open_log ''k'' registry_init)"
    by (rule open_log_reachable [OF reach_init]) (simp add: defs)
  then have "registry_reachable sha ?a" by (rule reach_step [OF _ step_drop])
  then have n: "registry_reachable sha (open_log ''k'' ?a)" by (rule open_log_reachable) (simp add: defs)
  obtain s where s: "g_heap (open_log ''k'' ?a) 1 = Some s" "sp_phase s = Dropped" by (simp add: defs)
  have "registry_reachable sha ?b" using n step_forget [OF s] by (rule reach_step)
  then have "registry_reachable sha ?c" by (rule open_log_reachable) (simp add: defs)
  moreover have "held ?c 2 \<and> held ?c 3 \<and> {2, 3} \<subseteq> g_running ?c \<and> map_option sp_key (g_heap ?c 2) = Some ''k''
      \<and> map_option sp_key (g_heap ?c 3) = Some ''k'' \<and> g_pending ?c = [] \<and> g_map ?c ''k'' = Some 3"
    by (simp add: defs)
  moreover have "(2 :: nat) \<noteq> 3" by simp
  ultimately show ?thesis by blast
qed

text \<open>At the end of the program: what is still running keeps its object, and its directory goes all the same.\<close>

lemma shutdown_removes: "fst ` set (g_retired g) \<subseteq> g_abandoned (shutdown g) \<and> g_dirs (shutdown g) = {}"
  by (simp add: shutdown_def abandon_def clear_map_def)

end
