(* ===== verification/SpoolSource.thy ===== *)
theory SpoolSource
  imports Sources Policies Spools
begin

text \<open>
  \<open>src/core/SpooledLogSource\<close> and the status of \<open>SourceFetcher.h\<close>: a log read through the local file that a fetcher on
  another thread is filling. The status a fetcher publishes and the files of its spool directory, as they are at the
  call, are the arguments of the operations; the local source over a file is the mapped one.
\<close>

section \<open>What a fetcher publishes\<close>

datatype fetch_state = FIdle | FConnecting | FPriming | FLive | FError | FDisconnected | FWaiting | FComplete

record fetch_status =
  f_state :: fetch_state
  f_generation :: "64 word"
  f_committed :: int
  f_baseOffset :: int
  f_totalSize :: int
  f_error :: string
  f_retryAtMs :: int

definition fetchStateName :: "fetch_state \<Rightarrow> string" where
  "fetchStateName s = (case s of
     FIdle \<Rightarrow> ''idle'' | FConnecting \<Rightarrow> ''connecting'' | FPriming \<Rightarrow> ''priming'' | FLive \<Rightarrow> ''live'' | FError \<Rightarrow> ''error''
   | FDisconnected \<Rightarrow> ''disconnected'' | FWaiting \<Rightarrow> ''waiting'' | FComplete \<Rightarrow> ''complete'')"

text \<open>The files of a spool directory: for each generation that has one, its identity and content.\<close>

type_synonym spool_files = "64 word \<Rightarrow> (64 word \<times> bytes) option"

section \<open>The source\<close>

record spooled_source =
  ss_inner :: "mapped_source option"
  ss_size :: int
  ss_generation :: "64 word"
  ss_truncated :: bool

definition spooled_empty :: spooled_source where
  "spooled_empty = \<lparr>ss_inner = None, ss_size = 0, ss_generation = 0, ss_truncated = False\<rparr>"

definition adoptGeneration :: "64 word \<Rightarrow> spool_files \<Rightarrow> spooled_source \<Rightarrow> spooled_source" where
  "adoptGeneration gen files s =
     s\<lparr>ss_generation := gen,
       ss_inner := (case files gen of
                      None \<Rightarrow> None
                    | Some (ident, content) \<Rightarrow> mapped_open (\<lambda>_. True) (Some (int (length content), ident)) content)\<rparr>"

definition inner_size :: "spooled_source \<Rightarrow> int" where
  "inner_size s = (case ss_inner s of None \<Rightarrow> 0 | Some i \<Rightarrow> ms_mappedSize i)"

definition spooled_open :: "fetch_status \<Rightarrow> spool_files \<Rightarrow> spooled_source" where
  "spooled_open st files =
     (let s = adoptGeneration (f_generation st) files spooled_empty
      in s\<lparr>ss_size := min (inner_size s) (f_committed st), ss_truncated := False\<rparr>)"

text \<open>Refreshing the local source: the file it holds, under the name of its generation.\<close>

definition refresh_inner :: "spool_files \<Rightarrow> spooled_source \<Rightarrow> spooled_source" where
  "refresh_inner files s =
     (case ss_inner s of
        None \<Rightarrow> s
      | Some i \<Rightarrow>
          (case files (ss_generation s) of
             None \<Rightarrow> s\<lparr>ss_inner := Some (mapped_refreshSize (\<lambda>_. True) i None [])\<rparr>
           | Some (ident, content) \<Rightarrow>
               s\<lparr>ss_inner := Some (mapped_refreshSize (\<lambda>_. True) i (Some (int (length content), ident)) content)\<rparr>))"

definition spooled_refresh :: "fetch_status \<Rightarrow> spool_files \<Rightarrow> spooled_source \<Rightarrow> spooled_source" where
  "spooled_refresh st files s =
     (let s1 = (if f_generation st \<noteq> ss_generation s
                then (adoptGeneration (f_generation st) files s)\<lparr>ss_truncated := True, ss_size := 0\<rparr> else s);
          s2 = refresh_inner files s1;
          visible = min (inner_size s2) (f_committed st);
          s3 = (if visible < ss_size s2 then s2\<lparr>ss_truncated := True\<rparr> else s2)
      in s3\<lparr>ss_size := visible\<rparr>)"

definition spooled_bytes :: "spooled_source \<Rightarrow> spool_files \<Rightarrow> int \<Rightarrow> int \<Rightarrow> bytes" where
  "spooled_bytes s files off len =
     (case ss_inner s of
        None \<Rightarrow> []
      | Some i \<Rightarrow>
          if off < 0 \<or> len \<le> 0 \<or> ss_size s \<le> off then []
          else (case files (ss_generation s) of
                  None \<Rightarrow> []
                | Some (ident, content) \<Rightarrow> mapped_bytes i content off (min len (ss_size s - off))))"

definition spooled_wasReplaced :: "fetch_status \<Rightarrow> spooled_source \<Rightarrow> bool" where
  "spooled_wasReplaced st s \<longleftrightarrow> f_generation st \<noteq> ss_generation s"

definition spooled_originVanished :: "fetch_status \<Rightarrow> bool" where
  "spooled_originVanished st \<longleftrightarrow> f_state st = FWaiting"

definition spooled_notReadyYet :: "fetch_status \<Rightarrow> bool" where
  "spooled_notReadyYet st \<longleftrightarrow>
     (if 0 < f_committed st then False
      else (case f_state st of
              FIdle \<Rightarrow> True | FConnecting \<Rightarrow> True | FPriming \<Rightarrow> True | FError \<Rightarrow> True
            | FLive \<Rightarrow> False | FComplete \<Rightarrow> False | FDisconnected \<Rightarrow> False | FWaiting \<Rightarrow> False))"

definition spooled_isDelivering :: "fetch_status \<Rightarrow> bool" where
  "spooled_isDelivering st \<longleftrightarrow>
     (case f_state st of
        FLive \<Rightarrow> True | FComplete \<Rightarrow> True
      | FWaiting \<Rightarrow> False | FError \<Rightarrow> False | FIdle \<Rightarrow> False | FConnecting \<Rightarrow> False | FPriming \<Rightarrow> False | FDisconnected \<Rightarrow> False)"

definition spooled_isComplete :: "fetch_status \<Rightarrow> bool" where
  "spooled_isComplete st \<longleftrightarrow> f_state st = FComplete"

text \<open>The line of the status bar. \<open>opening\<close> is the name of the container for a path inside one.\<close>

datatype status_text =
    NothingToSay
  | Trouble "string \<times> int option"
  | ConnectingText
  | OpeningText string
  | Progress bool int "int option"

definition sourceStatusText :: "string option \<Rightarrow> string \<Rightarrow> int \<Rightarrow> fetch_status \<Rightarrow> status_text" where
  "sourceStatusText opening display nowMs st =
     (case f_state st of
        FIdle \<Rightarrow> NothingToSay | FLive \<Rightarrow> NothingToSay | FComplete \<Rightarrow> NothingToSay | FDisconnected \<Rightarrow> NothingToSay
      | FError \<Rightarrow> Trouble (retryCountdown (f_error st) (f_retryAtMs st) nowMs)
      | FWaiting \<Rightarrow>
          Trouble (retryCountdown
            (if f_error st = [] then ''Waiting for '' @ display @ '' to appear'' else f_error st) (f_retryAtMs st) nowMs)
      | FConnecting \<Rightarrow> (case opening of None \<Rightarrow> ConnectingText | Some name \<Rightarrow> OpeningText name)
      | FPriming \<Rightarrow> Progress (opening \<noteq> None) (f_committed st)
                     (if f_committed st < f_totalSize st then Some (f_totalSize st) else None))"

section \<open>Following a fetcher\<close>

text \<open>
  What a fetcher promises. It publishes a generation when its file exists, and a size when the bytes are written; a
  file only grows, and an old generation's stands; within a generation the published size does not fall; and
  after \<open>Complete\<close> nothing more comes. A moment is a status and the files at that time.
\<close>

record moment_of_spool =
  m_status :: fetch_status
  m_files :: spool_files

definition published :: "moment_of_spool \<Rightarrow> bool" where
  "published a \<longleftrightarrow>
     0 \<le> f_committed (m_status a) \<and>
     (case m_files a (f_generation (m_status a)) of
        None \<Rightarrow> f_generation (m_status a) = 0 \<and> f_committed (m_status a) = 0
      | Some (ident, content) \<Rightarrow> f_committed (m_status a) \<le> int (length content)
          \<and> (f_state (m_status a) = FComplete \<longrightarrow> f_committed (m_status a) = int (length content)))"

definition files_grow :: "spool_files \<Rightarrow> spool_files \<Rightarrow> bool" where
  "files_grow f f' \<longleftrightarrow> (\<forall>g ident content. f g = Some (ident, content) \<longrightarrow> (\<exists>more. f' g = Some (ident, content @ more)))
     \<and> f 0 = None \<and> f' 0 = None"

definition advances :: "moment_of_spool \<Rightarrow> moment_of_spool \<Rightarrow> bool" where
  "advances a b \<longleftrightarrow>
     published a \<and> published b \<and> files_grow (m_files a) (m_files b)
     \<and> (f_generation (m_status a) = f_generation (m_status b) \<longrightarrow> f_committed (m_status a) \<le> f_committed (m_status b))
     \<and> (f_state (m_status a) = FComplete \<longrightarrow>
          f_generation (m_status b) = f_generation (m_status a) \<and>
          m_files b (f_generation (m_status a)) = m_files a (f_generation (m_status a)))"

text \<open>The bytes a moment vouches for.\<close>

definition vouched :: "moment_of_spool \<Rightarrow> bytes" where
  "vouched a = (case m_files a (f_generation (m_status a)) of
                  None \<Rightarrow> [] | Some (ident, content) \<Rightarrow> take (nat (f_committed (m_status a))) content)"

text \<open>A source opened, and refreshed again and again. Each takes the status first, and the file a little later.\<close>

inductive spooled_follows :: "spooled_source \<Rightarrow> moment_of_spool \<Rightarrow> moment_of_spool \<Rightarrow> bool" where
  follows_open: "advances a b \<Longrightarrow> spooled_follows (spooled_open (m_status a) (m_files b)) a b"
| follows_refresh: "spooled_follows s a b \<Longrightarrow> advances b c \<Longrightarrow> advances c d \<Longrightarrow>
    spooled_follows (spooled_refresh (m_status c) (m_files d) s) c d"

fun inner_fits :: "mapped_source option \<Rightarrow> (64 word \<times> bytes) option \<Rightarrow> bool" where
  "inner_fits None None \<longleftrightarrow> True"
| "inner_fits (Some i) (Some (ident, content)) \<longleftrightarrow>
     ms_mappedSize i = int (length content) \<and> (ms_mapped i \<longleftrightarrow> content \<noteq> [])"
| "inner_fits _ _ \<longleftrightarrow> False"

fun_cases inner_fits_someE: "inner_fits i (Some (ident, content))"

lemma open_fits: "inner_fits (mapped_open (\<lambda>_. True) (Some (int (length content), ident)) content) (Some (ident, content))"
  by (auto simp: mapped_open_def remap_def unmap_def Let_def)

lemma refresh_fits:
  assumes "ms_mappedSize i = int (length old)" and "ms_mapped i \<longleftrightarrow> old \<noteq> []"
  shows "inner_fits (Some (mapped_refreshSize (\<lambda>_. True) i (Some (int (length content), ident)) content)) (Some (ident, content))"
  using assms by (auto simp: mapped_refreshSize_def remap_def unmap_def Let_def)

definition source_fits :: "spooled_source \<Rightarrow> moment_of_spool \<Rightarrow> moment_of_spool \<Rightarrow> bool" where
  "source_fits s a b \<longleftrightarrow>
     advances a b \<and> ss_generation s = f_generation (m_status a) \<and> ss_size s = f_committed (m_status a)
     \<and> inner_fits (ss_inner s) (m_files b (ss_generation s))"

lemma adopted_fits: "inner_fits (ss_inner (adoptGeneration gen files s)) (files gen)"
  by (cases "files gen") (auto simp: adoptGeneration_def open_fits simp del: inner_fits.simps(2))

text \<open>The local source sees at least what was published before it was asked.\<close>

lemma visible_committed:
  assumes "advances a b" and "inner_fits (ss_inner s) (m_files b (f_generation (m_status a)))"
  shows "min (inner_size s) (f_committed (m_status a)) = f_committed (m_status a)"
proof (cases "m_files a (f_generation (m_status a))")
  case None
  then have "f_committed (m_status a) = 0" using assms(1) by (auto simp: advances_def published_def)
  moreover have "0 \<le> inner_size s"
    using assms(2) by (auto simp: inner_size_def elim!: inner_fits.elims)
  ultimately show ?thesis by simp
next
  case (Some p)
  obtain ident content where p: "p = (ident, content)" by (cases p)
  obtain more where m: "m_files b (f_generation (m_status a)) = Some (ident, content @ more)"
    using assms(1) Some p unfolding advances_def files_grow_def by blast
  have "f_committed (m_status a) \<le> int (length content)"
    using assms(1) Some p by (simp add: advances_def published_def)
  then show ?thesis using assms(2) m by (auto simp: inner_size_def elim!: inner_fits_someE)
qed

lemma opened_fits:
  assumes "advances a b"
  shows "source_fits (spooled_open (m_status a) (m_files b)) a b"
proof -
  let ?s = "adoptGeneration (f_generation (m_status a)) (m_files b) spooled_empty"
  have f: "inner_fits (ss_inner ?s) (m_files b (f_generation (m_status a)))" by (rule adopted_fits)
  show ?thesis
    using f visible_committed [OF assms f] assms
    by (simp add: source_fits_def spooled_open_def Let_def adoptGeneration_def inner_size_def)
qed

lemma refresh_inner_fits:
  assumes "inner_fits (ss_inner s) (files (ss_generation s))" and "files_grow files files'"
    and "files (ss_generation s) = None \<Longrightarrow> ss_generation s = 0"
  shows "inner_fits (ss_inner (refresh_inner files' s)) (files' (ss_generation s))"
proof (cases "files (ss_generation s)")
  case None
  then have "ss_inner s = None" "files' (ss_generation s) = None"
    using assms by (auto simp: files_grow_def elim!: inner_fits.elims)
  then show ?thesis by (simp add: refresh_inner_def)
next
  case (Some p)
  obtain ident content where p: "p = (ident, content)" by (cases p)
  obtain more where m: "files' (ss_generation s) = Some (ident, content @ more)"
    using assms(2) Some p unfolding files_grow_def by blast
  obtain i where i: "ss_inner s = Some i" "ms_mappedSize i = int (length content)" "ms_mapped i \<longleftrightarrow> content \<noteq> []"
    using assms(1) Some p by (auto elim!: inner_fits_someE)
  show ?thesis using refresh_fits [OF i(2,3), of "content @ more" ident] m i(1) by (simp add: refresh_inner_def)
qed

lemma refresh_inner_rest [simp]:
  "ss_generation (refresh_inner files s) = ss_generation s" "ss_size (refresh_inner files s) = ss_size s"
  "ss_truncated (refresh_inner files s) = ss_truncated s"
  by (simp_all add: refresh_inner_def split: option.split prod.split)

lemma refreshed_fits:
  assumes "source_fits s a b" and "advances b c" and "advances c d"
  shows "source_fits (spooled_refresh (m_status c) (m_files d) s) c d"
proof -
  let ?g = "f_generation (m_status c)"
  let ?s1 = "if ?g \<noteq> ss_generation s then (adoptGeneration ?g (m_files d) s)\<lparr>ss_truncated := True, ss_size := 0\<rparr> else s"
  let ?s2 = "refresh_inner (m_files d) ?s1"
  have g1: "ss_generation ?s1 = ?g" by (simp add: adoptGeneration_def)
  have f: "inner_fits (ss_inner ?s2) (m_files d ?g)"
  proof (cases "?g = ss_generation s")
    case True
    have "inner_fits (ss_inner s) (m_files b (ss_generation s))" using assms(1) unfolding source_fits_def by metis
    moreover have "files_grow (m_files b) (m_files d)"
      using assms(2,3) unfolding advances_def files_grow_def by (metis append.assoc)
    moreover have "ss_generation s = 0" if "m_files b (ss_generation s) = None"
    proof -
      have "m_files a (ss_generation s) = None"
        using assms(1) that unfolding source_fits_def advances_def files_grow_def by (metis not_Some_eq surj_pair option.distinct(1))
      then show ?thesis using assms(1) by (auto simp: source_fits_def advances_def published_def)
    qed
    ultimately show ?thesis using refresh_inner_fits [of s "m_files b" "m_files d"] True by simp
  next
    case False
    have "files_grow (m_files d) (m_files d)" using assms(3) unfolding advances_def files_grow_def by (metis append_Nil2)
    moreover have "?g = 0" if "m_files d ?g = None"
    proof -
      have "m_files c ?g = None"
        using assms(3) that unfolding advances_def files_grow_def by (metis not_Some_eq surj_pair option.distinct(1))
      then show ?thesis using assms(3) by (auto simp: advances_def published_def)
    qed
    moreover have "inner_fits (ss_inner ?s1) (m_files d ?g)" using False adopted_fits by simp
    ultimately show ?thesis using refresh_inner_fits [of ?s1 "m_files d" "m_files d"] g1 by simp
  qed
  have v: "min (inner_size ?s2) (f_committed (m_status c)) = f_committed (m_status c)"
    by (rule visible_committed [OF assms(3) f])
  show ?thesis
    using f v g1 assms(3) by (simp add: source_fits_def spooled_refresh_def Let_def inner_size_def)
qed

lemma follows_fits: "spooled_follows s a b \<Longrightarrow> source_fits s a b"
  by (induction rule: spooled_follows.induct) (rule opened_fits, assumption, rule refreshed_fits)

lemma vouched_length:
  assumes "published a"
  shows "int (length (vouched a)) = f_committed (m_status a)"
  using assms by (auto simp: published_def vouched_def split: option.splits prod.splits)

text \<open>Reading at a later moment.\<close>

lemma fitting_read:
  assumes "source_fits s a b" and "advances b e"
  shows "spooled_bytes s (m_files e) (int pos) (int want) = take want (drop pos (vouched a))"
proof -
  let ?g = "ss_generation s"
  have g: "?g = f_generation (m_status a)" "ss_size s = f_committed (m_status a)" and ab: "advances a b"
    and fit: "inner_fits (ss_inner s) (m_files b ?g)" using assms(1) unfolding source_fits_def by metis+
  have len: "int (length (vouched a)) = f_committed (m_status a)" using ab by (intro vouched_length) (simp add: advances_def)
  show ?thesis
  proof (cases "m_files a ?g")
    case None
    then have "f_committed (m_status a) = 0" using ab g(1) by (auto simp: advances_def published_def)
    then show ?thesis using g len by (simp add: spooled_bytes_def split: option.split)
  next
    case (Some p)
    obtain ident content where p: "p = (ident, content)" by (cases p)
    obtain m1 where m1: "m_files b ?g = Some (ident, content @ m1)" using ab Some p unfolding advances_def files_grow_def by blast
    then obtain m2 where m2: "m_files e ?g = Some (ident, content @ m1 @ m2)"
      using assms(2) unfolding advances_def files_grow_def by (metis append.assoc)
    obtain i where i: "ss_inner s = Some i" "ms_mappedSize i = int (length (content @ m1))" "ms_mapped i \<longleftrightarrow> content @ m1 \<noteq> []"
      using fit unfolding m1 by (rule inner_fits_someE) blast
    define n where "n = nat (f_committed (m_status a))"
    have n: "f_committed (m_status a) = int n" "n \<le> length content" "vouched a = take n content"
      using ab Some p g(1) by (auto simp: advances_def published_def n_def vouched_def)
    show ?thesis
    proof (cases "want = 0 \<or> n \<le> pos")
      case True
      then show ?thesis using i(1) g(2) n by (auto simp: spooled_bytes_def)
    next
      case False
      then have "spooled_bytes s (m_files e) (int pos) (int want)
          = take (nat (min (min (int want) (int n - int pos)) (int (length (content @ m1)) - int pos))) (drop pos (content @ m1 @ m2))"
        using i g(2) n m2 by (auto simp: spooled_bytes_def mapped_bytes_def)
      also have "\<dots> = take (min want (n - pos)) (drop pos (content @ m1 @ m2))"
      proof -
        have "nat (min (min (int want) (int n - int pos)) (int (length (content @ m1)) - int pos)) = min want (n - pos)"
          using False n(2) by (simp add: min_def) linarith
        then show ?thesis by simp
      qed
      also have "\<dots> = take want (drop pos (take n content))" using n(2) False by (auto simp: drop_take min_def le_diff_conv2)
      finally show ?thesis using n(3) by simp
    qed
  qed
qed

text \<open>C27: spooled_reads_published. A source over a spool, opened and refreshed any number of times while the fetcher goes
  on writing, shows exactly the bytes the status vouched for that it took first: no byte whose write had not been
  published, whatever was in the file by then, and never those of another generation. What it has shown it goes on
  showing until it is refreshed, while the file grows or a new generation is begun.\<close>

theorem spooled_reads_published:
  assumes "spooled_follows s a b" and "advances b e"
  shows "spooled_bytes s (m_files e) (int pos) (int want) = take want (drop pos (vouched a))
         \<and> ss_size s = int (length (vouched a)) \<and> spooled_wasReplaced (m_status e) s
            = (f_generation (m_status e) \<noteq> f_generation (m_status a))"
proof -
  have fits: "source_fits s a b" by (rule follows_fits [OF assms(1)])
  then have g: "ss_generation s = f_generation (m_status a)" "ss_size s = f_committed (m_status a)" "published a"
    unfolding source_fits_def advances_def by metis+
  show ?thesis using fitting_read [OF fits assms(2)] vouched_length [OF g(3)] g by (simp add: spooled_wasReplaced_def)
qed

text \<open>C28: spooled_complete_is_all. A source that is asked whether it is complete before it is refreshed, as the watch asks,
  misses nothing: when the answer was yes, the refresh shows the whole file, and so does every later reading.\<close>

theorem spooled_complete_is_all:
  assumes "spooled_isComplete (m_status z)" and "advances z a" and "spooled_follows s a b" and "advances b e" and "advances z e"
    and "m_files e (ss_generation s) = Some (ident, content)"
  shows "spooled_bytes s (m_files e) (int pos) (int want) = take want (drop pos content) \<and> ss_size s = int (length content)"
proof -
  have fits: "source_fits s a b" by (rule follows_fits [OF assms(3)])
  then have g: "ss_generation s = f_generation (m_status a)" "ss_size s = f_committed (m_status a)" "published a"
    unfolding source_fits_def advances_def by metis+
  have c: "f_state (m_status z) = FComplete" using assms(1) by (simp add: spooled_isComplete_def)
  have same: "f_generation (m_status a) = f_generation (m_status z)" "m_files a (ss_generation s) = Some (ident, content)"
    "m_files z (f_generation (m_status z)) = Some (ident, content)"
    using assms(2,5,6) c g(1) unfolding advances_def by metis+
  have "f_committed (m_status z) = int (length content)"
    using assms(2) c same(3) by (simp add: advances_def published_def)
  moreover have "f_committed (m_status z) \<le> f_committed (m_status a)" using assms(2) same(1) by (simp add: advances_def)
  moreover have "f_committed (m_status a) \<le> int (length content)" using g(1,3) same(2) by (simp add: published_def)
  ultimately have "f_committed (m_status a) = int (length content)" by simp
  then have "vouched a = content" using same(2) g(1) by (simp add: vouched_def)
  then show ?thesis using fitting_read [OF fits assms(4)] vouched_length [OF g(3)] g(2) by simp
qed

text \<open>What the states say of a source with nothing in it: it waits, or its origin is gone, or it is delivering, or it was
  stopped; a complete source is delivering, and one that waits is not.\<close>

lemma empty_states:
  "f_committed st \<le> 0 \<Longrightarrow> spooled_notReadyYet st \<noteq>
     (spooled_originVanished st \<or> spooled_isDelivering st \<or> f_state st = FDisconnected)"
  by (cases "f_state st") (simp_all add: spooled_notReadyYet_def spooled_originVanished_def spooled_isDelivering_def)

text \<open>Two bytes are written and published, a third is written; then the log is complete.\<close>

definition fetched :: "fetch_state \<Rightarrow> 64 word \<Rightarrow> int \<Rightarrow> bytes \<Rightarrow> moment_of_spool" where
  "fetched state gen n content =
     \<lparr>m_status = \<lparr>f_state = state, f_generation = gen, f_committed = n, f_baseOffset = 0, f_totalSize = 0, f_error = [], f_retryAtMs = 0\<rparr>,
      m_files = (\<lambda>g. if g = 1 then Some (7, content) else None)\<rparr>"

lemma fetched_advances:
  assumes "0 \<le> n" and "n \<le> n'" and "n \<le> int (length c)" and "n' \<le> int (length (c @ d))"
    and "state = FComplete \<Longrightarrow> d = [] \<and> n = int (length c)" and "state' = FComplete \<Longrightarrow> n' = int (length (c @ d))"
  shows "advances (fetched state 1 n c) (fetched state' 1 n' (c @ d))"
  using assms by (auto simp: advances_def published_def files_grow_def fetched_def)

theorem spooled_reads_published_witness:
  "spooled_bytes (spooled_refresh (m_status (fetched FLive 1 2 [65, 66])) (m_files (fetched FLive 1 2 [65, 66, 67]))
     (spooled_open (m_status (fetched FPriming 1 1 [65])) (m_files (fetched FPriming 1 1 [65]))))
     (m_files (fetched FLive 1 3 [65, 66, 67])) 1 9 = [66]"
proof -
  have s: "advances (fetched FPriming 1 1 [65]) (fetched FPriming 1 1 [65])" by (rule fetched_advances [of 1 1 "[65]" "[]" FPriming FPriming, unfolded append.simps append_Nil2]) simp_all
  have t: "advances (fetched FPriming 1 1 [65]) (fetched FLive 1 2 [65, 66])" by (rule fetched_advances [of 1 2 "[65]" "[66]" FPriming FLive, unfolded append.simps append_Nil2]) simp_all
  have u: "advances (fetched FLive 1 2 [65, 66]) (fetched FLive 1 2 [65, 66, 67])" by (rule fetched_advances [of 2 2 "[65, 66]" "[67]" FLive FLive, unfolded append.simps append_Nil2]) simp_all
  have w: "advances (fetched FLive 1 2 [65, 66, 67]) (fetched FLive 1 3 [65, 66, 67])" by (rule fetched_advances [of 2 3 "[65, 66, 67]" "[]" FLive FLive, unfolded append.simps append_Nil2]) simp_all
  have "vouched (fetched FLive 1 2 [65, 66]) = [65, 66]" by (simp add: vouched_def fetched_def)
  then show ?thesis
    using spooled_reads_published [OF follows_refresh [OF follows_open [OF s] t u] w, of 1 9] by simp
qed

theorem spooled_complete_is_all_witness:
  "spooled_bytes (spooled_open (m_status (fetched FComplete 1 2 [65, 66])) (m_files (fetched FComplete 1 2 [65, 66])))
     (m_files (fetched FDisconnected 1 2 [65, 66])) 0 9 = [65, 66]"
proof -
  have s: "advances (fetched st 1 2 [65, 66]) (fetched st' 1 2 [65, 66])" for st st'
    by (rule fetched_advances [of 2 2 "[65, 66]" "[]" st st', unfolded append.simps append_Nil2]) simp_all
  have c: "spooled_isComplete (m_status (fetched FComplete 1 2 [65, 66]))" by (simp add: spooled_isComplete_def fetched_def)
  have g: "ss_generation (spooled_open (m_status (fetched FComplete 1 2 [65, 66])) (m_files (fetched FComplete 1 2 [65, 66]))) = 1"
    by (simp add: spooled_open_def adoptGeneration_def Let_def fetched_def)
  have f: "m_files (fetched FDisconnected 1 2 [65, 66])
      (ss_generation (spooled_open (m_status (fetched FComplete 1 2 [65, 66])) (m_files (fetched FComplete 1 2 [65, 66])))) = Some (7, [65, 66])"
    unfolding g by (simp add: fetched_def)
  show ?thesis
    using spooled_complete_is_all [OF c s follows_open [OF s] s s f, of 0 9] by simp
qed

end
