(* ===== verification/Openings.thy ===== *)
theory Openings
  imports LogPaths SpoolSource
begin

text \<open>
  How an address is opened, and what is placed beside a log: \<open>src/core/LogSourceFactory\<close>, the choice of a fetcher in
  \<open>SourceSpool.cpp\<close>, \<open>LogAnchor\<close>, \<open>ConfigLocation\<close> and \<open>RestartTarget\<close>. Sentences are constructors with what they name.
  A build with every optional library, on a POSIX system.
\<close>

section \<open>Fetchers\<close>

datatype fetcher = ArchiveFetcher archive | SerialFetcher location | DiscoveredFetcher location | TelnetFetcher location | SshFetcher location

datatype fetch_refusal = NothingToExpand qstring | NotSerial qstring | NotDiscovered qstring | NotTelnet qstring | NotRemote qstring | NoWay qstring

definition kExpandPrefix :: qstring where
  "kExpandPrefix = lit ''expand'' @ [10]"

definition expandedSpoolKey :: "qstring \<Rightarrow> qstring" where
  "expandedSpoolKey address = kExpandPrefix @ address"

definition fetcher_or :: "(location \<Rightarrow> fetcher) \<Rightarrow> fetch_refusal \<Rightarrow> location option \<Rightarrow> fetch_refusal + fetcher" where
  "fetcher_or mk refusal loc = (case loc of Some l \<Rightarrow> Inr (mk l) | None \<Rightarrow> Inl refusal)"

definition defaultFetcher :: "qt \<Rightarrow> files \<Rightarrow> qstring \<Rightarrow> fetch_refusal + fetcher" where
  "defaultFetcher q f key =
     (if starts key kExpandPrefix then
        (let address = drop (length kExpandPrefix) key
         in case split_archive q f address of Some a \<Rightarrow> Inr (ArchiveFetcher a) | None \<Rightarrow> Inl (NothingToExpand address))
      else if transportOf q key = Some Serial then fetcher_or SerialFetcher (NotSerial (withoutPassword q key)) (parse q key)
      else if transportOf q key = Some Discovered then fetcher_or DiscoveredFetcher (NotDiscovered (withoutPassword q key)) (parse q key)
      else if transportOf q key = Some Telnet then fetcher_or TelnetFetcher (NotTelnet (withoutPassword q key)) (parse q key)
      else if isRemote q key then fetcher_or SshFetcher (NotRemote key) (parse q key)
      else Inl (NoWay key))"

section \<open>Opening\<close>

datatype open_policy = Interactive | Reuse

datatype open_error =
    BadAddress qstring | SeveralLogs qstring | NotConnected qstring | NoLongerExpanded qstring
  | NoCacheDirectory | CannotMakeDirectory | FetcherRefused fetch_refusal | CannotStart qstring | CannotOpenFile

datatype opened = OpenedFile qstring | OpenedSpool nat

text \<open>
  The outside: whether there is a cache directory and whether a directory in it is made, whether a fetcher starts, and
  which local files open.
\<close>

record outside =
  has_cache :: bool
  mkpath_ok :: bool
  fetcher_starts :: "fetcher \<Rightarrow> bool"
  opens :: "qstring \<Rightarrow> bool"

definition acquire :: "qt \<Rightarrow> files \<Rightarrow> (qstring \<Rightarrow> string) \<Rightarrow> outside \<Rightarrow> qstring \<Rightarrow> qstring registry \<Rightarrow> (open_error + opened) \<times> qstring registry" where
  "acquire q f digest env key g =
     (case find_spool g key of
        Some i \<Rightarrow> (Inr (OpenedSpool i), share i g)
      | None \<Rightarrow>
          if \<not> has_cache env then (Inl NoCacheDirectory, g)
          else if \<not> mkpath_ok env then (Inl CannotMakeDirectory, acquire_enter digest key False g)
          else (let g' = acquire_enter digest key True g
                in case defaultFetcher q f key of
                     Inl refusal \<Rightarrow> (Inl (FetcherRefused refusal), acquire_leave False g')
                   | Inr fe \<Rightarrow>
                       if fetcher_starts env fe then (Inr (OpenedSpool (g_serial g')), acquire_leave True g')
                       else (Inl (CannotStart key), acquire_leave False g')))"

definition openSpooled ::
  "qt \<Rightarrow> files \<Rightarrow> (qstring \<Rightarrow> string) \<Rightarrow> outside \<Rightarrow> qstring \<Rightarrow> open_error \<Rightarrow> open_policy \<Rightarrow> qstring registry \<Rightarrow> (open_error + opened) \<times> qstring registry" where
  "openSpooled q f digest env key reuseError policy g =
     (case find_spool g key of
        Some i \<Rightarrow> (Inr (OpenedSpool i), share i g)
      | None \<Rightarrow> if policy = Reuse then (Inl reuseError, g) else acquire q f digest env key g)"

definition openRemote ::
  "qt \<Rightarrow> files \<Rightarrow> (qstring \<Rightarrow> string) \<Rightarrow> outside \<Rightarrow> qstring \<Rightarrow> open_policy \<Rightarrow> qstring registry \<Rightarrow> (open_error + opened) \<times> qstring registry" where
  "openRemote q f digest env path policy g =
     (case parse q path of
        None \<Rightarrow> (Inl (BadAddress (withoutPassword q path)), g)
      | Some loc \<Rightarrow> openSpooled q f digest env (toString q loc) (NotConnected (target q loc)) policy g)"

definition openArchive ::
  "qt \<Rightarrow> files \<Rightarrow> (qstring \<Rightarrow> string) \<Rightarrow> outside \<Rightarrow> archive \<Rightarrow> open_policy \<Rightarrow> qstring registry \<Rightarrow> (open_error + opened) \<times> qstring registry" where
  "openArchive q f digest env loc policy g =
     (if needsMember q loc then (Inl (SeveralLogs (logSourceDisplayPath q f (container loc))), g)
      else (let address = archive_toString q f loc
            in openSpooled q f digest env (expandedSpoolKey address) (NoLongerExpanded address) policy g))"

definition openContainerSource ::
  "qt \<Rightarrow> files \<Rightarrow> (qstring \<Rightarrow> string) \<Rightarrow> outside \<Rightarrow> qstring \<Rightarrow> open_policy \<Rightarrow> qstring registry \<Rightarrow> (open_error + opened) \<times> qstring registry" where
  "openContainerSource q f digest env path policy g =
     (if isRemote q path then openRemote q f digest env path policy g
      else if opens env path then (Inr (OpenedFile path), g) else (Inl CannotOpenFile, g))"

definition openLogSource ::
  "qt \<Rightarrow> files \<Rightarrow> (qstring \<Rightarrow> string) \<Rightarrow> outside \<Rightarrow> qstring \<Rightarrow> open_policy \<Rightarrow> qstring registry \<Rightarrow> (open_error + opened) \<times> qstring registry" where
  "openLogSource q f digest env path policy g =
     (case split_archive q f path of
        Some loc \<Rightarrow> openArchive q f digest env loc policy g
      | None \<Rightarrow> openContainerSource q f digest env path policy g)"

section \<open>Where a log is\<close>

record anchor =
  a_remote :: "location option"
  a_path :: qstring
  a_member :: qstring
  a_archived :: bool

text \<open>Containers are peeled off, eight at most; the first peel owns the member.\<close>

fun peel_archives :: "qt \<Rightarrow> files \<Rightarrow> nat \<Rightarrow> qstring \<Rightarrow> qstring \<Rightarrow> bool \<Rightarrow> qstring \<times> qstring \<times> bool" where
  "peel_archives q f 0 address memb archived = (address, memb, archived)"
| "peel_archives q f (Suc n) address memb archived =
     (case split_archive q f address of
        None \<Rightarrow> (address, memb, archived)
      | Some a \<Rightarrow>
          if container a = address then (address, memb, archived)
          else peel_archives q f n (container a) (if archived then memb else member a) True)"

definition logAnchorOf :: "qt \<Rightarrow> files \<Rightarrow> qstring \<Rightarrow> anchor option" where
  "logAnchorOf q f logAddress =
     (if logAddress = [] then None
      else (let (address, memb, peeled) = peel_archives q f 8 logAddress [] False;
                archived = (peeled \<or> split_archive q f address \<noteq> None)
            in if isRemote q address then
                 (case parse q address of
                    None \<Rightarrow> None
                  | Some loc \<Rightarrow>
                      if \<not> isValid loc then None
                      else Some \<lparr>a_remote = Some loc, a_path = l_path loc, a_member = memb, a_archived = archived\<rparr>)
               else Some \<lparr>a_remote = None, a_path = address, a_member = memb, a_archived = archived\<rparr>))"

section \<open>A configuration file beside the log\<close>

definition q_space :: "qchar \<Rightarrow> bool" where
  "q_space c \<longleftrightarrow> c \<in> {32, 133, 160, 0x1680, 0x2028, 0x2029, 0x202F, 0x205F, 0x3000} \<or> 9 \<le> c \<and> c \<le> 13 \<or> 0x2000 \<le> c \<and> c \<le> 0x200A"

definition blank :: "qstring \<Rightarrow> bool" where
  "blank s \<longleftrightarrow> list_all q_space s"

definition posixDirOf :: "qstring \<Rightarrow> qstring" where
  "posixDirOf path =
     (case last_ch slash path of None \<Rightarrow> [] | Some i \<Rightarrow> if i = 0 then [slash] else take i path)"

definition placedIn :: "files \<Rightarrow> qstring \<Rightarrow> qstring \<Rightarrow> qstring" where
  "placedIn f dir configured =
     (if isAbsolutePath f configured then cleanPath f configured
      else if dir = [] then cleanPath f configured
      else cleanPath f (dir @ [slash] @ configured))"

definition addressOn :: "qt \<Rightarrow> anchor \<Rightarrow> qstring \<Rightarrow> qstring" where
  "addressOn q an path = (case a_remote an of None \<Rightarrow> path | Some loc \<Rightarrow> toString q (loc\<lparr>l_path := path\<rparr>))"

datatype config_refusal = ConfigIsRemote qstring | NoLog | BadLogAddress qstring | InsideArchive qstring qstring

datatype config_address = ConfigUnset | ConfigRefused config_refusal | ConfigResolved qstring qstring

definition resolveConfigAddress :: "qt \<Rightarrow> files \<Rightarrow> qstring \<Rightarrow> qstring \<Rightarrow> config_address" where
  "resolveConfigAddress q f logAddress configuredPath =
     (if blank configuredPath then ConfigUnset
      else if isRemote q configuredPath then ConfigRefused (ConfigIsRemote (withoutPassword q configuredPath))
      else (case logAnchorOf q f logAddress of
              None \<Rightarrow> ConfigRefused (if logAddress = [] then NoLog else BadLogAddress (withoutPassword q logAddress))
            | Some an \<Rightarrow>
                (let base = posixDirOf (a_path an); resolved = placedIn f base configuredPath
                 in case split_archive q f resolved of
                      Some inside \<Rightarrow> ConfigRefused (InsideArchive resolved (container inside))
                    | None \<Rightarrow> ConfigResolved (addressOn q an resolved) (addressOn q an base))))"

section \<open>Restarting the logged program\<close>

datatype restart_refusal = NoLogToRestart | BadRestartAddress qstring

record restart_run =
  r_host :: "location option"
  r_script :: qstring
  r_variables :: "(string \<times> qstring) list"

datatype restart_target = RestartUnset | RestartRefused restart_refusal | RestartResolved restart_run

definition resolveRestartTarget :: "qt \<Rightarrow> files \<Rightarrow> qstring \<Rightarrow> qstring \<Rightarrow> restart_target" where
  "resolveRestartTarget q f logAddress script =
     (if blank script then RestartUnset
      else (case logAnchorOf q f logAddress of
              None \<Rightarrow> RestartRefused (if logAddress = [] then NoLogToRestart else BadRestartAddress (withoutPassword q logAddress))
            | Some an \<Rightarrow>
                RestartResolved
                  \<lparr>r_host = a_remote an, r_script = script,
                   r_variables = [(''LOGFILE'', a_path an)]
                     @ (if a_archived an
                        then [(''ARCHIVE'', a_path an)] @ (if a_member an \<noteq> [] then [(''MEMBER'', a_member an)] else [])
                        else [])\<rparr>))"

section \<open>What is promised\<close>

text \<open>An open that may only reuse, as the rescan after a rotation is, makes nothing: whatever the
  path, an archive in a remote container included, the registry is left as it was, or one of its live spools gets
  another handle. No fetcher is started and no directory made.\<close>

theorem reuse_never_connects:
  "snd (openLogSource q f digest env path Reuse g) = g
   \<or> (\<exists>key i. find_spool g key = Some i \<and> openLogSource q f digest env path Reuse g = (Inr (OpenedSpool i), share i g))"
  by (auto simp: openLogSource_def openArchive_def openContainerSource_def openRemote_def openSpooled_def Let_def
      split: option.split)

lemma pieces_length: "Suc (length s) = sum_list (map (\<lambda>w. Suc (length w)) (pieces c s))"
proof (induction s)
  case (Cons d s)
  then show ?case by (cases "pieces c s") (auto dest: pieces_ne [THEN notE, rotated])
qed simp

text \<open>The container of a local path is its own container, so the first peel is the last.\<close>

lemma container_settled:
  assumes "archiveCut q path = Some k"
  shows "archiveCut q (take k path) = Some (length (take k path)) \<and> take k path \<noteq> []"
proof -
  obtain ws w ts where k: "\<forall>x \<in> set ws. \<not> archive_name q x" "archive_name q w" "pieces slash (take k path) = ws @ [w]"
    using archiveCut_spec [of q path] assms unfolding cut_spec_def by auto
  have "w \<noteq> []" using k(2) by (auto simp: archive_name_def endsWithAny_def list_ex_iff)
  then have "Suc (length (take k path)) \<noteq> 1" using pieces_length [of "take k path" slash] k(3) by auto
  then have ne: "take k path \<noteq> []" by auto
  show ?thesis
  proof (cases "archiveCut q (take k path)")
    case None
    then show ?thesis using archiveCut_spec [of q "take k path"] k(2,3) by (simp add: cut_spec_def)
  next
    case (Some j)
    then obtain ws' w' ts' where j: "j \<le> length (take k path)" "ws @ [w] = ws' @ w' # ts'" "\<forall>x \<in> set ws'. \<not> archive_name q x"
      "archive_name q w'" "pieces slash (take j (take k path)) = ws' @ [w']"
      using archiveCut_spec [of q "take k path"] k(3) unfolding cut_spec_def by auto
    have "ts' = []"
    proof (rule ccontr)
      assume "ts' \<noteq> []"
      then have "w' \<in> set ws" using j(2) by (metis append_butlast_last_id append_eq_append_conv butlast_append butlast_snoc in_set_conv_decomp list.distinct(1) butlast.simps(2))
      then show False using k(1) j(4) by blast
    qed
    then have "ws' @ [w'] = ws @ [w]" using j(2) by simp
    then have "Suc (length (take j (take k path))) = Suc (length (take k path))"
      using pieces_length [of "take j (take k path)" slash] pieces_length [of "take k path" slash] k(3) j(5) by simp
    then have "j = length (take k path)" using j(1) by (simp add: min_def split: if_splits)
    then show ?thesis using Some ne by simp
  qed
qed

lemma remote_prefix: "isRemote q (take k path) \<Longrightarrow> isRemote q path"
proof -
  have "startsFolded fd (take k path) p \<Longrightarrow> startsFolded fd path p" for fd p
  proof -
    assume a: "startsFolded fd (take k path) p"
    then have "length p \<le> length (take k path)" unfolding startsFolded_def by (metis length_map length_take min.cobounded1 min.commute)
    then have "take (length p) (take k path) = take (length p) path" by (auto simp: min_def split: if_split_asm)
    then show ?thesis using a by (simp add: startsFolded_def)
  qed
  then show "isRemote q (take k path) \<Longrightarrow> isRemote q path" unfolding isRemote_def by blast
qed

lemma local_container:
  assumes "\<not> isRemote q path" and "split_archive q f path = Some a"
  shows "\<not> isRemote q (container a)
    \<and> (container a \<noteq> path \<longrightarrow> (\<forall>b. split_archive q f (container a) = Some b \<longrightarrow> container b = container a))
    \<and> (container a = path \<longrightarrow> member a = [])"
proof (cases "isFile f path")
  case True
  then show ?thesis using assms by (auto simp: split_archive_def split: if_splits)
next
  case False
  obtain k where k: "archiveCut q path = Some k" "a = \<lparr>container = take k path, member = drop (k + 1) path\<rparr>"
    using assms False by (auto simp: split_archive_def split: if_splits option.splits)
  have r: "\<not> isRemote q (take k path)" using remote_prefix assms(1) by blast
  have "container b = take k path" if "split_archive q f (take k path) = Some b" for b
  proof -
    have "take (min (length path) k) path = take k path" by (simp add: min_def)
    then show ?thesis using that r container_settled [OF k(1)] by (auto simp: split_archive_def split: if_splits)
  qed
  moreover have "take k path = path \<Longrightarrow> drop (k + 1) path = []" by (metis drop_drop drop_all drop_Nil length_take min.cobounded2 append_take_drop_id self_append_conv add.commute)
  ultimately show ?thesis using r k(2) by simp
qed

definition place_of :: "qt \<Rightarrow> files \<Rightarrow> qstring \<Rightarrow> qstring" where
  "place_of q f log = (case split_archive q f log of None \<Rightarrow> log | Some a \<Rightarrow> container a)"

lemma local_anchor:
  assumes "\<not> isRemote q log" and "log \<noteq> []"
  shows "logAnchorOf q f log = Some \<lparr>a_remote = None, a_path = place_of q f log,
     a_member = (case split_archive q f log of None \<Rightarrow> [] | Some a \<Rightarrow> member a), a_archived = (split_archive q f log \<noteq> None)\<rparr>"
proof (cases "split_archive q f log")
  case None
  then have "peel_archives q f 8 log [] False = (log, [], False)" by (simp add: numeral_eq_Suc)
  then show ?thesis using assms None by (simp add: logAnchorOf_def place_of_def)
next
  case (Some a)
  note c = local_container [OF assms(1) Some]
  show ?thesis
  proof (cases "container a = log")
    case True
    then have "peel_archives q f 8 log [] False = (log, [], False)" using Some by (simp add: numeral_eq_Suc)
    then show ?thesis using assms Some True c by (simp add: logAnchorOf_def place_of_def)
  next
    case False
    have one: "peel_archives q f (Suc n) (container a) (member a) True = (container a, member a, True)" for n
    proof (cases "split_archive q f (container a)")
      case (Some b)
      have "container b = container a" using c False Some by blast
      then show ?thesis by (simp add: Some)
    qed simp
    have "peel_archives q f (Suc (Suc n)) log [] False = (container a, member a, True)" for n
      by (subst peel_archives.simps(2)) (simp only: Some option.case False if_False if_True one)
    moreover have "(8 :: nat) = Suc (Suc 6)" by simp
    ultimately have "peel_archives q f 8 log [] False = (container a, member a, True)" by metis
    then show ?thesis using assms Some c by (simp add: logAnchorOf_def place_of_def)
  qed
qed

section \<open>Where a path leads\<close>

text \<open>
  A reference reading of a path: its components are followed one by one from the folder \<open>at\<close>, innermost name first. An empty
  component and a dot stay, two dots go up, a name goes down; there is no way above the root.
\<close>

fun follow :: "qstring list \<Rightarrow> qstring list \<Rightarrow> qstring list option" where
  "follow at [] = Some at"
| "follow at (w # ws) =
     (if w = [] \<or> w = lit ''.'' then follow at ws
      else if w = lit ''..'' then (case at of [] \<Rightarrow> None | _ # up \<Rightarrow> follow up ws)
      else follow (w # at) ws)"

definition led_from :: "qstring list \<Rightarrow> qstring \<Rightarrow> qstring list option" where
  "led_from at p = follow at (pieces slash p)"

definition absolute :: "qstring \<Rightarrow> bool" where
  "absolute p \<longleftrightarrow> take 1 p = [slash]"

text \<open>What \<open>QDir::cleanPath\<close> is documented to do: it takes out superfluous separators and dots, and so leads where the path led.\<close>

definition cleans :: "files \<Rightarrow> bool" where
  "cleans f \<longleftrightarrow> (\<forall>p ns. absolute p \<longrightarrow> led_from [] p = Some ns \<longrightarrow> led_from [] (cleanPath f p) = Some ns)"

lemma follow_append: "follow at (u @ v) = (case follow at u of None \<Rightarrow> None | Some x \<Rightarrow> follow x v)"
  by (induction at u rule: follow.induct) (auto split: list.split)

lemma pieces_join: "pieces c (a @ c # b) = pieces c a @ pieces c b"
proof (induction a)
  case (Cons d a)
  then show ?case by (cases "pieces c a") (auto dest: pieces_ne [THEN notE, rotated])
qed simp

lemma led_join: "led_from at (a @ slash # b) = (case led_from at a of None \<Rightarrow> None | Some x \<Rightarrow> led_from x b)"
  unfolding led_from_def pieces_join follow_append ..

lemma led_root: "led_from at [slash] = Some at" "led_from at [] = Some at"
  by (simp_all add: led_from_def)

text \<open>The path a configuration file is looked for at, and whether it may be opened there.\<close>

fun looked_for :: "config_address \<Rightarrow> (qstring \<times> bool) option" where
  "looked_for (ConfigResolved addr base) = Some (addr, True)"
| "looked_for (ConfigRefused (InsideArchive p c)) = Some (p, False)"
| "looked_for r = None"

text \<open>C29: beside_local_log. For a log on this machine what is placed beside it is placed beside the file on disk: for a
  log inside an archive that is the archive. A configuration file is looked for where its path leads from the folder of that
  file, by names, dots and double dots, or from the root when it is absolute; it may be opened exactly when that is not
  inside an archive, and then the folder is answered beside it. The restart script learns the file as the log, the archive
  exactly when there is one, and the member only where one is named.\<close>

theorem beside_local_log:
  assumes "\<not> isRemote q log" and "log \<noteq> []" and "\<not> blank script" and "\<not> blank conf" and "\<not> isRemote q conf"
    and "place_of q f log = folder @ [slash] @ name" and "slash \<notin> set name" and "absolute (place_of q f log)"
    and "led_from [] folder = Some at"
    and "led_from (if isAbsolutePath f conf then [] else at) conf = Some ns" and "isAbsolutePath f conf \<longrightarrow> absolute conf"
    and "cleans f"
  shows "resolveRestartTarget q f log script = RestartResolved \<lparr>r_host = None, r_script = script,
      r_variables = (''LOGFILE'', place_of q f log) #
        (case split_archive q f log of
           None \<Rightarrow> []
         | Some a \<Rightarrow> (''ARCHIVE'', container a) # (if member a = [] then [] else [(''MEMBER'', member a)]))\<rparr>
    \<and> (\<exists>p. looked_for (resolveConfigAddress q f log conf) = Some (p, split_archive q f p = None) \<and> led_from [] p = Some ns)
    \<and> (\<forall>addr base. resolveConfigAddress q f log conf = ConfigResolved addr base \<longrightarrow> led_from [] base = Some at)"
proof -
  note a = local_anchor [OF assms(1,2), of f]
  have restart: "resolveRestartTarget q f log script = RestartResolved \<lparr>r_host = None, r_script = script,
      r_variables = (''LOGFILE'', place_of q f log) #
        (case split_archive q f log of
           None \<Rightarrow> []
         | Some a \<Rightarrow> (''ARCHIVE'', container a) # (if member a = [] then [] else [(''MEMBER'', member a)]))\<rparr>"
    using assms(3) by (auto simp: resolveRestartTarget_def a place_of_def split: option.split)
  define base where "base = posixDirOf (place_of q f log)"
  have base: "base = (if folder = [] then [slash] else folder)"
    using assms(7) by (simp add: base_def assms(6) posixDirOf_def)
  have at: "led_from [] base = Some at" using assms(9) led_root by (cases "folder = []") (simp_all add: base)
  have top: "absolute base" using assms(8) by (cases folder) (simp_all add: base assms(6) absolute_def)
  have "led_from [] (placedIn f base conf) = Some ns"
  proof (cases "isAbsolutePath f conf")
    case True
    then show ?thesis using assms(10-12) by (simp add: placedIn_def cleans_def)
  next
    case False
    have "absolute (base @ slash # conf)" using top by (cases base) (simp_all add: absolute_def)
    moreover have "led_from [] (base @ slash # conf) = Some ns" using assms(10) False by (simp add: led_join at)
    moreover have "base \<noteq> []" by (simp add: base)
    ultimately show ?thesis using False assms(12) by (simp add: placedIn_def cleans_def)
  qed
  then have "\<exists>p. looked_for (resolveConfigAddress q f log conf) = Some (p, split_archive q f p = None) \<and> led_from [] p = Some ns"
    by (cases "split_archive q f (placedIn f base conf)")
      (simp_all add: resolveConfigAddress_def a addressOn_def assms(4,5) base_def Let_def)
  moreover have "\<forall>addr b. resolveConfigAddress q f log conf = ConfigResolved addr b \<longrightarrow> led_from [] b = Some at"
    using at by (auto simp: resolveConfigAddress_def a addressOn_def base_def Let_def split: if_splits option.splits)
  ultimately show ?thesis using restart by blast
qed

theorem beside_local_log_witness:
  "resolveRestartTarget small_qt no_files (lit ''/d/b.zip/m'') (lit ''x'') = RestartResolved \<lparr>r_host = None, r_script = lit ''x'',
     r_variables = [(''LOGFILE'', lit ''/d/b.zip''), (''ARCHIVE'', lit ''/d/b.zip''), (''MEMBER'', lit ''m'')]\<rparr>
   \<and> map_option (\<lambda>(p, b). led_from [] p) (looked_for (resolveConfigAddress small_qt no_files (lit ''/d/b.zip/m'') (lit ''../c/x'')))
      = Some (Some [lit ''x'', lit ''c''])"
proof -
  have s: "split_archive small_qt no_files (lit ''/d/b.zip/m'') = Some \<lparr>container = lit ''/d/b.zip'', member = lit ''m''\<rparr>" by code_simp
  have p: "place_of small_qt no_files (lit ''/d/b.zip/m'') = lit ''/d/b.zip''" by (simp add: s place_of_def del: lit_simps)
  have h: "\<not> isRemote small_qt (lit ''/d/b.zip/m'')" "lit ''/d/b.zip/m'' \<noteq> []" "\<not> blank (lit ''x'')" "\<not> blank (lit ''../c/x'')"
    "\<not> isRemote small_qt (lit ''../c/x'')" by code_simp+
  have w: "lit ''/d/b.zip'' = lit ''/d'' @ [slash] @ lit ''b.zip''" "slash \<notin> set (lit ''b.zip'')" "absolute (lit ''/d/b.zip'')"
    "led_from [] (lit ''/d'') = Some [lit ''d'']" "led_from [lit ''d''] (lit ''../c/x'') = Some [lit ''x'', lit ''c'']"
    "\<not> isAbsolutePath no_files (lit ''../c/x'')" "lit ''m'' \<noteq> []"
    by code_simp+
  have c: "cleans no_files" by (simp add: cleans_def no_files_def)
  have k: "led_from (if isAbsolutePath no_files (lit ''../c/x'') then [] else [lit ''d'']) (lit ''../c/x'') = Some [lit ''x'', lit ''c'']"
    "isAbsolutePath no_files (lit ''../c/x'') \<longrightarrow> absolute (lit ''../c/x'')"
    using w(5,6) by (simp_all del: lit_simps)
  note t = beside_local_log [OF h, of no_files, unfolded p, OF w(1-4) k c]
  from conjunct2 [OF t, THEN conjunct1] obtain x b where "looked_for (resolveConfigAddress small_qt no_files (lit ''/d/b.zip/m'') (lit ''../c/x'')) = Some (x, b)"
    "led_from [] x = Some [lit ''x'', lit ''c'']" by blast
  with conjunct1 [OF t] show ?thesis by (simp add: s w(7) del: lit_simps)
qed

end
