(* ===== verification/Detector.thy ===== *)
theory Detector
  imports Index Patterns
begin

text \<open>
  \<open>src/core/FormatPreview\<close> and \<open>src/core/FormatDetector\<close>: the rows a format would give the head of a log, and the guess
  of a format from that head, by scoring a library of patterns and patterns put together around a severity word. The
  expressions written out in the detector are modelled character by character on texts in the Latin-1 range; what a
  compiled expression matches is a parameter.
\<close>

section \<open>The preview\<close>

text \<open>\<open>rx_match\<close> is a match with the text of each group, for the text of an expression.\<close>

record regex_engine =
  rx_valid :: "string \<Rightarrow> bool"
  rx_match :: "string \<Rightarrow> string \<Rightarrow> (nat \<Rightarrow> string) option"

record preview_row =
  p_matched :: bool
  p_fields :: "string list"
  p_rawFirstLine :: string

record preview_result =
  headers :: "string list"
  rows :: "preview_row list"
  matchedCount :: nat
  totalCount :: nat

fun message_from :: "field list \<Rightarrow> nat \<Rightarrow> int" where
  "message_from [] i = - 1"
| "message_from (f # fs) i = (if f_role f = RMessage then int i else message_from fs (i + 1))"

definition messageColumn :: "log_format \<Rightarrow> int" where
  "messageColumn fmt = message_from (l_fields fmt) 0"

record previewing =
  v_rows :: "preview_row list"
  v_matched :: nat
  v_openRow :: int
  v_openMatched :: bool

definition previewing_start :: previewing where
  "previewing_start = \<lparr>v_rows = [], v_matched = 0, v_openRow = - 1, v_openMatched = False\<rparr>"

definition fold_into :: "int \<Rightarrow> string \<Rightarrow> preview_row \<Rightarrow> preview_row" where
  "fold_into msgCol line r =
     (if 0 \<le> msgCol \<and> msgCol < int (length (p_fields r))
      then r\<lparr>p_fields := (p_fields r)[nat msgCol := p_fields r ! nat msgCol @ [CHR 0x0A] @ line]\<rparr> else r)"

definition starts_record :: "regex_engine \<Rightarrow> log_format \<Rightarrow> string \<Rightarrow> bool" where
  "starts_record e fmt line \<longleftrightarrow> startPattern fmt \<noteq> [] \<and> rx_valid e (startPattern fmt) \<and> rx_match e (startPattern fmt) line \<noteq> None"

definition start_row :: "regex_engine \<Rightarrow> log_format \<Rightarrow> string \<Rightarrow> preview_row" where
  "start_row e fmt line =
     \<lparr>p_matched = True,
      p_fields = map (\<lambda>f. case rx_match e (recordPattern fmt) line of
                            Some m \<Rightarrow> if 0 < f_group f then m (f_group f) else [] | None \<Rightarrow> []) (l_fields fmt),
      p_rawFirstLine = line\<rparr>"

definition plain_row :: "log_format \<Rightarrow> string \<Rightarrow> preview_row" where
  "plain_row fmt line = \<lparr>p_matched = False, p_fields = map (\<lambda>_. []) (l_fields fmt), p_rawFirstLine = line\<rparr>"

definition preview_line :: "regex_engine \<Rightarrow> log_format \<Rightarrow> previewing \<Rightarrow> string \<Rightarrow> previewing" where
  "preview_line e fmt v line =
     (if starts_record e fmt line then
        v\<lparr>v_rows := v_rows v @ [start_row e fmt line], v_matched := v_matched v + 1,
          v_openRow := int (length (v_rows v)), v_openMatched := True\<rparr>
      else if 0 \<le> v_openRow v \<and> v_openMatched v then
        v\<lparr>v_rows := (v_rows v)[nat (v_openRow v) := fold_into (messageColumn fmt) line (v_rows v ! nat (v_openRow v))]\<rparr>
      else
        v\<lparr>v_rows := v_rows v @ [plain_row fmt line], v_openRow := int (length (v_rows v)), v_openMatched := False\<rparr>)"

fun preview_lines :: "regex_engine \<Rightarrow> log_format \<Rightarrow> nat \<Rightarrow> string list \<Rightarrow> previewing \<Rightarrow> previewing" where
  "preview_lines e fmt maxRecords [] v = v"
| "preview_lines e fmt maxRecords (l # ls) v =
     (if length (v_rows v) < maxRecords then preview_lines e fmt maxRecords ls (preview_line e fmt v l) else v)"

definition sample_lines_of :: "(encoding \<Rightarrow> bytes \<Rightarrow> string) \<Rightarrow> decoder \<Rightarrow> bytes \<Rightarrow> string list" where
  "sample_lines_of conv d sample = map (\<lambda>(off, len, text). text) (file_lines conv d sample (m_bomLength d))"

definition preview_build ::
  "regex_engine \<Rightarrow> (encoding \<Rightarrow> bytes \<Rightarrow> string) \<Rightarrow> log_format \<Rightarrow> bytes \<Rightarrow> decoder \<Rightarrow> nat \<Rightarrow> preview_result" where
  "preview_build e conv fmt sample d maxRecords =
     (let v = preview_lines e fmt maxRecords (sample_lines_of conv d sample) previewing_start
      in \<lparr>headers = map f_name (l_fields fmt), rows = v_rows v, matchedCount = v_matched v, totalCount = length (v_rows v)\<rparr>)"

section \<open>Scoring\<close>

definition kScoreRecords :: nat where
  "kScoreRecords = 200"

definition kInferenceLines :: nat where
  "kInferenceLines = 60"

text \<open>A score is a number of matched records over a number of records, none for none; ratios of so few records are compared
  exactly by \<open>double\<close>.\<close>

record scored =
  s_pattern :: string
  s_format :: "log_format option"
  s_hits :: nat
  s_total :: nat
  s_fields :: nat

definition scoreCandidate ::
  "regex_engine \<Rightarrow> (encoding \<Rightarrow> bytes \<Rightarrow> string) \<Rightarrow> string \<Rightarrow> bytes \<Rightarrow> decoder \<Rightarrow> scored" where
  "scoreCandidate e conv pat sample d =
     (case compile (rx_valid e) pat of
        Inl err \<Rightarrow> \<lparr>s_pattern = pat, s_format = None, s_hits = 0, s_total = 1, s_fields = 0\<rparr>
      | Inr fmt \<Rightarrow>
          (let pv = preview_build e conv fmt sample d kScoreRecords
           in \<lparr>s_pattern = pat, s_format = Some fmt,
               s_hits = (if 0 < totalCount pv then matchedCount pv else 0),
               s_total = (if 0 < totalCount pv then totalCount pv else 1), s_fields = length (l_fields fmt)\<rparr>))"

definition better :: "scored \<Rightarrow> scored \<Rightarrow> bool" where
  "better a b \<longleftrightarrow>
     (if s_hits a * s_total b \<noteq> s_hits b * s_total a then s_hits b * s_total a < s_hits a * s_total b
      else s_fields b < s_fields a)"

definition confident :: "scored \<Rightarrow> bool" where
  "confident s \<longleftrightarrow> 3 * s_total s \<le> 5 * s_hits s"

definition pick :: "scored option \<Rightarrow> scored \<Rightarrow> scored option" where
  "pick best s =
     (if s_format s = None then best
      else (case best of None \<Rightarrow> Some s | Some b \<Rightarrow> if better s b then Some s else best))"

definition best_of :: "(string \<Rightarrow> scored) \<Rightarrow> string list \<Rightarrow> scored option" where
  "best_of score cands = foldl (\<lambda>best c. pick best (score c)) None cands"

section \<open>Dates at the head of a line\<close>

datatype date_order = MonthFirst | DayFirst

text \<open>A run of characters in which \<open>9\<close> stands for a digit.\<close>

fun shape :: "string \<Rightarrow> string \<Rightarrow> bool" where
  "shape [] s = True"
| "shape (p # ps) [] = False"
| "shape (p # ps) (c # cs) = ((if p = CHR ''9'' then isDigit c else c = p) \<and> shape ps cs)"

definition head_in :: "char set \<Rightarrow> string \<Rightarrow> bool" where
  "head_in cs s \<longleftrightarrow> s \<noteq> [] \<and> hd s \<in> cs"

definition two :: "string \<Rightarrow> int" where
  "two s = (int (code (s ! 0)) - 48) * 10 + (int (code (s ! 1)) - 48)"

definition slash_dated :: "string \<Rightarrow> bool" where
  "slash_dated line \<longleftrightarrow>
     shape ''99/99/99'' line
     \<and> (\<exists>k \<in> {8, 9, 10}. list_all isDigit (take (k - 8) (drop 8 line)) \<and> head_in {CHR '' '', CHR ''T''} (drop k line))"

fun inferDateOrder :: "string list \<Rightarrow> date_order" where
  "inferDateOrder [] = MonthFirst"
| "inferDateOrder (line # ls) =
     (if \<not> slash_dated line then inferDateOrder ls
      else if 12 < two line then DayFirst
      else if 12 < two (drop 3 line) then MonthFirst
      else inferDateOrder ls)"

text \<open>\<open>replace\<close> of a text by one of the same length.\<close>

fun replace_text :: "string \<Rightarrow> string \<Rightarrow> string \<Rightarrow> nat \<Rightarrow> string" where
  "replace_text old new [] k = []"
| "replace_text old new (c # cs) (Suc k) = replace_text old new cs k"
| "replace_text old new (c # cs) 0 =
     (if old \<noteq> [] \<and> take (length old) (c # cs) = old then new @ replace_text old new cs (length old - 1)
      else c # replace_text old new cs 0)"

definition applyDateOrder :: "string \<Rightarrow> date_order \<Rightarrow> string" where
  "applyDateOrder pat order = (if order = DayFirst then replace_text ''%m/%d/'' ''%d/%m/'' pat 0 else pat)"

definition datesep :: "char set" where
  "datesep = {CHR '' '', CHR ''T''}"

definition millisep :: "char set" where
  "millisep = {CHR ''.'', CHR '',''}"

definition dated :: "string \<Rightarrow> char \<Rightarrow> string" where
  "dated dmy dsep = ''%d{'' @ dmy @ [dsep] @ ''%H:%M:%S}''"

definition dated_millis :: "string \<Rightarrow> char \<Rightarrow> char \<Rightarrow> string" where
  "dated_millis dmy dsep msep = ''%d{'' @ dmy @ [dsep] @ ''%H:%M:%S'' @ [msep] @ ''%q}''"

definition clocked :: string where
  "clocked = ''%d{%H:%M:%S}''"

definition clocked_millis :: "char \<Rightarrow> string" where
  "clocked_millis msep = ''%d{%H:%M:%S'' @ [msep] @ ''%q}''"

definition slash_dmy :: "date_order \<Rightarrow> nat \<Rightarrow> string" where
  "slash_dmy order year = (if order = DayFirst then ''%d/%m/'' else ''%m/%d/'') @ (if year = 4 then ''%Y'' else ''%y'')"

definition iso_dmy :: string where
  "iso_dmy = ''%Y-%m-%d''"

definition slash_spec :: "date_order \<Rightarrow> nat \<Rightarrow> string \<Rightarrow> (nat \<times> string) option" where
  "slash_spec order year s =
     (let r = drop (6 + year) s; t = drop 9 r
      in if shape (''99/99/'' @ replicate year (CHR ''9'')) s \<and> head_in datesep r \<and> shape ''99:99:99'' (drop 1 r)
         then (if head_in millisep t \<and> shape ''999'' (drop 1 t)
               then Some (6 + year + 13, dated_millis (slash_dmy order year) (hd r) (hd t))
               else Some (6 + year + 9, dated (slash_dmy order year) (hd r)))
         else None)"

definition matchLeadingDate :: "string \<Rightarrow> date_order \<Rightarrow> nat \<times> string" where
  "matchLeadingDate s order =
     (let d = drop 10 s; t = drop 19 s; iso_date = (shape ''9999-99-99'' s \<and> head_in datesep d \<and> shape ''99:99:99'' (drop 1 d));
          u = drop 8 s; clock = shape ''99:99:99'' s
      in if iso_date \<and> head_in millisep t \<and> shape ''999'' (drop 1 t) then (23, dated_millis iso_dmy (hd d) (hd t))
         else if iso_date then (19, dated iso_dmy (hd d))
         else (case slash_spec order 4 s of
                 Some r \<Rightarrow> r
               | None \<Rightarrow>
                   (case slash_spec order 2 s of
                      Some r \<Rightarrow> r
                    | None \<Rightarrow>
                        if clock \<and> head_in millisep u \<and> shape ''999'' (drop 1 u) then (12, clocked_millis (hd u))
                        else if clock then (8, clocked)
                        else (0, []))))"

section \<open>Patterns from a line\<close>

definition isSeparatorPunct :: "char \<Rightarrow> bool" where
  "isSeparatorPunct c \<longleftrightarrow> c \<in> set ''-|:>/=#''"

definition escapeLiteral :: "string \<Rightarrow> string" where
  "escapeLiteral s = concat (map (\<lambda>c. if c = CHR ''%'' then ''%%'' else [c]) s)"

definition ascii_letter :: "char \<Rightarrow> bool" where
  "ascii_letter c \<longleftrightarrow> 65 \<le> code c \<and> code c \<le> 90 \<or> 97 \<le> code c \<and> code c \<le> 122"

definition priority_words :: "string list" where
  "priority_words = map priorityName [Trace, Debug, Info, Warn, Error, Fatal]"

text \<open>\<open>priorityTokenRe\<close>: the first severity word with no letter on either side, as its start and end.\<close>

fun priority_from :: "nat \<Rightarrow> bool \<Rightarrow> string \<Rightarrow> (nat \<times> nat) option" where
  "priority_from i after_letter [] = None"
| "priority_from i after_letter (c # cs) =
     (case List.find (\<lambda>w. \<not> after_letter \<and> take (length w) (c # cs) = w
                        \<and> \<not> (drop (length w) (c # cs) \<noteq> [] \<and> ascii_letter (hd (drop (length w) (c # cs))))) priority_words of
        Some w \<Rightarrow> Some (i, i + length w)
      | None \<Rightarrow> priority_from (i + 1) (ascii_letter c) cs)"

text \<open>A bracketed run at the head of a text is everything through the first closing bracket.\<close>

definition bracketed :: "string \<Rightarrow> string option" where
  "bracketed s =
     (if s \<noteq> [] \<and> hd s = CHR ''['' \<and> CHR '']'' \<in> set s then Some (drop 1 (dropWhile (\<lambda>c. c \<noteq> CHR '']'') s)) else None)"

lemma bracketed_shorter: "bracketed s = Some r \<Longrightarrow> length r < length s"
proof -
  assume "bracketed s = Some r"
  then have "s \<noteq> []" "r = drop 1 (dropWhile (\<lambda>c. c \<noteq> CHR '']'') s)" by (auto simp: bracketed_def split: if_splits)
  then show ?thesis using length_dropWhile_le [of "\<lambda>c. c \<noteq> CHR '']''" s] by (cases s) auto
qed

function left_from :: "string \<Rightarrow> nat \<Rightarrow> string \<times> bool" where
  "left_from s digitRun =
     (case s of
        [] \<Rightarrow> ([], False)
      | c # cs \<Rightarrow>
          (case bracketed s of
             Some r \<Rightarrow> (let (pat, m) = left_from r 0 in (''[%t]'' @ pat, m))
           | None \<Rightarrow>
               (let run = (if isDigit c then digitRun + 1 else 0); (pat, m) = left_from cs run
                in (escapeLiteral [c] @ pat, m \<or> 2 \<le> run))))"
  by pat_completeness auto
termination
  by (relation "measure (\<lambda>(s, n). length s)") (auto dest: bracketed_shorter)

declare left_from.simps [simp del]

definition buildLeft :: "string \<Rightarrow> date_order \<Rightarrow> string \<times> bool" where
  "buildLeft left order =
     (let (n, spec) = matchLeadingDate left order; (pat, m) = left_from (drop n left) 0 in (spec @ pat, m))"

definition variant_b :: "string \<Rightarrow> string \<Rightarrow> string list" where
  "variant_b leftPat right =
     (let sep = takeWhile isSpace right
      in if length sep < length right then [leftPat @ ''%p'' @ escapeLiteral sep @ ''%m%n''] else [])"

definition take_bracketed :: "string \<Rightarrow> string \<Rightarrow> string \<times> string" where
  "take_bracketed spec s = (case bracketed s of Some r \<Rightarrow> (''['' @ spec @ '']'', r) | None \<Rightarrow> ([], s))"

definition variant_a :: "string \<Rightarrow> string \<Rightarrow> bool \<Rightarrow> string list" where
  "variant_a leftPat right withNdc =
     (let sep1 = takeWhile isSpace right;
          (threadPart, r1) = take_bracketed ''%t'' (dropWhile isSpace right);
          sep1b = takeWhile isSpace r1; r2 = dropWhile isSpace r1;
          r3 = dropWhile (\<lambda>c. \<not> isSpace c) r2
      in if r2 = [] then []
         else (let sepNdc = (if withNdc then takeWhile isSpace r3 else []);
                   (ndcPart, r4) = (if withNdc then take_bracketed ''%x'' (dropWhile isSpace r3) else ([], r3));
                   sep2 = takeWhile (\<lambda>c. isSpace c \<or> isSeparatorPunct c) r4
               in if withNdc \<and> ndcPart = [] \<or> length sep2 = length r4 then []
                  else [leftPat @ ''%p'' @ escapeLiteral sep1 @ threadPart @ escapeLiteral sep1b @ ''%c'' @ escapeLiteral sepNdc
                          @ ndcPart @ escapeLiteral sep2 @ ''%m%n'']))"

definition synthesizeFromLine :: "string \<Rightarrow> date_order \<Rightarrow> string list" where
  "synthesizeFromLine line order =
     (case priority_from 0 False line of
        None \<Rightarrow> []
      | Some (ps, pe) \<Rightarrow>
          (let right = drop pe line; (leftPat, memorized) = buildLeft (take ps line) order
           in if leftPat = [] \<or> memorized then []
              else variant_b leftPat right @ variant_a leftPat right False @ variant_a leftPat right True))"

section \<open>Detection\<close>

definition candidateLibrary :: "string list" where
  "candidateLibrary =
     [''%d{%Y-%m-%d %H:%M:%S,%q} [%t] %-5p %c - %m%n'',
      ''%D{%Y-%m-%d %H:%M:%S,%q} [%t] %-5p %c - %m%n'',
      ''%d{%Y-%m-%d %H:%M:%S,%q} %-5p %c [%t] %m%n'',
      ''%d{%Y-%m-%d %H:%M:%S,%q} %-5p [%c] %m%n'',
      ''%d{%Y-%m-%d %H:%M:%S,%q} %-5p %c - %m%n'',
      ''%d{%Y-%m-%d %H:%M:%S} [%t] %-5p %c - %m%n'',
      ''%d{%Y-%m-%d %H:%M:%S} %-5p %c - %m%n'',
      ''%d{%Y-%m-%d %H:%M:%S} %p %c - %m%n'',
      ''%d{%Y-%m-%d %H:%M:%S,%q} [%t] %-5p %c %m%n'',
      ''%d{%Y-%m-%d %H:%M:%S,%q} %-5p %c [%x] - %m%n'',
      ''%d{%Y-%m-%d %H:%M:%S} %-5p %c [%x] - %m%n'',
      ''%D{%m/%d/%y %H:%M:%S} %-5p %c [%x] - %m%n'',
      ''%D{%m/%d/%y %H:%M:%S} [%t] %-5p %c - %m%n'',
      ''%D{%m/%d/%y %H:%M:%S} %-5p %c - %m%n'',
      ''%D{%m/%d/%y %H:%M:%S,%q} %-5p %c [%x] - %m%n'',
      ''%D{%m/%d/%Y %H:%M:%S} %-5p %c [%x] - %m%n'',
      ''%D{%m/%d/%Y %H:%M:%S} %-5p %c - %m%n'',
      ''%d{%m/%d/%y %H:%M:%S} %-5p %c - %m%n'',
      ''%d{%H:%M:%S,%q} [%t] %-5p %c - %m%n'',
      ''%d{%H:%M:%S} %-5p %c - %m%n'',
      ''%d [%t] %-5p %c - %m%n'',
      ''%d %-5p %c - %m%n'',
      ''%D{%b %e %H:%M:%S} %h %c[%i]: %m%n'',
      ''%D{%b %e %H:%M:%S} %h %c: %m%n'',
      ''%D{%b %e %H:%M:%S} %h %m%n'',
      ''%D{%Y-%m-%dT%H:%M:%S.%Q%z} %h %c[%i]: %m%n'',
      ''%D{%Y-%m-%dT%H:%M:%S.%Q%z} %h %c: %m%n'',
      ''%D{%Y-%m-%dT%H:%M:%S.%Q%z} %h %m%n'']"

datatype detection_source = NotDetected | FromLibrary | FromInference

definition add_new :: "string \<Rightarrow> string list \<Rightarrow> string list" where
  "add_new c seen = (if c \<in> set seen then seen else seen @ [c])"

definition inferred :: "string list \<Rightarrow> date_order \<Rightarrow> string list" where
  "inferred lines order = fold (\<lambda>line seen. fold add_new (synthesizeFromLine line order) seen) lines []"

definition detect_format ::
  "regex_engine \<Rightarrow> (encoding \<Rightarrow> bytes \<Rightarrow> string) \<Rightarrow> bytes \<Rightarrow> decoder \<Rightarrow> detection_source \<times> scored option" where
  "detect_format e conv sample d =
     (if sample = [] then (NotDetected, None)
      else (let lines = take kInferenceLines (sample_lines_of conv d sample);
                order = inferDateOrder lines;
                score = (\<lambda>c. scoreCandidate e conv c sample d)
            in case best_of score (map (\<lambda>c. applyDateOrder c order) candidateLibrary) of
                 Some s \<Rightarrow>
                   if confident s then (FromLibrary, Some s)
                   else (case best_of score (inferred lines order) of
                           Some t \<Rightarrow> if confident t then (FromInference, Some t) else (NotDetected, None)
                         | None \<Rightarrow> (NotDetected, None))
               | None \<Rightarrow>
                   (case best_of score (inferred lines order) of
                      Some t \<Rightarrow> if confident t then (FromInference, Some t) else (NotDetected, None)
                    | None \<Rightarrow> (NotDetected, None))))"

section \<open>The preview and the index\<close>

text \<open>What a row shows of a record: whether its first line was recognised, and that line.\<close>

definition row_head :: "preview_row \<Rightarrow> bool \<times> string" where
  "row_head r = (p_matched r, p_rawFirstLine r)"

definition group_head :: "(string \<Rightarrow> bool) \<Rightarrow> string list \<Rightarrow> bool \<times> string" where
  "group_head st g = (st (hd g), hd g)"

lemma fold_into_head: "row_head (fold_into k line r) = row_head r"
  by (simp add: fold_into_def row_head_def)

definition preview_ok :: "previewing \<Rightarrow> bool" where
  "preview_ok v \<longleftrightarrow> v_openRow v = int (length (v_rows v)) - 1 \<and> v_matched v = length (filter p_matched (v_rows v))
     \<and> (v_openMatched v \<longrightarrow> v_rows v \<noteq> [] \<and> p_matched (last (v_rows v)))"

lemma preview_line_ok:
  assumes "preview_ok v"
  shows "preview_ok (preview_line e fmt v line)"
    and "starts_record e fmt line \<Longrightarrow> map row_head (v_rows (preview_line e fmt v line)) = map row_head (v_rows v) @ [(True, line)]
           \<and> v_openMatched (preview_line e fmt v line)"
    and "\<not> starts_record e fmt line \<Longrightarrow> v_openMatched v \<Longrightarrow>
           map row_head (v_rows (preview_line e fmt v line)) = map row_head (v_rows v) \<and> v_openMatched (preview_line e fmt v line)"
    and "\<not> starts_record e fmt line \<Longrightarrow> \<not> v_openMatched v \<Longrightarrow>
           map row_head (v_rows (preview_line e fmt v line)) = map row_head (v_rows v) @ [(False, line)]
           \<and> \<not> v_openMatched (preview_line e fmt v line)"
proof -
  define n where "n = length (v_rows v)"
  have ok: "v_openRow v = int n - 1" "v_matched v = length (filter p_matched (v_rows v))"
      "v_openMatched v \<Longrightarrow> v_rows v \<noteq> [] \<and> p_matched (last (v_rows v))"
    using assms by (auto simp: preview_ok_def n_def)
  let ?f = "fold_into (messageColumn fmt) line"
  have matched: "p_matched (?f r) = p_matched r" for r by (simp add: fold_into_def)
  have cont: "preview_ok (preview_line e fmt v line)" "map row_head (v_rows (preview_line e fmt v line)) = map row_head (v_rows v)"
      "v_openMatched (preview_line e fmt v line)"
    if "\<not> starts_record e fmt line" "v_openMatched v"
  proof -
    obtain rs r where rs: "v_rows v = rs @ [r]" using ok(3) [OF \<open>v_openMatched v\<close>] by (metis rev_exhaust)
    have op: "v_openRow v = int (length rs)" "0 \<le> v_openRow v" using ok(1) rs by (auto simp: n_def)
    have res: "preview_line e fmt v line = v\<lparr>v_rows := rs @ [?f r]\<rparr>"
      using that op rs by (simp add: preview_line_def)
    show "preview_ok (preview_line e fmt v line)" "map row_head (v_rows (preview_line e fmt v line)) = map row_head (v_rows v)"
        "v_openMatched (preview_line e fmt v line)"
      using ok op \<open>v_openMatched v\<close> rs by (auto simp: res preview_ok_def matched fold_into_head n_def)
  qed
  show "preview_ok (preview_line e fmt v line)"
    using cont(1) ok by (cases "v_openMatched v") (auto simp: preview_ok_def preview_line_def start_row_def plain_row_def n_def)
  show "starts_record e fmt line \<Longrightarrow> map row_head (v_rows (preview_line e fmt v line)) = map row_head (v_rows v) @ [(True, line)]
      \<and> v_openMatched (preview_line e fmt v line)"
    by (simp add: preview_line_def start_row_def row_head_def)
  show "\<not> starts_record e fmt line \<Longrightarrow> v_openMatched v \<Longrightarrow>
      map row_head (v_rows (preview_line e fmt v line)) = map row_head (v_rows v) \<and> v_openMatched (preview_line e fmt v line)"
    using cont by blast
  show "\<not> starts_record e fmt line \<Longrightarrow> \<not> v_openMatched v \<Longrightarrow>
      map row_head (v_rows (preview_line e fmt v line)) = map row_head (v_rows v) @ [(False, line)]
      \<and> \<not> v_openMatched (preview_line e fmt v line)"
    by (simp add: preview_line_def plain_row_def row_head_def)
qed

lemma group_lines_skip:
  assumes "\<not> st l" shows "group_lines st (l # ls) = [l] # group_lines st ls"
  using assms by simp

text \<open>What the rows hold once \<open>ls\<close> is read, when they held the heads \<open>hs\<close> before: lines after a matched one belong to it.\<close>

definition heads_after :: "(string \<Rightarrow> bool) \<Rightarrow> bool \<Rightarrow> string list \<Rightarrow> (bool \<times> string) list" where
  "heads_after st open_matched ls =
     map (group_head st) (group_lines st (if open_matched then dropWhile (\<lambda>l. \<not> st l) ls else ls))"

lemma heads_after_simps:
  "heads_after st om [] = []"
  "st l \<Longrightarrow> heads_after st om (l # ls) = (True, l) # heads_after st True ls"
  "\<not> st l \<Longrightarrow> heads_after st True (l # ls) = heads_after st True ls"
  "\<not> st l \<Longrightarrow> heads_after st False (l # ls) = (False, l) # heads_after st False ls"
  by (simp_all add: heads_after_def group_head_def)

lemma preview_lines_heads:
  assumes "preview_ok v" "length (v_rows v) \<le> maxRecords"
  shows "preview_ok (preview_lines e fmt maxRecords ls v)
         \<and> map row_head (v_rows (preview_lines e fmt maxRecords ls v)) =
             take maxRecords (map row_head (v_rows v) @ heads_after (starts_record e fmt) (v_openMatched v) ls)"
  using assms
proof (induction ls arbitrary: v)
  case Nil
  then show ?case by (simp add: heads_after_simps)
next
  case (Cons l ls)
  let ?v = "preview_line e fmt v l"
  show ?case
  proof (cases "length (v_rows v) < maxRecords")
    case False
    then show ?thesis using Cons.prems by simp
  next
    case room: True
    have ok: "preview_ok ?v" by (rule preview_line_ok(1) [OF Cons.prems(1)])
    have same: "map row_head (v_rows ?v) @ heads_after (starts_record e fmt) (v_openMatched ?v) ls
          = map row_head (v_rows v) @ heads_after (starts_record e fmt) (v_openMatched v) (l # ls)
        \<and> length (map row_head (v_rows ?v)) \<le> length (map row_head (v_rows v)) + 1"
      using preview_line_ok(2-4) [OF Cons.prems(1), of e fmt l]
      by (cases "starts_record e fmt l"; cases "v_openMatched v") (simp_all add: heads_after_simps)
    then have "length (v_rows ?v) \<le> maxRecords" using room by simp
    from Cons.IH [OF ok this] same room show ?thesis by simp
  qed
qed

lemma matched_heads: "length (filter p_matched rs) = length (filter fst (map row_head rs))"
  by (induction rs) (auto simp: row_head_def)

lemma preview_heads:
  "map row_head (rows (preview_build e conv fmt sample d maxRecords)) =
     take maxRecords (map (group_head (starts_record e fmt)) (group_lines (starts_record e fmt) (sample_lines_of conv d sample)))
   \<and> matchedCount (preview_build e conv fmt sample d maxRecords) =
       length (filter p_matched (rows (preview_build e conv fmt sample d maxRecords)))
   \<and> totalCount (preview_build e conv fmt sample d maxRecords) = length (rows (preview_build e conv fmt sample d maxRecords))"
proof -
  have start: "preview_ok previewing_start" "length (v_rows previewing_start) \<le> maxRecords"
    by (simp_all add: preview_ok_def previewing_start_def)
  from preview_lines_heads [OF start, of e fmt "sample_lines_of conv d sample"] show ?thesis
    by (simp add: preview_build_def Let_def preview_ok_def heads_after_def previewing_start_def)
qed

text \<open>What a format makes of a sample, by the grouping the index uses: its first records and how many of them it recognises.\<close>

definition recognised ::
  "regex_engine \<Rightarrow> (encoding \<Rightarrow> bytes \<Rightarrow> string) \<Rightarrow> log_format \<Rightarrow> bytes \<Rightarrow> decoder \<Rightarrow> nat \<Rightarrow> nat \<times> nat" where
  "recognised e conv fmt sample d n =
     (let hs = take n (map (group_head (starts_record e fmt)) (group_lines (starts_record e fmt) (sample_lines_of conv d sample)))
      in (length (filter fst hs), length hs))"

lemma preview_counts:
  "(matchedCount (preview_build e conv fmt sample d n), totalCount (preview_build e conv fmt sample d n)) =
     recognised e conv fmt sample d n"
proof -
  let ?p = "preview_build e conv fmt sample d n"
  define hs where "hs = map row_head (rows ?p)"
  have "matchedCount ?p = length (filter fst hs)" "totalCount ?p = length hs"
    using preview_heads [of e conv fmt sample d n, THEN conjunct2] matched_heads [of "rows ?p"]
    by (simp_all only: length_map hs_def)
  moreover have "recognised e conv fmt sample d n = (length (filter fst hs), length hs)"
    unfolding recognised_def Let_def hs_def by (simp only: preview_heads [of e conv fmt sample d n, THEN conjunct1, symmetric])
  ultimately show ?thesis by simp
qed

section \<open>Choosing\<close>

definition valid_scores :: "(string \<Rightarrow> scored) \<Rightarrow> string list \<Rightarrow> scored list" where
  "valid_scores score cands = filter (\<lambda>s. s_format s \<noteq> None) (map score cands)"

lemma score_fields:
  "s_pattern (scoreCandidate e conv c sample d) = c"
  "0 < s_total (scoreCandidate e conv c sample d)"
  "s_format (scoreCandidate e conv c sample d) = Some fmt \<Longrightarrow>
     compile (rx_valid e) c = Inr fmt
     \<and> (let (m, t) = recognised e conv fmt sample d kScoreRecords
        in s_hits (scoreCandidate e conv c sample d) = m \<and> s_total (scoreCandidate e conv c sample d) = max 1 t)"
  using preview_counts [of e conv fmt sample d kScoreRecords, symmetric]
proof -
  assume some: "s_format (scoreCandidate e conv c sample d) = Some fmt"
  then have c: "compile (rx_valid e) c = Inr fmt"
    by (auto simp: scoreCandidate_def Let_def split: sum.splits)
  let ?p = "preview_build e conv fmt sample d kScoreRecords"
  have "totalCount ?p = 0 \<Longrightarrow> matchedCount ?p = 0"
    using preview_heads [of e conv fmt sample d kScoreRecords] by simp
  then show "compile (rx_valid e) c = Inr fmt
     \<and> (let (m, t) = recognised e conv fmt sample d kScoreRecords
        in s_hits (scoreCandidate e conv c sample d) = m \<and> s_total (scoreCandidate e conv c sample d) = max 1 t)"
    using c by (simp add: scoreCandidate_def Let_def preview_counts [of e conv fmt sample d kScoreRecords, symmetric] max_def)
qed (auto simp: scoreCandidate_def Let_def split: sum.splits)

text \<open>\<open>better\<close> orders rates, then numbers of fields: never both ways round, and a third cannot fall between.\<close>

lemma ratio_trans:
  fixes a b c m n k :: nat
  assumes "0 < n" "a * n \<le> b * m" "b * k \<le> c * n"
  shows "a * k \<le> c * m"
proof -
  have "a * n * k \<le> b * m * k" using assms(2) by simp
  also have "\<dots> = b * k * m" by simp
  also have "\<dots> \<le> c * n * m" using assms(3) by simp
  finally have "(a * k) * n \<le> (c * m) * n" by (simp add: ac_simps)
  then show ?thesis using assms(1) by simp
qed

lemma not_better_trans:
  assumes pos: "0 < s_total a" "0 < s_total b" "0 < s_total c"
    and ab: "\<not> better a b" and bc: "\<not> better b c"
  shows "\<not> better a c"
proof
  assume ac: "better a c"
  have r: "s_hits a * s_total b \<le> s_hits b * s_total a" "s_hits b * s_total c \<le> s_hits c * s_total b"
      "s_hits c * s_total a \<le> s_hits a * s_total c"
    using ab bc ac by (auto simp: better_def split: if_splits)
  have down: "s_hits b * s_total a \<le> s_hits a * s_total b"
    using ratio_trans [OF pos(3) r(2) r(3)] .
  have again: "s_hits c * s_total b \<le> s_hits b * s_total c"
    using ratio_trans [OF pos(1) r(3) r(1)] .
  have eq: "s_hits a * s_total b = s_hits b * s_total a" "s_hits b * s_total c = s_hits c * s_total b"
    using r down again by auto
  have ac_eq: "s_hits a * s_total c = s_hits c * s_total a"
    using ratio_trans [OF pos(2) r(1) r(2)] r(3) by simp
  show False using ab bc ac eq ac_eq by (simp add: better_def)
qed

lemma better_asym: "better a b \<Longrightarrow> \<not> better b a"
  by (auto simp: better_def split: if_splits)

lemma not_better_self: "\<not> better a a"
  by (simp add: better_def)

lemma best_of_best:
  assumes pos: "\<And>c. 0 < s_total (score c)"
  shows "(case best_of score cands of
            None \<Rightarrow> valid_scores score cands = []
          | Some s \<Rightarrow> s \<in> set (valid_scores score cands) \<and> list_all (\<lambda>t. \<not> better t s) (valid_scores score cands))"
proof (induction cands rule: rev_induct)
  case Nil
  then show ?case by (simp add: best_of_def valid_scores_def)
next
  case (snoc c cs)
  have step: "best_of score (cs @ [c]) = pick (best_of score cs) (score c)" by (simp add: best_of_def)
  have vs: "valid_scores score (cs @ [c]) = valid_scores score cs @ (if s_format (score c) = None then [] else [score c])"
    by (simp add: valid_scores_def)
  have vp: "0 < s_total t" if "t \<in> set (valid_scores score cs)" for t using that pos by (auto simp: valid_scores_def)
  show ?case
  proof (cases "best_of score cs")
    case None
    then show ?thesis using snoc by (auto simp: step vs pick_def not_better_self)
  next
    case (Some s)
    with snoc have s: "s \<in> set (valid_scores score cs)" "\<And>t. t \<in> set (valid_scores score cs) \<Longrightarrow> \<not> better t s"
      by (auto simp: list_all_iff)
    have "\<not> better t (score c)" if "better (score c) s" "t \<in> set (valid_scores score cs)" for t
      using not_better_trans [OF vp [OF that(2)] vp [OF s(1)] pos s(2) [OF that(2)] better_asym [OF that(1)]] .
    with Some s show ?thesis by (auto simp: step vs pick_def not_better_self list_all_iff)
  qed
qed

lemma group_lines_map: "group_lines P (map g ls) = map (map g) (group_lines (\<lambda>x. P (g x)) ls)"
  by (induction "\<lambda>x. P (g x)" ls rule: group_lines.induct) (simp_all add: takeWhile_map dropWhile_map o_def)

text \<open>What the indexer is given of a format.\<close>

definition indexing_format :: "regex_engine \<Rightarrow> log_format \<Rightarrow> scan_format" where
  "indexing_format e fmt =
     \<lparr>startPatternEmpty = (startPattern fmt = []), startIsValid = rx_valid e (startPattern fmt),
      startRe = (\<lambda>t. map_option (\<lambda>m g. m (nat g)) (rx_match e (startPattern fmt) t)),
      startCaptureCount = int (captures (startPattern fmt)),
      fullUsable = (rx_valid e (recordPattern fmt) \<and> recordPattern fmt \<noteq> []),
      fullRe = (\<lambda>t. map_option (\<lambda>m g. m (nat g)) (rx_match e (recordPattern fmt) t)),
      dateGroup = l_dateGroup fmt, prioGroup = l_prioGroup fmt, loggerGroup = l_loggerGroup fmt,
      threadGroup = l_threadGroup fmt\<rparr>"

lemma indexing_start: "is_start (indexing_format e fmt) (off, len, body) = starts_record e fmt body"
  by (simp add: is_start_def haveFormat_def indexing_format_def starts_record_def)

lemma sample_groups:
  "group_lines (starts_record e fmt) (sample_lines_of conv d sample) =
     map (map (\<lambda>(off, len, body). body)) (group_lines (is_start (indexing_format e fmt)) (file_lines conv d sample (m_bomLength d)))"
proof -
  have "is_start (indexing_format e fmt) = (\<lambda>x. starts_record e fmt ((\<lambda>(off, len, body). body) x))"
    by (auto simp: fun_eq_iff indexing_start)
  then show ?thesis by (simp add: sample_lines_of_def group_lines_map)
qed

text \<open>C18: preview_is_index. The preview of a sample shows the records the indexer would cut the same bytes into, up to
  the number asked for: as many rows as the index has records, each headed by the first line of its group and marked as
  recognised exactly when the start pattern matches that line, with the recognised ones counted.\<close>

theorem preview_is_index:
  assumes "\<And>p t. progress p t"
  shows "totalCount (preview_build e conv fmt sample d n) =
      min n (length (records (fst (index (indexing_format e fmt) parse conv d (\<lambda>pos want. take want (drop pos sample))
        (length sample) progress))))
    \<and> map row_head (rows (preview_build e conv fmt sample d n)) =
      take n (map (group_head (starts_record e fmt)) (group_lines (starts_record e fmt) (sample_lines_of conv d sample)))
    \<and> (matchedCount (preview_build e conv fmt sample d n), totalCount (preview_build e conv fmt sample d n)) =
      recognised e conv fmt sample d n"
proof -
  have "length (records (fst (index (indexing_format e fmt) parse conv d (\<lambda>pos want. take want (drop pos sample))
        (length sample) progress))) = length (group_lines (starts_record e fmt) (sample_lines_of conv d sample))"
    using arg_cong [OF index_summaries [of progress "indexing_format e fmt" parse conv d sample, OF assms], of length]
    by (simp add: sample_groups)
  moreover have "totalCount (preview_build e conv fmt sample d n) =
      min n (length (group_lines (starts_record e fmt) (sample_lines_of conv d sample)))"
    using preview_counts [of e conv fmt sample d n] by (simp add: recognised_def Let_def)
  ultimately show ?thesis using preview_heads [of e conv fmt sample d n] preview_counts [of e conv fmt sample d n] by simp
qed

text \<open>A format and an engine for the witnesses: records start with a hash sign.\<close>

definition hash_engine :: regex_engine where
  "hash_engine = \<lparr>rx_valid = (\<lambda>_. True), rx_match = (\<lambda>p t. if take 1 t = ''#'' then Some (\<lambda>g. drop 1 t) else None)\<rparr>"

definition hash_log_format :: log_format where
  "hash_log_format = \<lparr>recordPattern = ''^#(.*)$'', startPattern = ''^#'', l_fields = [\<lparr>f_role = RMessage, f_name = ''Message'', f_group = 1\<rparr>],
     l_dateGroup = - 1, l_prioGroup = - 1, l_loggerGroup = - 1, l_threadGroup = - 1, l_msgGroup = 1,
     impliedDateFormat = None, impliedZone = UTC\<rparr>"

lemma hash_rows:
  "sample_lines_of ascii_conv utf8_decoder sample_log = [''a'', ''#b'', ''c'', ''#'']"
  "starts_record hash_engine hash_log_format body = (take 1 body = ''#'')"
  by (simp_all add: sample_lines_of_def sample_lines starts_record_def hash_engine_def hash_log_format_def)

theorem preview_is_index_witness:
  "totalCount (preview_build hash_engine ascii_conv hash_log_format sample_log utf8_decoder 20) =
     length (records (fst (index (indexing_format hash_engine hash_log_format) (\<lambda>_. 0) ascii_conv utf8_decoder
       (\<lambda>pos want. take want (drop pos sample_log)) (length sample_log) (\<lambda>_ _. True))))
   \<and> map row_head (rows (preview_build hash_engine ascii_conv hash_log_format sample_log utf8_decoder 20)) =
     [(False, ''a''), (True, ''#b''), (True, ''#'')]"
  using preview_is_index [of "\<lambda>_ _. True" hash_engine ascii_conv hash_log_format sample_log utf8_decoder 20 "\<lambda>_. 0", OF TrueI]
  by (simp add: hash_rows group_head_def recognised_def min_def split: if_splits)

text \<open>The patterns tried in the layer an answer came from.\<close>

definition tried :: "detection_source \<Rightarrow> string list \<Rightarrow> string list" where
  "tried src lines =
     (if src = FromLibrary then map (\<lambda>c. applyDateOrder c (inferDateOrder lines)) candidateLibrary
      else inferred lines (inferDateOrder lines))"

text \<open>C19: detection_is_sound. A format that detection answers compiled from the pattern it came with, and of the records
  the index would make of the head of the sample with it (two hundred at most, at least one), three in five or more are
  recognised; no pattern tried in the same layer that compiles is better.\<close>

theorem detection_is_sound:
  assumes "detect_format e conv sample d = (src, Some s)"
  shows "\<exists>fmt m t.
      s_format s = Some fmt \<and> compile (rx_valid e) (s_pattern s) = Inr fmt \<and>
      recognised e conv fmt sample d kScoreRecords = (m, t) \<and> 0 < t \<and> 3 * t \<le> 5 * m \<and> src \<noteq> NotDetected \<and>
      s_pattern s \<in> set (tried src (take kInferenceLines (sample_lines_of conv d sample))) \<and>
      (\<nexists>c. c \<in> set (tried src (take kInferenceLines (sample_lines_of conv d sample))) \<and>
            s_format (scoreCandidate e conv c sample d) \<noteq> None \<and> better (scoreCandidate e conv c sample d) s)"
proof -
  define score where "score = (\<lambda>c. scoreCandidate e conv c sample d)"
  let ?C = "tried src (take kInferenceLines (sample_lines_of conv d sample))"
  have best: "best_of score ?C = Some s" "confident s" "src \<noteq> NotDetected"
    using assms by (auto simp: detect_format_def tried_def score_def Let_def split: if_splits option.splits)
  have s: "s \<in> set (valid_scores score ?C)" "list_all (\<lambda>t. \<not> better t s) (valid_scores score ?C)"
    using best_of_best [of score ?C] best(1) score_fields(2) by (simp_all add: score_def)
  then obtain c fmt where c: "c \<in> set ?C" "s = score c" "s_format s = Some fmt" by (auto simp: valid_scores_def)
  obtain m t where mt: "recognised e conv fmt sample d kScoreRecords = (m, t)" by fastforce
  from score_fields(3) [OF c(3) [unfolded c(2) score_def]] mt
  have f: "compile (rx_valid e) c = Inr fmt" "s_hits s = m" "s_total s = max 1 t" by (simp_all add: c(2) score_def)
  have "m \<le> t" using mt unfolding recognised_def Let_def prod.inject by (metis length_filter_le)
  then have "0 < t" "3 * t \<le> 5 * m" using best(2) f(2,3) by (auto simp: confident_def max_def split: if_splits)
  moreover have "s_pattern s = c" by (simp add: c(2) score_def score_fields(1))
  moreover have "\<not> (\<exists>c. c \<in> set ?C \<and> s_format (score c) \<noteq> None \<and> better (score c) s)"
    using s(2) by (auto simp: valid_scores_def list_all_iff)
  ultimately show ?thesis using c f(1) mt best(3) by (auto simp: score_def)
qed

text \<open>An engine that matches every line, for the witness: every candidate that compiles recognises both lines.\<close>

definition open_engine :: regex_engine where
  "open_engine = \<lparr>rx_valid = (\<lambda>_. True), rx_match = (\<lambda>p t. Some (\<lambda>g. t))\<rparr>"

definition two_lines :: bytes where
  "two_lines = [0x61, 0x0A, 0x62, 0x0A]"

lemma two_lines_texts: "sample_lines_of ascii_conv utf8_decoder two_lines = [''a'', ''b'']"
  by code_simp

lemma plain_layout_compiles: "\<exists>f. compile (\<lambda>_. True) ''%d %-5p %c - %m%n'' = Inr f"
proof -
  have "(case compile (\<lambda>_. True) ''%d %-5p %c - %m%n'' of Inl err \<Rightarrow> False | Inr f \<Rightarrow> True)" by code_simp
  then show ?thesis by (auto split: sum.splits)
qed

lemma compiled_start: "compile v c = Inr fmt \<Longrightarrow> startPattern fmt \<noteq> []"
  by (auto simp: compile_def Let_def format_of_def split: if_splits sum.splits)

lemma open_engine_scores:
  assumes "s_format (scoreCandidate open_engine ascii_conv c two_lines utf8_decoder) = Some fmt"
  shows "confident (scoreCandidate open_engine ascii_conv c two_lines utf8_decoder)"
proof -
  have "compile (rx_valid open_engine) c = Inr fmt" using score_fields(3) [OF assms] by (simp add: split_def)
  then have "starts_record open_engine fmt = (\<lambda>_. True)"
    by (simp add: starts_record_def fun_eq_iff open_engine_def compiled_start)
  then have "recognised open_engine ascii_conv fmt two_lines utf8_decoder kScoreRecords = (2, 2)"
    by (simp add: recognised_def two_lines_texts group_head_def kScoreRecords_def)
  with score_fields(3) [OF assms] show ?thesis by (simp add: confident_def)
qed

lemma two_lines_detected: "\<exists>s. detect_format open_engine ascii_conv two_lines utf8_decoder = (FromLibrary, Some s)"
proof -
  let ?score = "\<lambda>c. scoreCandidate open_engine ascii_conv c two_lines utf8_decoder"
  let ?C = "map (\<lambda>c. applyDateOrder c MonthFirst) candidateLibrary"
  have order: "inferDateOrder (take kInferenceLines [''a'', ''b'']) = MonthFirst" by code_simp
  have "two_lines \<noteq> []" by (simp add: two_lines_def)
  have same: "?C = candidateLibrary" by (simp add: applyDateOrder_def)
  have "''%d %-5p %c - %m%n'' \<in> set candidateLibrary" by (simp add: candidateLibrary_def)
  moreover obtain f where "compile (\<lambda>_. True) ''%d %-5p %c - %m%n'' = Inr f" using plain_layout_compiles by blast
  then have "s_format (?score ''%d %-5p %c - %m%n'') \<noteq> None"
    by (simp add: scoreCandidate_def open_engine_def Let_def)
  ultimately have "valid_scores ?score ?C \<noteq> []" unfolding same by (auto simp: valid_scores_def filter_empty_conv)
  then obtain s where s: "best_of ?score ?C = Some s" "s \<in> set (valid_scores ?score ?C)"
    using best_of_best [of ?score ?C] score_fields(2) by (cases "best_of ?score ?C") auto
  then have "confident s" by (auto simp: valid_scores_def intro: open_engine_scores)
  with s(1) \<open>two_lines \<noteq> []\<close> show ?thesis by (simp add: detect_format_def two_lines_texts order Let_def)
qed

theorem detection_is_sound_witness:
  "\<exists>s fmt m t.
      detect_format open_engine ascii_conv two_lines utf8_decoder = (FromLibrary, Some s) \<and>
      s_format s = Some fmt \<and> recognised open_engine ascii_conv fmt two_lines utf8_decoder kScoreRecords = (m, t) \<and>
      0 < t \<and> 3 * t \<le> 5 * m \<and> s_pattern s \<in> set candidateLibrary"
proof -
  obtain s where s: "detect_format open_engine ascii_conv two_lines utf8_decoder = (FromLibrary, Some s)"
    using two_lines_detected by blast
  have order: "inferDateOrder (take kInferenceLines [''a'', ''b'']) = MonthFirst" by code_simp
  have "tried FromLibrary (take kInferenceLines (sample_lines_of ascii_conv utf8_decoder two_lines)) = candidateLibrary"
    by (simp add: tried_def two_lines_texts order applyDateOrder_def)
  with detection_is_sound [OF s] s show ?thesis by auto
qed

section \<open>Patterns put together compile\<close>

definition roles :: "compiling \<Rightarrow> field_role list" where
  "roles st = map p_role (filter p_isField (c_pieces st))"

text \<open>A text the compiler takes in its stride, and the roles it leaves.\<close>

definition compiles_by :: "string \<Rightarrow> field_role list \<Rightarrow> bool" where
  "compiles_by pat rs \<longleftrightarrow>
     (\<forall>i rest st. \<exists>k st'. compile_from i (pat @ rest) st = compile_from k rest st' \<and> roles st' = roles st @ rs)"

lemma compiles_by_Nil: "compiles_by [] []"
  by (auto simp: compiles_by_def)

lemma compiles_by_append:
  assumes "compiles_by a xs" "compiles_by b ys"
  shows "compiles_by (a @ b) (xs @ ys)"
  unfolding compiles_by_def
proof (intro allI)
  fix i rest st
  obtain k st1 where 1: "compile_from i (a @ b @ rest) st = compile_from k (b @ rest) st1" "roles st1 = roles st @ xs"
    using assms(1) unfolding compiles_by_def by blast
  obtain k2 st2 where 2: "compile_from k (b @ rest) st1 = compile_from k2 rest st2" "roles st2 = roles st1 @ ys"
    using assms(2) unfolding compiles_by_def by blast
  show "\<exists>k st'. compile_from i ((a @ b) @ rest) st = compile_from k rest st' \<and> roles st' = roles st @ xs @ ys"
    using 1 2 by (intro exI [of _ k2] exI [of _ st2]) simp
qed

lemma roles_flush: "roles (flushLiteral st) = roles st"
  by (simp add: roles_def flushLiteral_def)

lemma roles_set_group: "roles (set_group r g st) = roles st"
  by (cases r) (simp_all add: roles_def set_group_def)

lemma roles_emit: "roles (emit_field base role w shown st) = roles st @ [role]"
  using roles_flush [of st] by (simp add: emit_field_def Let_def roles_set_group) (simp add: roles_def makeFieldPiece_def Let_def)

lemma modifier_none: "c \<noteq> CHR ''-'' \<Longrightarrow> \<not> isDigit c \<Longrightarrow> c \<noteq> CHR ''.'' \<Longrightarrow> modifier (c # s) = (False, 0)"
  by (simp add: modifier_def)

lemma compiles_by_char: "c \<noteq> CHR ''%'' \<Longrightarrow> compiles_by [c] []"
  unfolding compiles_by_def
  by (intro allI, subst compile_from.simps) (auto simp: roles_def intro!: exI)

lemma compiles_by_percent: "compiles_by ''%%'' []"
  unfolding compiles_by_def
  by (intro allI, subst compile_from.simps)
    (auto simp: conversion_def modifier_none isDigit_def code_def roles_def intro!: exI)

lemma compiles_by_newline: "compiles_by ''%n'' []"
  unfolding compiles_by_def
  by (intro allI, subst compile_from.simps)
    (auto simp: conversion_def modifier_none isDigit_def code_def roles_flush intro!: exI)

lemma compiles_by_spec:
  assumes "simple_spec c = Some (base, r)" "c \<notin> set ''-.%dDn''" "\<not> isDigit c"
  shows "compiles_by [CHR ''%'', c] [r]"
  unfolding compiles_by_def
proof (intro allI)
  fix i rest st
  have "modifier (c # rest) = (False, 0)" using assms(2,3) by (intro modifier_none) auto
  then have "conversion i (c # rest) st = Inr (emit_field base r False [] st, 1)"
    using assms by (simp add: conversion_def)
  then have "compile_from i ([CHR ''%'', c] @ rest) st = compile_from (i + 2) rest (emit_field base r False [] st)"
    by (subst compile_from.simps) simp
  then show "\<exists>k st'. compile_from i ([CHR ''%'', c] @ rest) st = compile_from k rest st' \<and> roles st' = roles st @ [r]"
    by (intro exI) (auto simp: roles_emit)
qed

lemma compiles_by_simple:
  "compiles_by ''%p'' [RPriority]" "compiles_by ''%t'' [RThread]" "compiles_by ''%x'' [RNdc]" "compiles_by ''%m'' [RMessage]"
  by (rule compiles_by_spec; simp add: simple_spec_def isDigit_def code_def)+

text \<open>After \<open>%c\<close> an opening brace would begin an argument.\<close>

lemma compiles_by_logger:
  assumes "compiles_by b rs" "b \<noteq> []" "hd b \<noteq> CHR ''{''"
  shows "compiles_by (''%c'' @ b) (RLogger # rs)"
  unfolding compiles_by_def
proof (intro allI)
  fix i rest st
  let ?st = "emit_field rx_word RLogger False (shown_name [] []) st"
  have "modifier (CHR ''c'' # b @ rest) = (False, 0)" by (intro modifier_none) (simp_all add: isDigit_def code_def)
  moreover have "scanBraceArg (b @ rest) = Some ([], 0)" using assms(2,3) by (simp add: scanBraceArg_def)
  ultimately have "conversion i (CHR ''c'' # b @ rest) st = Inr (?st, 1)"
    by (simp add: conversion_def simple_spec_def brace_spec_def)
  then have "compile_from i ((''%c'' @ b) @ rest) st = compile_from (i + 2) (b @ rest) ?st"
    by (subst compile_from.simps) simp
  moreover obtain k st' where "compile_from (i + 2) (b @ rest) ?st = compile_from k rest st'" "roles st' = roles ?st @ rs"
    using assms(1) unfolding compiles_by_def by blast
  ultimately show "\<exists>k st'. compile_from i ((''%c'' @ b) @ rest) st = compile_from k rest st' \<and> roles st' = roles st @ RLogger # rs"
    by (intro exI [of _ k] exI [of _ st']) (simp add: roles_emit)
qed

lemma compiles_by_escaped: "compiles_by (escapeLiteral s) []"
proof (induction s)
  case Nil
  then show ?case by (simp add: escapeLiteral_def compiles_by_Nil)
next
  case (Cons c s)
  have "compiles_by (escapeLiteral [c]) []"
    by (simp add: escapeLiteral_def compiles_by_percent compiles_by_char)
  from compiles_by_append [OF this Cons] show ?case by (simp add: escapeLiteral_def)
qed

text \<open>A date format every code of which is known.\<close>

definition translates :: "string \<Rightarrow> bool" where
  "translates fmt \<longleftrightarrow> (\<forall>i off f. \<exists>t. translate_from fmt i off f = Inr t)"

lemma translates_Nil: "translates []"
  by (simp add: translates_def translate_from.simps)

lemma translates_char: "c \<noteq> CHR ''%'' \<Longrightarrow> translates s \<Longrightarrow> translates (c # s)"
  unfolding translates_def
proof (intro allI)
  fix i off f assume c: "c \<noteq> CHR ''%''" "\<forall>i off f. \<exists>t. translate_from s i off f = Inr t"
  then obtain t where "translate_from s (i + 1) off f = Inr t" by blast
  with c(1) show "\<exists>t. translate_from (c # s) i off f = Inr t" by (subst translate_from.simps) simp
qed

lemma translates_code:
  assumes "c \<in> set ''YymdHMSq''" "translates s"
  shows "translates (CHR ''%'' # c # s)"
  unfolding translates_def
proof (intro allI)
  fix i off f
  have c: "expansionOf c = []" "date_code c b \<noteq> None" for b using assms(1) by (auto simp: expansionOf_def date_code_def)
  obtain t where "translate_from s (i + 2) off f = Inr t" using assms(2) unfolding translates_def by blast
  with c show "\<exists>t. translate_from (CHR ''%'' # c # s) i off f = Inr t"
    by (subst translate_from.simps) (auto simp: Let_def split: option.splits)
qed

lemmas translates_intros = translates_Nil translates_char translates_code

lemma roles_dated: "roles (st\<lparr>c_dateFormat := a, c_zone := b\<rparr>) = roles st"
  by (simp add: roles_def)

lemma compiles_by_date:
  assumes "translates body" "CHR ''}'' \<notin> set body"
  shows "compiles_by (''%d{'' @ body @ ''}'') [RDate]"
  unfolding compiles_by_def
proof (intro allI)
  fix i rest st
  have m: "modifier (CHR ''d'' # s) = (False, 0)" for s by (intro modifier_none) (simp_all add: isDigit_def code_def)
  have "takeWhile (\<lambda>c. c \<noteq> CHR ''}'') (body @ CHR ''}'' # rest) = body"
    using assms(2) by (simp add: takeWhile_tail) (auto simp: takeWhile_eq_all_conv)
  then have arg: "scanBraceArg (CHR ''{'' # body @ CHR ''}'' # rest) = Some (body, length body + 2)"
    by (simp add: scanBraceArg_def)
  obtain z where "translate_from body 0 (int (i + 1) + 2) None = Inr z" using assms(1) unfolding translates_def by blast
  then have "\<exists>t. translateDateFormat body (int (i + 1) + 2) None = Inr t" by (simp add: translateDateFormat_def)
  then have "\<exists>st1. date_spec (i + 1) (CHR ''d'') False (CHR ''{'' # body @ CHR ''}'' # rest) st = Inr (st1, length body + 2)
      \<and> roles st1 = roles st @ [RDate]"
    by (auto simp: date_spec_def arg add.commute roles_emit roles_dated)
  then obtain st1 where d: "date_spec (i + 1) (CHR ''d'') False (CHR ''{'' # body @ CHR ''}'' # rest) st = Inr (st1, length body + 2)"
      "roles st1 = roles st @ [RDate]" by blast
  have "conversion i (CHR ''d'' # CHR ''{'' # body @ CHR ''}'' # rest) st = Inr (st1, length body + 3)"
    using d(1) by (simp add: conversion_def m)
  then have "compile_from i ((''%d{'' @ body @ ''}'') @ rest) st = compile_from (i + 1 + (length body + 3)) rest st1"
    by (subst compile_from.simps) (simp add: numeral_3_eq_3)
  with d(2) show "\<exists>k st'. compile_from i ((''%d{'' @ body @ ''}'') @ rest) st = compile_from k rest st' \<and> roles st' = roles st @ [RDate]"
    by blast
qed

fun digits_apart :: "string \<Rightarrow> bool" where
  "digits_apart (a # b # s) = (\<not> (isDigit a \<and> isDigit b) \<and> digits_apart (b # s))"
| "digits_apart s = True"

lemma digits_apart_none: "list_all (\<lambda>c. \<not> isDigit c) s \<Longrightarrow> digits_apart s"
  by (induction s rule: digits_apart.induct) auto

lemma digits_apart_Cons: "digits_apart (x # s) \<longleftrightarrow> digits_apart s \<and> \<not> (s \<noteq> [] \<and> isDigit x \<and> isDigit (hd s))"
  by (cases s) auto

lemma digits_apart_append:
  "digits_apart a \<Longrightarrow> digits_apart b \<Longrightarrow> (a \<noteq> [] \<Longrightarrow> b \<noteq> [] \<Longrightarrow> \<not> (isDigit (last a) \<and> isDigit (hd b))) \<Longrightarrow> digits_apart (a @ b)"
  by (induction a) (auto simp: digits_apart_Cons hd_append simp del: digits_apart.simps(1))

definition digit_free :: "string \<Rightarrow> bool" where
  "digit_free s \<longleftrightarrow> list_all (\<lambda>c. \<not> isDigit c) s"

lemma digit_free_simps [simp]: "digit_free []" "digit_free (c # s) = (\<not> isDigit c \<and> digit_free s)"
    "digit_free (s @ t) = (digit_free s \<and> digit_free t)"
  by (simp_all add: digit_free_def)

lemma digits_free_append: "digits_apart a \<Longrightarrow> digit_free b \<Longrightarrow> digits_apart (a @ b)"
  by (rule digits_apart_append) (auto simp: digit_free_def intro: digits_apart_none simp: list_all_iff)

lemma free_digits_append: "digit_free a \<Longrightarrow> digits_apart b \<Longrightarrow> digits_apart (a @ b)"
  by (rule digits_apart_append) (auto simp: digit_free_def intro: digits_apart_none simp: list_all_iff)

lemma escape_free: "digit_free s \<Longrightarrow> digit_free (escapeLiteral s)"
  by (induction s) (auto simp: escapeLiteral_def isDigit_def code_def)

lemma separators_free:
  "isSpace c \<Longrightarrow> \<not> isDigit c" "isSeparatorPunct c \<Longrightarrow> \<not> isDigit c"
  by (auto simp: isSpace_def isDigit_def isSeparatorPunct_def code_def)

lemma left_compiles:
  assumes "left_from s n = (pat, m)"
  shows "(\<exists>k. compiles_by pat (replicate k RThread))
     \<and> (\<not> m \<longrightarrow> digits_apart pat \<and> (0 < n \<longrightarrow> pat = [] \<or> \<not> isDigit (hd pat)))"
  using assms
proof (induction s n arbitrary: pat m rule: left_from.induct)
  case (1 s n)
  show ?case
  proof (cases s)
    case Nil
    then show ?thesis using 1(3) compiles_by_Nil by (subst (asm) left_from.simps) (auto intro!: exI [of _ 0])
  next
    case (Cons c cs)
    show ?thesis
    proof (cases "bracketed s")
      case (Some r)
      obtain pat' m' where r: "left_from r 0 = (pat', m')" by fastforce
      have pm: "pat = ''[%t]'' @ pat'" "m = m'"
        using 1(3) Cons Some r by (subst (asm) left_from.simps, simp)+
      from 1(2) [OF Cons Some r] obtain k where k: "compiles_by pat' (replicate k RThread)"
        and d: "\<not> m' \<longrightarrow> digits_apart pat'" by blast
      have "compiles_by (''['' @ ''%t'' @ '']'' @ pat') ([] @ [RThread] @ [] @ replicate k RThread)"
        by (intro compiles_by_append compiles_by_char compiles_by_simple k) simp_all
      then have "compiles_by pat (replicate (Suc k) RThread)" by (simp add: pm)
      moreover have "digit_free ''[%t]''" by (simp add: isDigit_def code_def)
      with d have "\<not> m' \<longrightarrow> digits_apart (''[%t]'' @ pat')" using free_digits_append by blast
      ultimately have "(\<exists>k. compiles_by pat (replicate k RThread)) \<and> (\<not> m \<longrightarrow> digits_apart pat)" unfolding pm by blast
      moreover have "\<not> isDigit (hd pat)" by (simp add: pm isDigit_def code_def)
      ultimately show ?thesis by blast
    next
      case None
      let ?n = "if isDigit c then n + 1 else 0"
      obtain pat' m' where r: "left_from cs ?n = (pat', m')" by fastforce
      have pm: "pat = escapeLiteral [c] @ pat'" "m = (m' \<or> 2 \<le> ?n)"
        using 1(3) Cons None r by (subst (asm) left_from.simps, simp add: Let_def)+
      note ih = 1(1) [OF Cons None refl r]
      from conjunct1 [OF ih] obtain k where k: "compiles_by pat' (replicate k RThread)" ..
      note d = conjunct2 [OF ih]
      from compiles_by_append [OF compiles_by_escaped [of "[c]"] k]
      have "compiles_by pat (replicate k RThread)" unfolding pm(1) append_Nil .
      moreover have "digits_apart pat \<and> (0 < n \<longrightarrow> pat = [] \<or> \<not> isDigit (hd pat))" if "\<not> m"
      proof (cases "isDigit c")
        case True
        then have "c \<noteq> CHR ''%''" by (auto simp: isDigit_def code_def)
        then have "pat = c # pat'" by (simp add: pm escapeLiteral_def)
        with that d True pm(2) show ?thesis by (cases pat') auto
      next
        case False
        then have "digit_free (escapeLiteral [c])" by (intro escape_free) simp
        moreover from this have "\<not> isDigit (hd pat)" by (auto simp: pm escapeLiteral_def)
        ultimately show ?thesis using that d pm free_digits_append by blast
      qed
      ultimately show ?thesis by blast
    qed
  qed
qed

definition is_date :: "string \<Rightarrow> bool" where
  "is_date spec \<longleftrightarrow> (\<exists>body. spec = ''%d{'' @ body @ ''}'' \<and> translates body \<and> CHR ''}'' \<notin> set body \<and> digit_free body)"

lemma is_date_compiles:
  assumes "is_date spec" shows "compiles_by spec [RDate] \<and> digit_free spec"
proof -
  obtain body where b: "spec = ''%d{'' @ body @ ''}''" "translates body" "CHR ''}'' \<notin> set body" "digit_free body"
    using assms unfolding is_date_def by blast
  from compiles_by_date [OF b(2,3)] b(4) show ?thesis unfolding b(1) by (simp add: isDigit_def code_def)
qed

lemma is_dateI: "spec = ''%d{'' @ body @ ''}'' \<Longrightarrow> translates body \<Longrightarrow> CHR ''}'' \<notin> set body \<Longrightarrow> digit_free body \<Longrightarrow> is_date spec"
  by (auto simp: is_date_def)

lemma separators: "c \<in> datesep \<or> c \<in> millisep \<Longrightarrow> c \<noteq> CHR ''%'' \<and> c \<noteq> CHR ''}'' \<and> \<not> isDigit c"
  by (auto simp: datesep_def millisep_def isDigit_def code_def)

lemma digit_free_texts:
  "digit_free ''%Y-%m-%d''" "digit_free ''%H:%M:%S''" "digit_free ''%q''" "digit_free ''%d/%m/''" "digit_free ''%m/%d/''"
  by (simp_all add: isDigit_def code_def)

definition translates_before :: "string \<Rightarrow> bool" where
  "translates_before p \<longleftrightarrow> (\<forall>s. translates s \<longrightarrow> translates (p @ s)) \<and> CHR ''}'' \<notin> set p \<and> digit_free p"

lemma date_specs:
  assumes "c \<in> datesep" "t \<in> millisep" "translates_before dmy"
  shows "is_date (dated dmy c)" "is_date (dated_millis dmy c t)" "is_date (clocked_millis t)"
proof -
  have s: "c \<noteq> CHR ''%''" "c \<noteq> CHR ''}''" "\<not> isDigit c" "t \<noteq> CHR ''%''" "t \<noteq> CHR ''}''" "\<not> isDigit t"
    using assms(1,2) separators by blast+
  have d: "translates s \<Longrightarrow> translates (dmy @ s)" "CHR ''}'' \<notin> set dmy" "digit_free dmy" for s
    using assms(3) by (auto simp: translates_before_def)
  have clock: "translates ''%H:%M:%S''" "translates (''%H:%M:%S'' @ [t] @ ''%q'')" using s by (simp_all add: translates_intros)
  have "translates (dmy @ [c] @ ''%H:%M:%S'')" "translates (dmy @ [c] @ ''%H:%M:%S'' @ [t] @ ''%q'')"
    by (intro d; simp add: translates_intros s)+
  moreover have "CHR ''}'' \<notin> set (dmy @ [c] @ ''%H:%M:%S'')" "CHR ''}'' \<notin> set (dmy @ [c] @ ''%H:%M:%S'' @ [t] @ ''%q'')"
    "CHR ''}'' \<notin> set (''%H:%M:%S'' @ [t] @ ''%q'')" using s d(2) by simp_all
  moreover have "digit_free (dmy @ [c] @ ''%H:%M:%S'')" "digit_free (dmy @ [c] @ ''%H:%M:%S'' @ [t] @ ''%q'')"
    "digit_free (''%H:%M:%S'' @ [t] @ ''%q'')"
    using s d(3) digit_free_texts(2,3) by simp_all
  moreover have "dated dmy c = ''%d{'' @ (dmy @ [c] @ ''%H:%M:%S'') @ ''}''"
    "dated_millis dmy c t = ''%d{'' @ (dmy @ [c] @ ''%H:%M:%S'' @ [t] @ ''%q'') @ ''}''"
    "clocked_millis t = ''%d{'' @ (''%H:%M:%S'' @ [t] @ ''%q'') @ ''}''"
    by (simp_all add: dated_def dated_millis_def clocked_millis_def)
  ultimately show "is_date (dated dmy c)" "is_date (dated_millis dmy c t)" "is_date (clocked_millis t)"
    using clock(2) is_dateI by blast+
qed

lemma clocked_is_date: "is_date clocked"
  by (rule is_dateI [of _ "''%H:%M:%S''"]) (simp_all add: clocked_def translates_intros isDigit_def code_def)

lemma day_texts: "translates_before iso_dmy" "translates_before (slash_dmy order year)"
  by (auto simp: translates_before_def iso_dmy_def slash_dmy_def translates_intros isDigit_def code_def)

lemma slash_is_date:
  assumes "slash_spec order year s = Some (n, spec)" shows "is_date spec"
proof -
  let ?r = "drop (6 + year) s"
  have "hd ?r \<in> datesep"
    "spec = dated (slash_dmy order year) (hd ?r)
     \<or> hd (drop 9 ?r) \<in> millisep \<and> spec = dated_millis (slash_dmy order year) (hd ?r) (hd (drop 9 ?r))"
    using assms unfolding slash_spec_def Let_def head_in_def by (auto split: if_splits)
  moreover have "CHR '','' \<in> millisep" by (simp add: millisep_def)
  ultimately show ?thesis using date_specs(1,2) day_texts by blast
qed

lemma leading_is_date: "snd (matchLeadingDate s order) = [] \<or> is_date (snd (matchLeadingDate s order))"
proof -
  define spec where "spec = snd (matchLeadingDate s order)"
  let ?d = "drop 10 s"
  let ?t = "drop 19 s"
  let ?u = "drop 8 s"
  let ?iso = "shape ''9999-99-99'' s \<and> head_in datesep ?d \<and> shape ''99:99:99'' (drop 1 ?d)"
  let ?clock = "shape ''99:99:99'' s"
  have sep: "head_in cs r \<Longrightarrow> hd r \<in> cs" for cs r by (simp add: head_in_def)
  consider (iso_ms) "?iso" "head_in millisep ?t" "shape ''999'' (drop 1 ?t)"
    | (iso) "?iso" "\<not> (head_in millisep ?t \<and> shape ''999'' (drop 1 ?t))"
    | (year4) n x where "\<not> ?iso" "slash_spec order 4 s = Some (n, x)"
    | (year2) n x where "\<not> ?iso" "slash_spec order 4 s = None" "slash_spec order 2 s = Some (n, x)"
    | (none) "\<not> ?iso" "slash_spec order 4 s = None" "slash_spec order 2 s = None" by fastforce
  then have "spec = [] \<or> (\<exists>n y. slash_spec order y s = Some (n, spec)) \<or> spec = clocked
      \<or> hd ?u \<in> millisep \<and> spec = clocked_millis (hd ?u) \<or> hd ?d \<in> datesep \<and> spec = dated iso_dmy (hd ?d)
      \<or> hd ?d \<in> datesep \<and> hd ?t \<in> millisep \<and> spec = dated_millis iso_dmy (hd ?d) (hd ?t)"
  proof cases
    case iso_ms
    then show ?thesis using sep by (simp add: spec_def matchLeadingDate_def Let_def)
  next
    case iso
    then have "spec = dated iso_dmy (hd ?d)" unfolding spec_def matchLeadingDate_def Let_def by (simp only: if_False if_True snd_conv simp_thms)
    with iso sep show ?thesis by blast
  next
    case year4
    then have "spec = x" unfolding spec_def matchLeadingDate_def Let_def by (simp only: if_False if_True snd_conv simp_thms option.case)
    with year4 show ?thesis by blast
  next
    case year2
    then have "spec = x" unfolding spec_def matchLeadingDate_def Let_def by (simp only: if_False if_True snd_conv simp_thms option.case)
    with year2 show ?thesis by blast
  next
    case none
    then have "spec = snd (if ?clock \<and> head_in millisep ?u \<and> shape ''999'' (drop 1 ?u) then (12::nat, clocked_millis (hd ?u))
                        else if ?clock then (8, clocked) else (0, []))"
      unfolding spec_def matchLeadingDate_def Let_def by (simp only: if_False if_True simp_thms option.case)
    then have "spec = clocked_millis (hd ?u) \<and> head_in millisep ?u \<or> spec = clocked \<or> spec = []"
      by (cases "?clock \<and> head_in millisep ?u \<and> shape ''999'' (drop 1 ?u)"; cases ?clock) (simp_all only: if_True if_False snd_conv simp_thms)
    then show ?thesis using sep by blast
  qed
  moreover have "CHR '','' \<in> millisep" "CHR '' '' \<in> datesep" by (simp_all add: millisep_def datesep_def)
  ultimately show ?thesis
    unfolding spec_def [symmetric] using date_specs day_texts clocked_is_date slash_is_date by blast
qed

lemma left_part_compiles:
  assumes "buildLeft left order = (pat, False)"
  shows "\<exists>ls. compiles_by pat ls \<and> set ls \<subseteq> {RDate, RThread} \<and> digits_apart pat"
proof -
  obtain n spec where ms: "matchLeadingDate left order = (n, spec)" by fastforce
  obtain pat' m where l: "left_from (drop n left) 0 = (pat', m)" by fastforce
  have p: "pat = spec @ pat'" "\<not> m" using assms by (simp_all add: buildLeft_def ms l)
  obtain k where k: "compiles_by pat' (replicate k RThread)" "digits_apart pat'" using left_compiles [OF l] p(2) by blast
  show ?thesis
  proof (cases "spec = []")
    case True
    with p k show ?thesis by (intro exI [of _ "replicate k RThread"]) auto
  next
    case False
    then have "is_date spec" using leading_is_date [of left order] by (simp add: ms)
    then have "compiles_by spec [RDate]" "digit_free spec" using is_date_compiles by blast+
    with p k show ?thesis
      using compiles_by_append [of spec "[RDate]" pat' "replicate k RThread"]
      by (intro exI [of _ "[RDate] @ replicate k RThread"]) (auto intro: free_digits_append)
  qed
qed

lemma compiles_by_whole:
  assumes "compiles_by pat rs" "pat \<noteq> []"
  shows "\<exists>f. compile (\<lambda>_. True) pat = Inr f \<and> map f_role (l_fields f) = rs"
proof -
  have fields: "map f_role (number_fields k ps) = map p_role (filter p_isField ps)" for k ps
    by (induction ps arbitrary: k) simp_all
  obtain k st where st: "compile_from 0 (pat @ []) compiling_start = compile_from k [] st" "roles st = roles compiling_start @ rs"
    using assms(1) unfolding compiles_by_def by blast
  have fin: "compile_from k [] st = Inr (flushLiteral st)" by (simp add: compile_from.simps)
  from st fin have c: "compile_from 0 pat compiling_start = Inr (flushLiteral st)" by simp
  have "roles (flushLiteral st) = rs" using st(2) by (simp add: roles_flush) (simp add: roles_def compiling_start_def)
  then have "map f_role (l_fields (format_of (flushLiteral st))) = rs" by (simp add: format_of_def Let_def fields roles_def)
  with assms(2) c show ?thesis by (simp add: compile_def Let_def)
qed

text \<open>What may follow the part left of the severity word.\<close>

definition right_ok :: "string \<Rightarrow> bool" where
  "right_ok pat \<longleftrightarrow> digit_free pat \<and>
     (\<exists>ms. compiles_by pat (RPriority # ms @ [RMessage]) \<and> set ms \<subseteq> {RThread, RLogger, RNdc})"

lemma compiles_by_end: "compiles_by ''%m%n'' [RMessage]"
  using compiles_by_append [OF compiles_by_simple(4) compiles_by_newline] by simp

lemma bracket_part:
  assumes "compiles_by [CHR ''%'', c] [r]" "take_bracketed [CHR ''%'', c] s = (part, rest)" "\<not> isDigit c"
  shows "(\<exists>rs. compiles_by part rs \<and> set rs \<subseteq> {r}) \<and> digit_free part \<and> (part \<noteq> [] \<longrightarrow> hd part = CHR ''['')"
proof (cases "bracketed s")
  case None
  then show ?thesis using assms(2) by (auto simp: take_bracketed_def intro!: exI [of _ "[]"] compiles_by_Nil)
next
  case (Some x)
  then have p: "part = ''['' @ [CHR ''%'', c] @ '']''" using assms(2) by (simp add: take_bracketed_def)
  have "compiles_by part ([] @ [r] @ [])"
    unfolding p by (intro compiles_by_append compiles_by_char assms(1)) simp_all
  then have "\<exists>rs. compiles_by part rs \<and> set rs \<subseteq> {r}" by (intro exI [of _ "[r]"]) simp
  moreover have "digit_free part" using assms(3) by (simp add: p isDigit_def code_def)
  ultimately show ?thesis by (simp add: p)
qed

lemma taken_free: "(\<And>c. P c \<Longrightarrow> \<not> isDigit c) \<Longrightarrow> digit_free (takeWhile P s)"
  by (auto simp: digit_free_def list_all_iff dest: set_takeWhileD)

lemma not_brace:
  "isSpace c \<Longrightarrow> c \<noteq> CHR ''{''" "isSeparatorPunct c \<Longrightarrow> c \<noteq> CHR ''{''"
  by (auto simp: isSpace_def isSeparatorPunct_def code_def)

lemma escaped_taken:
  assumes "\<And>c. P c \<Longrightarrow> c \<noteq> CHR ''{''"
  shows "escapeLiteral (takeWhile P s) \<noteq> [] \<Longrightarrow> hd (escapeLiteral (takeWhile P s)) \<noteq> CHR ''{''"
  using assms by (cases s) (auto simp: escapeLiteral_def split: if_splits)

lemma variant_b_ok: "c \<in> set (variant_b leftPat right) \<Longrightarrow> \<exists>r. c = leftPat @ r \<and> right_ok r"
proof -
  assume c: "c \<in> set (variant_b leftPat right)"
  let ?sep = "escapeLiteral (takeWhile isSpace right)"
  have "c = leftPat @ ''%p'' @ ?sep @ ''%m%n''" using c by (auto simp: variant_b_def Let_def split: if_splits)
  moreover have "compiles_by (''%p'' @ ?sep @ ''%m%n'') ([RPriority] @ [] @ [RMessage])"
    by (intro compiles_by_append compiles_by_simple compiles_by_escaped compiles_by_end)
  moreover have "digit_free ?sep" by (intro escape_free taken_free separators_free)
  then have "digit_free (''%p'' @ ?sep @ ''%m%n'')" by (simp add: isDigit_def code_def)
  ultimately show ?thesis unfolding right_ok_def by (metis append_Cons append_Nil empty_subsetI list.set(1))
qed

lemma hd_append_ok: "(a \<noteq> [] \<Longrightarrow> hd a \<noteq> x) \<Longrightarrow> b \<noteq> [] \<Longrightarrow> hd b \<noteq> x \<Longrightarrow> hd (a @ b) \<noteq> x"
  by (cases a) auto

lemma variant_a_ok:
  assumes "c \<in> set (variant_a leftPat right withNdc)"
  shows "\<exists>r. c = leftPat @ r \<and> right_ok r"
proof -
  obtain threadPart r1 where th: "take_bracketed ''%t'' (dropWhile isSpace right) = (threadPart, r1)" by fastforce
  let ?r2 = "dropWhile isSpace r1"
  let ?r3 = "dropWhile (\<lambda>c. \<not> isSpace c) ?r2"
  define sepNdc where "sepNdc = (if withNdc then takeWhile isSpace ?r3 else [])"
  obtain ndcPart r4 where nd: "(if withNdc then take_bracketed ''%x'' (dropWhile isSpace ?r3) else ([], ?r3)) = (ndcPart, r4)" by fastforce
  let ?sep1 = "escapeLiteral (takeWhile isSpace right)"
  let ?sep1b = "escapeLiteral (takeWhile isSpace r1)"
  let ?sep2 = "escapeLiteral (takeWhile (\<lambda>c. isSpace c \<or> isSeparatorPunct c) r4)"
  let ?after = "escapeLiteral sepNdc @ ndcPart @ ?sep2 @ ''%m%n''"
  have c: "c = leftPat @ (''%p'' @ ?sep1 @ threadPart @ ?sep1b @ ''%c'' @ ?after)"
    using assms by (simp add: variant_a_def th nd Let_def sepNdc_def [symmetric] split: if_splits)
  obtain ts where ts: "compiles_by threadPart ts" "set ts \<subseteq> {RThread}" "digit_free threadPart"
    using bracket_part [OF compiles_by_simple(2) th] by (auto simp: isDigit_def code_def)
  have "(\<exists>ns. compiles_by ndcPart ns \<and> set ns \<subseteq> {RNdc}) \<and> digit_free ndcPart \<and> (ndcPart \<noteq> [] \<longrightarrow> hd ndcPart = CHR ''['')"
  proof (cases withNdc)
    case True
    then have "take_bracketed ''%x'' (dropWhile isSpace ?r3) = (ndcPart, r4)" using nd by simp
    from bracket_part [OF compiles_by_simple(3) this] show ?thesis by (simp add: isDigit_def code_def)
  next
    case False
    then show ?thesis using nd by (auto intro!: exI [of _ "[]"] compiles_by_Nil)
  qed
  then obtain ns where ns: "compiles_by ndcPart ns" "set ns \<subseteq> {RNdc}" "digit_free ndcPart" "ndcPart \<noteq> [] \<Longrightarrow> hd ndcPart = CHR ''[''" by blast
  have "compiles_by ?after ([] @ ns @ [] @ [RMessage])" by (intro compiles_by_append compiles_by_escaped ns(1) compiles_by_end)
  moreover have "hd ?after \<noteq> CHR ''{''"
  proof (intro hd_append_ok)
    show "escapeLiteral sepNdc \<noteq> [] \<Longrightarrow> hd (escapeLiteral sepNdc) \<noteq> CHR ''{''"
      using escaped_taken [of isSpace] not_brace(1) by (auto simp: sepNdc_def escapeLiteral_def)
    show "ndcPart \<noteq> [] \<Longrightarrow> hd ndcPart \<noteq> CHR ''{''" using ns(4) by simp
    show "?sep2 \<noteq> [] \<Longrightarrow> hd ?sep2 \<noteq> CHR ''{''" using not_brace by (intro escaped_taken) auto
  qed simp_all
  ultimately have "compiles_by (''%c'' @ ?after) (RLogger # ns @ [RMessage])" using compiles_by_logger [of ?after] by simp
  then have "compiles_by (''%p'' @ ?sep1 @ threadPart @ ?sep1b @ ''%c'' @ ?after) ([RPriority] @ [] @ ts @ [] @ RLogger # ns @ [RMessage])"
    by (intro compiles_by_append compiles_by_simple compiles_by_escaped ts(1))
  moreover have "digit_free (''%p'' @ ?sep1 @ threadPart @ ?sep1b @ ''%c'' @ ?after)"
  proof -
    have "digit_free ?sep1" "digit_free ?sep1b" "digit_free ?sep2" "digit_free (escapeLiteral sepNdc)"
      using separators_free by (auto intro!: escape_free taken_free simp: sepNdc_def)
    then show ?thesis using ts(3) ns(3) by (simp add: isDigit_def code_def)
  qed
  ultimately have "right_ok (''%p'' @ ?sep1 @ threadPart @ ?sep1b @ ''%c'' @ ?after)"
    unfolding right_ok_def using ts(2) ns(2) by (intro conjI exI [of _ "ts @ RLogger # ns"]) auto
  with c show ?thesis by blast
qed

text \<open>C20: synthesized_compile. Every pattern put together from a line compiles, when the engine accepts its expressions,
  and reads a date and threads at most, then the severity, then threads, a logger and a nested context at most, then the
  message, which comes last; and no two digits of the line stand next to each other in it, so it is no memory of one
  timestamp.\<close>

theorem synthesized_compile:
  assumes "c \<in> set (synthesizeFromLine line order)"
  shows "\<exists>f ls ms. compile (\<lambda>_. True) c = Inr f \<and> map f_role (l_fields f) = ls @ RPriority # ms @ [RMessage] \<and>
           set ls \<subseteq> {RDate, RThread} \<and> set ms \<subseteq> {RThread, RLogger, RNdc} \<and> digits_apart c"
proof -
  obtain ps pe where p: "priority_from 0 False line = Some (ps, pe)"
    using assms by (cases "priority_from 0 False line") (auto simp: synthesizeFromLine_def)
  obtain leftPat m where l: "buildLeft (take ps line) order = (leftPat, m)" by fastforce
  have c: "leftPat \<noteq> []" "\<not> m" "\<exists>r. c = leftPat @ r \<and> right_ok r"
    using assms variant_b_ok variant_a_ok by (auto simp: synthesizeFromLine_def p l Let_def split: if_splits)
  then obtain ls where ls: "compiles_by leftPat ls" "set ls \<subseteq> {RDate, RThread}" "digits_apart leftPat"
    using left_part_compiles [of "take ps line" order leftPat] l by auto
  obtain r ms where r: "c = leftPat @ r" "digit_free r" "compiles_by r (RPriority # ms @ [RMessage])" "set ms \<subseteq> {RThread, RLogger, RNdc}"
    using c(3) unfolding right_ok_def by blast
  from compiles_by_append [OF ls(1) r(3)] have "compiles_by c (ls @ RPriority # ms @ [RMessage])" by (simp only: r(1))
  from compiles_by_whole [OF this] c(1) r(1)
  obtain f where "compile (\<lambda>_. True) c = Inr f" "map f_role (l_fields f) = ls @ RPriority # ms @ [RMessage]" by auto
  moreover have "digits_apart c" unfolding r(1) by (rule digits_free_append [OF ls(3) r(2)])
  ultimately show ?thesis using ls(2) r(4) by blast
qed

definition sample_line :: string where
  "sample_line = ''2026-03-12 10:20:30,456 [main] ERROR app.net - 100% lost''"

definition sample_pattern :: string where
  "sample_pattern = ''%d{%Y-%m-%d %H:%M:%S,%q} [%t] %p %c - %m%n''"

lemma sample_synthesized: "sample_pattern \<in> set (synthesizeFromLine sample_line MonthFirst)"
proof -
  have "List.member (synthesizeFromLine sample_line MonthFirst) sample_pattern" by code_simp
  then show ?thesis by simp
qed

theorem synthesized_compile_witness:
  "(\<exists>f. compile (\<lambda>_. True) sample_pattern = Inr f) \<and> digits_apart sample_pattern"
  using synthesized_compile [OF sample_synthesized] by blast

end
