(* ===== verification/Highlight.thy ===== *)
theory Highlight
  imports Criteria
begin

text \<open>
  \<open>src/core/Palette\<close> and \<open>src/core/Highlight\<close>: the slots a rule colours with, the rules of a log, what they do to a
  record and their JSON form. A colour is its three channels; an invalid \<open>QColor\<close> is no colour. The actions of a rule
  are a set.
\<close>

section \<open>The slots\<close>

type_synonym rgb = "nat \<times> nat \<times> nat"

record slot =
  slot_name :: string
  light :: rgb
  dark :: rgb
  textOn :: int

definition kSlotsPerBand :: int where
  "kSlotsPerBand = 9"

definition kSlotCount :: int where
  "kSlotCount = kSlotsPerBand * 3"

definition kInk :: int where
  "kInk = 8"

definition kPaper :: int where
  "kPaper = 26"

definition kDefault :: int where
  "kDefault = - 1"

definition palette_slot :: "string \<Rightarrow> rgb \<Rightarrow> rgb \<Rightarrow> int \<Rightarrow> slot" where
  "palette_slot n l d t = \<lparr>slot_name = n, light = l, dark = d, textOn = t\<rparr>"

definition kSlots :: "slot list" where
  "kSlots =
     [palette_slot ''Deep Red'' (134, 15, 15) (163, 26, 26) kPaper,
      palette_slot ''Deep Orange'' (110, 48, 12) (133, 62, 22) kPaper,
      palette_slot ''Deep Amber'' (80, 65, 9) (98, 81, 16) kPaper,
      palette_slot ''Deep Green'' (9, 78, 18) (16, 95, 26) kPaper,
      palette_slot ''Deep Teal'' (8, 74, 70) (15, 93, 87) kPaper,
      palette_slot ''Deep Blue'' (14, 67, 126) (24, 83, 149) kPaper,
      palette_slot ''Deep Purple'' (105, 16, 148) (127, 29, 175) kPaper,
      palette_slot ''Deep Pink'' (130, 14, 69) (157, 25, 87) kPaper,
      palette_slot ''Ink'' (11, 13, 15) (11, 13, 15) kPaper,
      palette_slot ''Vivid Red'' (219, 6, 6) (223, 6, 6) kPaper,
      palette_slot ''Vivid Orange'' (234, 89, 6) (249, 111, 31) kInk,
      palette_slot ''Vivid Amber'' (249, 203, 21) (250, 212, 61) kInk,
      palette_slot ''Vivid Green'' (6, 224, 35) (21, 249, 52) kInk,
      palette_slot ''Vivid Teal'' (6, 219, 205) (16, 249, 233) kInk,
      palette_slot ''Vivid Blue'' (5, 103, 214) (6, 106, 222) kPaper,
      palette_slot ''Vivid Purple'' (138, 5, 204) (165, 6, 244) kPaper,
      palette_slot ''Vivid Pink'' (246, 6, 118) (249, 16, 125) kInk,
      palette_slot ''Gray'' (95, 100, 105) (95, 100, 105) kPaper,
      palette_slot ''Soft Red'' (239, 154, 154) (235, 173, 173) kInk,
      palette_slot ''Soft Orange'' (239, 185, 154) (235, 196, 173) kInk,
      palette_slot ''Soft Amber'' (239, 222, 154) (235, 222, 173) kInk,
      palette_slot ''Soft Green'' (154, 239, 165) (173, 235, 182) kInk,
      palette_slot ''Soft Teal'' (154, 239, 233) (173, 235, 231) kInk,
      palette_slot ''Soft Blue'' (154, 194, 239) (173, 202, 235) kInk,
      palette_slot ''Soft Purple'' (210, 154, 239) (214, 173, 235) kInk,
      palette_slot ''Soft Pink'' (239, 154, 194) (235, 173, 202) kInk,
      palette_slot ''Paper'' (247, 248, 249) (253, 253, 253) kInk]"

definition isSlot :: "int \<Rightarrow> bool" where
  "isSlot i \<longleftrightarrow> 0 \<le> i \<and> i < kSlotCount"

definition isNeutral :: "int \<Rightarrow> bool" where
  "isNeutral i \<longleftrightarrow> isSlot i \<and> i mod kSlotsPerBand = kSlotsPerBand - 1"

definition slot_at :: "int \<Rightarrow> slot" where
  "slot_at i = kSlots ! nat (if i < 0 then 0 else if kSlotCount \<le> i then kSlotCount - 1 else i)"

definition color :: "int \<Rightarrow> bool \<Rightarrow> rgb option" where
  "color i is_dark =
     (if \<not> isSlot i then None
      else (let s = kSlots ! nat i in Some (if is_dark then dark s else light s)))"

definition readableTextSlot :: "int \<Rightarrow> int" where
  "readableTextSlot i = (if isSlot i then textOn (kSlots ! nat i) else kPaper)"

section \<open>Rules\<close>

datatype highlight_action = Color | Digest | Tab | Notify

record highlight_rule =
  h_enabled :: bool
  h_match :: match_criteria
  h_actions :: "highlight_action set"
  h_background :: int
  h_foreground :: int

definition criteria_default :: match_criteria where
  "criteria_default = \<lparr>c_priorityEnabled = False, c_minPriority = Trace, c_loggerEnabled = False, loggerNames = [],
     c_threadEnabled = False, threadNames = [], loggerCoversAll = True, threadCoversAll = True,
     loggerRestrictive = False, threadRestrictive = False, c_timeEnabled = False, c_start = None, c_end = None,
     c_text = \<lparr>tf_enabled = False, tf_negate = False, tf_matcher = matcher_default\<rparr>\<rparr>"

definition rule_default :: highlight_rule where
  "rule_default = \<lparr>h_enabled = True, h_match = criteria_default, h_actions = {Color}, h_background = kDefault,
     h_foreground = kDefault\<rparr>"

definition level_rule :: "priority \<Rightarrow> int \<Rightarrow> highlight_rule" where
  "level_rule minimum background =
     rule_default\<lparr>h_match := criteria_default\<lparr>c_priorityEnabled := True, c_minPriority := minimum\<rparr>,
       h_actions := {Color}, h_background := background, h_foreground := readableTextSlot background\<rparr>"

definition default_rules :: "highlight_rule list" where
  "default_rules =
     [level_rule Fatal (1 * kSlotsPerBand + 0), level_rule Error (0 * kSlotsPerBand + 0), level_rule Warn (2 * kSlotsPerBand + 2)]"

definition resolve_rules ::
  "(int \<Rightarrow> int option) \<Rightarrow> record_index \<Rightarrow> scan_format \<Rightarrow> highlight_rule list \<Rightarrow> filter_set list" where
  "resolve_rules utc idx f rules = map (\<lambda>r. resolve_criteria utc (h_match r) idx f DoesNotMatch Keep) rules"

definition rules_anyEnabled :: "highlight_rule list \<Rightarrow> bool" where
  "rules_anyEnabled rules \<longleftrightarrow> list_ex (\<lambda>r. h_enabled r \<and> criteria_anyActive (h_match r)) rules"

definition rules_anyEnabledFor :: "highlight_action set \<Rightarrow> highlight_rule list \<Rightarrow> bool" where
  "rules_anyEnabledFor actions rules \<longleftrightarrow>
     list_ex (\<lambda>r. h_enabled r \<and> h_actions r \<inter> actions \<noteq> {} \<and> criteria_anyActive (h_match r)) rules"

section \<open>Matching\<close>

text \<open>The filter of a rule with no active axis.\<close>

definition filter_inert :: filter_set where
  "filter_inert = \<lparr>priorityEnabled = False, minPriority = Trace, loggerEnabled = False, loggerIds = {},
     threadEnabled = False, threadIds = {}, timeEnabled = False, startMs = qint64_min, endMs = qint64_max,
     text_axis = \<lparr>tf_enabled = False, tf_negate = False, tf_matcher = matcher_default\<rparr>, absentFieldMatches = True\<rparr>"

definition resolved_at :: "filter_set list \<Rightarrow> nat \<Rightarrow> filter_set" where
  "resolved_at resolved i = (if i < length resolved then resolved ! i else filter_inert)"

record action_match =
  am_color :: int
  am_digest :: int
  am_tab :: int
  am_notify :: int

definition no_match :: action_match where
  "no_match = \<lparr>am_color = - 1, am_digest = - 1, am_tab = - 1, am_notify = - 1\<rparr>"

fun forAction :: "action_match \<Rightarrow> highlight_action \<Rightarrow> int" where
  "forAction m Color = am_color m"
| "forAction m Digest = am_digest m"
| "forAction m Tab = am_tab m"
| "forAction m Notify = am_notify m"

definition answer :: "highlight_action set \<Rightarrow> int \<Rightarrow> action_match \<Rightarrow> action_match" where
  "answer offers i m =
     (let m1 = (if Color \<in> offers then m\<lparr>am_color := i\<rparr> else m);
          m2 = (if Digest \<in> offers then m1\<lparr>am_digest := i\<rparr> else m1);
          m3 = (if Tab \<in> offers then m2\<lparr>am_tab := i\<rparr> else m2)
      in if Notify \<in> offers then m3\<lparr>am_notify := i\<rparr> else m3)"

text \<open>The test of one rule against a record: the integer axes first, then the text when it is active, with the message
  decoded at most once. The memo is the message and the number of decodes so far.\<close>

definition try_rule ::
  "regex_engine \<Rightarrow> filter_set \<Rightarrow> log_record \<Rightarrow> (log_record \<Rightarrow> string) \<Rightarrow> string option \<times> nat \<Rightarrow> bool \<times> string option \<times> nat" where
  "try_rule eng fs r msg memo =
     (if \<not> anyActive fs \<or> \<not> acceptsIntegerAxes fs r then (False, memo)
      else if tf_active (text_axis fs) then
        (let memo' = (case memo of (None, n) \<Rightarrow> (Some (msg r), n + 1) | (Some m, n) \<Rightarrow> (Some m, n))
         in (acceptsText eng fs (the (fst memo')), memo'))
      else (True, memo))"

fun match_rules ::
  "regex_engine \<Rightarrow> filter_set list \<Rightarrow> log_record \<Rightarrow> (log_record \<Rightarrow> string) \<Rightarrow> nat \<Rightarrow> highlight_rule list
     \<Rightarrow> highlight_action set \<Rightarrow> string option \<times> nat \<Rightarrow> action_match \<Rightarrow> action_match \<times> nat" where
  "match_rules eng resolved r msg i [] remaining memo out = (out, snd memo)"
| "match_rules eng resolved r msg i (rule # rules) remaining memo out =
     (if remaining = {} then (out, snd memo)
      else
        (let offers = h_actions rule \<inter> remaining
         in if \<not> h_enabled rule \<or> offers = {} then match_rules eng resolved r msg (i + 1) rules remaining memo out
            else
              (let (hit, memo') = try_rule eng (resolved_at resolved i) r msg memo
               in if hit then match_rules eng resolved r msg (i + 1) rules (remaining - offers) memo' (answer offers (int i) out)
                  else match_rules eng resolved r msg (i + 1) rules remaining memo' out)))"

definition matchActions ::
  "regex_engine \<Rightarrow> highlight_rule list \<Rightarrow> filter_set list \<Rightarrow> log_record \<Rightarrow> highlight_action set \<Rightarrow> (log_record \<Rightarrow> string)
     \<Rightarrow> action_match \<times> nat" where
  "matchActions eng rules resolved r wanted msg = match_rules eng resolved r msg 0 rules wanted (None, 0) no_match"

definition match_action ::
  "regex_engine \<Rightarrow> highlight_rule list \<Rightarrow> filter_set list \<Rightarrow> log_record \<Rightarrow> highlight_action \<Rightarrow> (log_record \<Rightarrow> string) \<Rightarrow> int" where
  "match_action eng rules resolved r a msg = forAction (fst (matchActions eng rules resolved r {a} msg)) a"

definition ruleMatches ::
  "regex_engine \<Rightarrow> highlight_rule list \<Rightarrow> filter_set list \<Rightarrow> int \<Rightarrow> log_record \<Rightarrow> (log_record \<Rightarrow> string)
     \<Rightarrow> string option \<times> nat \<Rightarrow> bool \<times> string option \<times> nat" where
  "ruleMatches eng rules resolved i r msg memo =
     (if i < 0 \<or> int (length rules) \<le> i \<or> \<not> h_enabled (rules ! nat i) then (False, memo)
      else try_rule eng (resolved_at resolved (nat i)) r msg memo)"

section \<open>Storage\<close>

definition kActionTokens :: "(highlight_action \<times> string) list" where
  "kActionTokens = [(Color, ''color''), (Digest, ''digest''), (Tab, ''tab''), (Notify, ''notify'')]"

definition actionsToJson :: "highlight_action set \<Rightarrow> json" where
  "actionsToJson actions = JArr (map (\<lambda>(a, t). JStr t) (filter (\<lambda>(a, t). a \<in> actions) kActionTokens))"

definition actionsFromJson :: "json list \<Rightarrow> highlight_action set" where
  "actionsFromJson xs =
     fold (\<lambda>v acc. acc \<union> set (map fst (filter (\<lambda>(a, t). toString (Some v) = t) kActionTokens))) xs {}"

definition rule_toJson ::
  "(string list \<Rightarrow> string list) \<Rightarrow> (int option \<Rightarrow> string) \<Rightarrow> highlight_rule \<Rightarrow> json_object" where
  "rule_toJson sort_ci iso_date r =
     (let o1 = [''enabled'' \<mapsto> JBool (h_enabled r), ''match'' \<mapsto> JObj (criteria_toJson sort_ci iso_date (h_match r))];
          o2 = insert_if (h_actions r \<noteq> {Color}) ''actions'' (actionsToJson (h_actions r)) o1
      in o2(''background'' \<mapsto> JNum (h_background r), ''foreground'' \<mapsto> JNum (h_foreground r)))"

definition priorityFromToken :: "string \<Rightarrow> priority \<Rightarrow> priority" where
  "priorityFromToken s fallback =
     (if s = [] then fallback else (let p = parsePriority s in if p = Unknown then fallback else p))"

definition legacyCriteriaFromJson :: "json_object \<Rightarrow> match_criteria" where
  "legacyCriteriaFromJson obj =
     criteria_default\<lparr>c_loggerEnabled := toBool False (obj ''matchLogger''),
       loggerNames := arrayToNames (toArray (obj ''loggerNames'')),
       c_priorityEnabled := toBool False (obj ''matchPriority''),
       c_minPriority := priorityFromToken (toString (obj ''minPriority'')) Warn\<rparr>"

definition readSlot :: "json option \<Rightarrow> int" where
  "readSlot v = (let i = toInt kDefault v in if isSlot i then i else kDefault)"

definition rule_fromJson :: "regex_engine \<Rightarrow> (string \<Rightarrow> int option) \<Rightarrow> json_object \<Rightarrow> highlight_rule" where
  "rule_fromJson eng from_iso obj =
     \<lparr>h_enabled = toBool True (obj ''enabled''),
      h_match = (case obj ''match'' of Some (JObj m) \<Rightarrow> criteria_fromJson eng from_iso m | _ \<Rightarrow> legacyCriteriaFromJson obj),
      h_actions = (if obj ''actions'' \<noteq> None then actionsFromJson (toArray (obj ''actions'')) else {Color}),
      h_background = readSlot (obj ''background''),
      h_foreground = readSlot (obj ''foreground'')\<rparr>"

fun toObject :: "json \<Rightarrow> json_object" where
  "toObject (JObj m) = m"
| "toObject _ = Map.empty"

definition rules_toJson :: "(string list \<Rightarrow> string list) \<Rightarrow> (int option \<Rightarrow> string) \<Rightarrow> highlight_rule list \<Rightarrow> json list" where
  "rules_toJson sort_ci iso_date rules = map (\<lambda>r. JObj (rule_toJson sort_ci iso_date r)) rules"

definition rules_fromJson :: "regex_engine \<Rightarrow> (string \<Rightarrow> int option) \<Rightarrow> json list \<Rightarrow> highlight_rule list" where
  "rules_fromJson eng from_iso xs = map (\<lambda>v. rule_fromJson eng from_iso (toObject v)) xs"

section \<open>The first rule that matches\<close>

text \<open>A rule on its own terms, its text read from the message.\<close>

definition rule_accepts ::
  "regex_engine \<Rightarrow> highlight_rule list \<Rightarrow> filter_set list \<Rightarrow> log_record \<Rightarrow> (log_record \<Rightarrow> string) \<Rightarrow> nat \<Rightarrow> bool" where
  "rule_accepts eng rules resolved r msg i \<longleftrightarrow>
     h_enabled (rules ! i) \<and> anyActive (resolved_at resolved i) \<and> acceptsIntegerAxes (resolved_at resolved i) r
     \<and> acceptsText eng (resolved_at resolved i) (msg r)"

definition first_rule ::
  "regex_engine \<Rightarrow> highlight_rule list \<Rightarrow> filter_set list \<Rightarrow> log_record \<Rightarrow> (log_record \<Rightarrow> string) \<Rightarrow> highlight_action \<Rightarrow> int" where
  "first_rule eng rules resolved r msg a =
     (case List.find (\<lambda>i. a \<in> h_actions (rules ! i) \<and> rule_accepts eng rules resolved r msg i) [0 ..< length rules] of
        Some i \<Rightarrow> int i | None \<Rightarrow> - 1)"

definition memo_fits :: "(log_record \<Rightarrow> string) \<Rightarrow> log_record \<Rightarrow> string option \<times> nat \<Rightarrow> bool" where
  "memo_fits msg r memo \<longleftrightarrow> memo = (None, 0) \<or> memo = (Some (msg r), 1)"

lemma try_rule_spec:
  assumes "memo_fits msg r memo"
  shows "memo_fits msg r (snd (try_rule eng fs r msg memo))"
    and "fst (try_rule eng fs r msg memo) \<longleftrightarrow> anyActive fs \<and> acceptsIntegerAxes fs r \<and> acceptsText eng fs (msg r)"
  using assms by (auto simp: try_rule_def memo_fits_def acceptsText_def Let_def split: option.splits prod.splits)

lemma forAction_answer: "forAction (answer offers i m) a = (if a \<in> offers then i else forAction m a)"
  by (cases a) (simp_all add: answer_def Let_def)

lemma find_shift:
  "List.find P [k ..< Suc n] = (if k \<le> n then if P k then Some k else List.find P [Suc k ..< Suc n] else None)"
  by (simp add: upt_rec)

text \<open>From rule \<open>i\<close> on: each action still wanted is answered by the first rule from there that carries it and matches.\<close>

lemma match_rules_spec:
  assumes "drop i all = rules" "memo_fits msg r memo"
  shows "forAction (fst (match_rules eng resolved r msg i rules remaining memo out)) a =
      (if a \<in> remaining
       then (case List.find (\<lambda>j. a \<in> h_actions (all ! j) \<and> rule_accepts eng all resolved r msg j) [i ..< length all] of
               Some j \<Rightarrow> int j | None \<Rightarrow> forAction out a)
       else forAction out a)
    \<and> snd (match_rules eng resolved r msg i rules remaining memo out) \<le> 1"
  using assms
proof (induction rules arbitrary: i remaining memo out)
  case Nil
  then show ?case by (auto simp: memo_fits_def)
next
  case (Cons rule rules)
  let ?P = "\<lambda>j. a \<in> h_actions (all ! j) \<and> rule_accepts eng all resolved r msg j"
  have i: "i < length all" "all ! i = rule" "drop (i + 1) all = rules"
    using Cons.prems(1) by (metis drop_eq_Nil linorder_not_le list.distinct(1), metis hd_drop_conv_nth drop_eq_Nil linorder_not_le list.distinct(1) list.sel(1), metis drop_Suc tl_drop list.sel(3) Suc_eq_plus1)
  have found: "List.find ?P [i ..< length all] = (if ?P i then Some i else List.find ?P [i + 1 ..< length all])"
    using i(1) by (simp add: upt_conv_Cons)
  obtain hit memo' where t: "try_rule eng (resolved_at resolved i) r msg memo = (hit, memo')" by (metis surj_pair)
  have fits: "memo_fits msg r memo'" using try_rule_spec(1) [OF Cons.prems(2), of eng "resolved_at resolved i"] t by simp
  have hit: "hit \<longleftrightarrow> anyActive (resolved_at resolved i) \<and> acceptsIntegerAxes (resolved_at resolved i) r
      \<and> acceptsText eng (resolved_at resolved i) (msg r)"
    using try_rule_spec(2) [OF Cons.prems(2), of eng "resolved_at resolved i"] t by simp
  have acc: "rule_accepts eng all resolved r msg i \<longleftrightarrow> h_enabled rule \<and> hit" by (simp add: rule_accepts_def i(2) hit)
  note ih = Cons.IH [OF i(3)]
  consider (none) "remaining = {}" | (skip) "remaining \<noteq> {}" "\<not> h_enabled rule \<or> h_actions rule \<inter> remaining = {}"
    | (test) "remaining \<noteq> {}" "h_enabled rule" "h_actions rule \<inter> remaining \<noteq> {}" by blast
  then show ?case
  proof cases
    case none
    then show ?thesis using Cons.prems(2) by (auto simp: memo_fits_def)
  next
    case skip
    then have "a \<in> remaining \<Longrightarrow> \<not> ?P i" using i(2) acc by auto
    with skip ih [OF Cons.prems(2), of remaining out] found show ?thesis by (auto simp: Let_def)
  next
    case test
    show ?thesis
    proof (cases hit)
      case True
      with test ih [OF fits, of "remaining - h_actions rule \<inter> remaining" "answer (h_actions rule \<inter> remaining) (int i) out"]
        found acc i(2) t
      show ?thesis by (auto simp: Let_def forAction_answer split: option.splits)
    next
      case False
      with test ih [OF fits, of remaining out] found acc t show ?thesis by (auto simp: Let_def)
    qed
  qed
qed

text \<open>A rule whose message has to be read: enabled, admitted by its integer axes, with an active text.\<close>

definition reads_text :: "highlight_rule list \<Rightarrow> filter_set list \<Rightarrow> log_record \<Rightarrow> nat \<Rightarrow> bool" where
  "reads_text rules resolved r i \<longleftrightarrow>
     h_enabled (rules ! i) \<and> acceptsIntegerAxes (resolved_at resolved i) r \<and> tf_active (text_axis (resolved_at resolved i))"

lemma match_rules_decodes:
  assumes "drop i all = rules"
  shows "snd (match_rules eng resolved r msg i rules remaining memo out) = snd memo
    \<or> (\<exists>j \<in> {i ..< length all}. reads_text all resolved r j)"
  using assms
proof (induction rules arbitrary: i remaining memo out)
  case Nil
  then show ?case by simp
next
  case (Cons rule rules)
  have i: "i < length all" using Cons.prems by (metis drop_eq_Nil linorder_not_le list.distinct(1))
  have rule: "all ! i = rule" using Cons.prems i by (metis hd_drop_conv_nth list.sel(1))
  have rest: "drop (i + 1) all = rules" using Cons.prems by (metis drop_Suc tl_drop list.sel(3) Suc_eq_plus1)
  have later: "(\<exists>j \<in> {i + 1 ..< length all}. reads_text all resolved r j) \<Longrightarrow> \<exists>j \<in> {i ..< length all}. reads_text all resolved r j" by auto
  obtain hit memo' where t: "try_rule eng (resolved_at resolved i) r msg memo = (hit, memo')" by (metis surj_pair)
  have m: "snd memo' = snd memo \<or> h_enabled rule \<longrightarrow> reads_text all resolved r i \<or> snd memo' = snd memo"
    using t i rule by (auto simp: try_rule_def reads_text_def Let_def split: if_splits)
  have here: "reads_text all resolved r i \<Longrightarrow> \<exists>j \<in> {i ..< length all}. reads_text all resolved r j" using i by auto
  note ih = Cons.IH [OF rest]
  show ?case
  proof (cases "remaining = {} \<or> \<not> h_enabled rule \<or> h_actions rule \<inter> remaining = {}")
    case True
    then show ?thesis using ih [of remaining memo out] later by (auto simp: Let_def)
  next
    case False
    then show ?thesis
      using ih [of "remaining - h_actions rule \<inter> remaining" memo' "answer (h_actions rule \<inter> remaining) (int i) out"]
        ih [of remaining memo' out] later here m t by (auto simp: Let_def)
  qed
qed

lemma matchActions_first:
  "(\<forall>a. forAction (fst (matchActions eng rules resolved r wanted msg)) a =
          (if a \<in> wanted then first_rule eng rules resolved r msg a else - 1))
   \<and> snd (matchActions eng rules resolved r wanted msg) \<le>
       (if list_ex (reads_text rules resolved r) [0 ..< length rules] then 1 else 0)"
proof -
  have fits: "memo_fits msg r (None, 0)" by (simp add: memo_fits_def)
  have none: "forAction no_match a = - 1" for a by (cases a) (simp_all add: no_match_def)
  note spec = match_rules_spec [of 0 rules rules msg r "(None, 0)" eng resolved wanted no_match, OF drop_0 fits, folded matchActions_def]
  have "snd (matchActions eng rules resolved r wanted msg) = 0 \<or> list_ex (reads_text rules resolved r) [0 ..< length rules]"
    using match_rules_decodes [of 0 rules rules eng resolved r msg wanted "(None, 0)" no_match, OF drop_0, folded matchActions_def]
    by (auto simp: list_ex_iff)
  then show ?thesis using spec by (auto simp: none first_rule_def split: option.split)
qed

text \<open>C21: actions_first_match. Each action asked for is answered by the first enabled rule that carries it and accepts the
  record, whatever rules that do not carry it stand above, and by none when there is no such rule; an action not asked
  for is not answered. The message of the record is decoded once at most, and not at all unless an enabled rule with a
  text admits the record by its other axes.\<close>

theorem actions_first_match:
  "(\<forall>a. forAction (fst (matchActions eng rules resolved r wanted msg)) a =
          (if a \<in> wanted then first_rule eng rules resolved r msg a else - 1))
   \<and> snd (matchActions eng rules resolved r wanted msg) \<le>
       (if list_ex (reads_text rules resolved r) [0 ..< length rules] then 1 else 0)"
  by (rule matchActions_first)

section \<open>The rules a log starts with\<close>

lemma level_axes:
  "acceptsIntegerAxes (resolve_criteria utc (h_match (level_rule p b)) idx f DoesNotMatch Keep) r \<longleftrightarrow> prio r \<noteq> Unknown \<and> p \<le> prio r"
  "anyActive (resolve_criteria utc (h_match (level_rule p b)) idx f DoesNotMatch Keep)"
  "\<not> tf_active (text_axis (resolve_criteria utc (h_match (level_rule p b)) idx f DoesNotMatch Keep))"
  by (auto simp: resolve_criteria_def level_rule_def rule_default_def criteria_default_def acceptsIntegerAxes_def anyActive_def
      tf_active_def matcher_default_def Let_def)

lemma level_fields: "h_enabled (level_rule p b)" "h_actions (level_rule p b) = {Color}"
  by (simp_all add: level_rule_def rule_default_def)

text \<open>C22: default_rules_rank. The rules a log starts with colour a record by its severity alone: a fatal one as the first rule
  says, an error as the second, a warning as the third, and nothing else, a record without a severity included. They do
  nothing but colour, in slots of the palette, and the text is the slot the palette names for the background.\<close>

theorem default_rules_rank:
  "match_action eng default_rules (resolve_rules utc idx f default_rules) r Color msg =
     (case prio r of Fatal \<Rightarrow> 0 | Error \<Rightarrow> 1 | Warn \<Rightarrow> 2 | _ \<Rightarrow> - 1)
   \<and> forAction (fst (matchActions eng default_rules (resolve_rules utc idx f default_rules) r {Digest, Tab, Notify} msg)) a = - 1
   \<and> snd (matchActions eng default_rules (resolve_rules utc idx f default_rules) r wanted msg) = 0
   \<and> list_all (\<lambda>x. isSlot (h_background x) \<and> h_foreground x = readableTextSlot (h_background x) \<and> isSlot (h_foreground x)) default_rules"
proof -
  let ?res = "resolve_rules utc idx f default_rules"
  have len: "length default_rules = 3" "[0 ..< 3] = [0, 1, 2::nat]" by (simp_all add: default_rules_def upt_rec)
  have at: "default_rules ! 0 = level_rule Fatal 9" "default_rules ! 1 = level_rule Error 0" "default_rules ! 2 = level_rule Warn 20"
    by (simp_all add: default_rules_def kSlotsPerBand_def)
  have res: "i < 3 \<Longrightarrow> resolved_at ?res i = resolve_criteria utc (h_match (default_rules ! i)) idx f DoesNotMatch Keep" for i
    by (simp add: resolved_at_def resolve_rules_def len)
  have "rule_accepts eng default_rules ?res r msg i = (prio r \<noteq> Unknown \<and> p \<le> prio r)"
    if "default_rules ! i = level_rule p c" "i < 3" for i p c
    by (simp add: rule_accepts_def res that level_axes level_fields acceptsText_def)
  from this [OF at(1)] this [OF at(2)] this [OF at(3)]
  have acc: "rule_accepts eng default_rules ?res r msg 0 = (prio r \<noteq> Unknown \<and> Fatal \<le> prio r)"
    "rule_accepts eng default_rules ?res r msg 1 = (prio r \<noteq> Unknown \<and> Error \<le> prio r)"
    "rule_accepts eng default_rules ?res r msg 2 = (prio r \<noteq> Unknown \<and> Warn \<le> prio r)" by simp_all
  have silent: "\<not> reads_text default_rules ?res r i" if "i < 3" for i
  proof -
    from that have "i = 0 \<or> i = 1 \<or> i = 2" by auto
    then obtain p c where "default_rules ! i = level_rule p c" using at by metis
    then show ?thesis by (simp add: reads_text_def res [OF that] level_axes)
  qed
  have acts: "h_actions (default_rules ! 0) = {Color}" "h_actions (default_rules ! 1) = {Color}" "h_actions (default_rules ! 2) = {Color}"
    by (simp_all only: at level_fields)
  have colour: "first_rule eng default_rules ?res r msg Color = (case prio r of Fatal \<Rightarrow> 0 | Error \<Rightarrow> 1 | Warn \<Rightarrow> 2 | _ \<Rightarrow> - 1)"
    unfolding first_rule_def len by (cases "prio r") (simp_all add: acts [unfolded One_nat_def] acc [unfolded One_nat_def] less_eq_priority_def)
  have other: "x \<noteq> Color \<Longrightarrow> first_rule eng default_rules ?res r msg x = - 1" for x
    unfolding first_rule_def len by (simp add: acts [unfolded One_nat_def])
  have first: "forAction (fst (matchActions eng default_rules ?res r w msg)) x =
      (if x \<in> w then first_rule eng default_rules ?res r msg x else - 1)" for w x
    by (rule matchActions_first [THEN conjunct1, rule_format])
  have "\<not> list_ex (reads_text default_rules ?res r) [0 ..< length default_rules]" using silent by (auto simp: list_ex_iff len(1))
  then have "snd (matchActions eng default_rules ?res r wanted msg) = 0" using matchActions_first [of eng default_rules ?res r wanted msg] by simp
  moreover have "list_all (\<lambda>x. isSlot (h_background x) \<and> h_foreground x = readableTextSlot (h_background x) \<and> isSlot (h_foreground x)) default_rules"
    by code_simp
  ultimately show ?thesis
    by (cases a) (simp_all add: match_action_def first colour other del: forAction.simps)
qed

section \<open>Storing rules\<close>

lemma actions_roundtrip: "actionsFromJson (toArray (Some (actionsToJson s))) = s"
proof -
  have "a \<in> actionsFromJson (toArray (Some (actionsToJson s))) \<longleftrightarrow> a \<in> s" for a
    by (cases "Color \<in> s"; cases "Digest \<in> s"; cases "Tab \<in> s"; cases "Notify \<in> s"; cases a)
      (simp_all add: actionsFromJson_def actionsToJson_def kActionTokens_def)
  then show ?thesis by blast
qed

definition slot_or_default :: "int \<Rightarrow> bool" where
  "slot_or_default i \<longleftrightarrow> isSlot i \<or> i = kDefault"

lemma readSlot_num: "slot_or_default i \<Longrightarrow> readSlot (Some (JNum i)) = i"
  by (auto simp: slot_or_default_def readSlot_def isSlot_def kSlotCount_def kSlotsPerBand_def kDefault_def int32_def)

text \<open>A rule as the editor makes it comes back from its JSON form unchanged but for the order of its
  names and what its dates read back as: its actions too, a rule that does nothing included, although they are written
  only when they are not just colouring. The form of a rule that only colours has no key for actions.\<close>

theorem highlight_storage:
  assumes "storable eng (h_match r)" and "\<And>ns. distinct (sort_ci ns) = distinct ns" and "\<And>ns. set (sort_ci ns) = set ns"
    and "slot_or_default (h_background r)" and "slot_or_default (h_foreground r)"
  shows "rule_fromJson eng from_iso (rule_toJson sort_ci iso_date r) =
      r\<lparr>h_match := (h_match r)\<lparr>loggerNames := sort_ci (loggerNames (h_match r)), threadNames := sort_ci (threadNames (h_match r)),
        c_start := from_iso (iso_date (c_start (h_match r))), c_end := from_iso (iso_date (c_end (h_match r)))\<rparr>\<rparr>
    \<and> (''actions'' \<in> dom (rule_toJson sort_ci iso_date r)) = (h_actions r \<noteq> {Color})"
proof -
  let ?o = "rule_toJson sort_ci iso_date r"
  have lookups: "?o ''enabled'' = Some (JBool (h_enabled r))"
    "?o ''match'' = Some (JObj (criteria_toJson sort_ci iso_date (h_match r)))"
    "?o ''actions'' = (if h_actions r \<noteq> {Color} then Some (actionsToJson (h_actions r)) else None)"
    "?o ''background'' = Some (JNum (h_background r))" "?o ''foreground'' = Some (JNum (h_foreground r))"
    by (simp_all add: rule_toJson_def Let_def)
  have match: "criteria_fromJson eng from_iso (criteria_toJson sort_ci iso_date (h_match r)) =
      (h_match r)\<lparr>loggerNames := sort_ci (loggerNames (h_match r)), threadNames := sort_ci (threadNames (h_match r)),
        c_start := from_iso (iso_date (c_start (h_match r))), c_end := from_iso (iso_date (c_end (h_match r)))\<rparr>"
    by (rule criteria_storage [OF assms(1-3)])
  have "(if (if h_actions r \<noteq> {Color} then Some (actionsToJson (h_actions r)) else None) \<noteq> None
      then actionsFromJson (toArray (if h_actions r \<noteq> {Color} then Some (actionsToJson (h_actions r)) else None)) else {Color}) = h_actions r"
    using actions_roundtrip [of "h_actions r"] by (cases "h_actions r = {Color}") simp_all
  then have "rule_fromJson eng from_iso ?o =
      r\<lparr>h_match := (h_match r)\<lparr>loggerNames := sort_ci (loggerNames (h_match r)), threadNames := sort_ci (threadNames (h_match r)),
        c_start := from_iso (iso_date (c_start (h_match r))), c_end := from_iso (iso_date (c_end (h_match r)))\<rparr>\<rparr>"
    unfolding rule_fromJson_def lookups by (simp add: match readSlot_num [OF assms(4)] readSlot_num [OF assms(5)])
  moreover have "(''actions'' \<in> dom ?o) = (h_actions r \<noteq> {Color})" by (simp add: domIff lookups(3))
  ultimately show ?thesis by blast
qed

theorem highlight_storage_witness:
  "h_actions (rule_fromJson plain_engine (\<lambda>s. if s = [] then None else Some 5)
     (rule_toJson (\<lambda>ns. ns) (\<lambda>b. if b = None then [] else ''5'') (rule_default\<lparr>h_match := sample_criteria, h_actions := {}\<rparr>))) = {}"
proof -
  let ?r = "rule_default\<lparr>h_match := sample_criteria, h_actions := {}\<rparr>"
  have "storable plain_engine (h_match ?r)" by (simp add: storable_def sample_criteria_def matcher_set_def)
  moreover have "slot_or_default (h_background ?r)" "slot_or_default (h_foreground ?r)"
    by (simp_all add: slot_or_default_def rule_default_def)
  ultimately show ?thesis
    using highlight_storage [of plain_engine ?r "\<lambda>ns. ns" "\<lambda>s. if s = [] then None else Some 5" "\<lambda>b. if b = None then [] else ''5''"]
    by simp
qed

end
