(* ===== verification/Spec2Isabelle.thy ===== *)
theory Spec2Isabelle
  imports Telnet LiveAppend ContextSpec Policies Sources Login Framing Runs Criteria Geometry Density ExecProbe
    Timestamps Openings Detector Highlight
begin

text \<open>
  A verification library for the core of loftail, a desktop viewer for large and growing log files.
  The paths below are under \<open>src/src/core\<close>.

  \<^bold>\<open>How the program works.\<close> A log is a source of bytes (a local file, a spool filled from a remote
  machine, a serial console). The indexer reads it once, front to back, splits it into lines, tells
  which lines start a record, and stores for each record where it is and what its fields are, never
  its text. The index counts display lines in blocks so that a scroll position can be mapped to a
  record and back. Filters select records by level, logger, thread, time and text; the visible rows
  are an ascending list of records, with context rows around each match. When the source grows, the
  live controller re-reads the tail from the start of the last record, which is provisional, and
  extends index, visible rows, runs and counts in place. The format of a log is a conversion pattern,
  typed or guessed, which a compiler turns into two expressions and a program for its dates. Consoles
  are reached through telnet and serial lines, with a login automaton and a framing of commands and
  answers. A remote log is fetched into a spool, one for all the tabs that show it, and read from there.

  \<^bold>\<open>Theories and the code they model.\<close>

  \<^item> \<open>Prelude\<close>: byte strings, machine words, the list operations the sources share
    (\<open>mid\<close>, \<open>indexOf\<close>, \<open>resize\<close>, the binary search), and the fact collections.
  \<^item> \<open>Records\<close> (\<open>Record.h\<close>, \<open>Priority.h\<close>), \<open>InternTbl\<close> (\<open>InternTable.h\<close>), \<open>BlockIndex\<close>
    (\<open>RecordIndex.h\<close>): the stored index. \<open>InternTbl\<close> states the locale \<open>dictionary\<close>, and \<open>BlockIndex\<close>
    the locale \<open>line_geometry\<close> (first line of a record, record at a line) and interprets it on the
    index.
  \<^item> \<open>Geometry\<close> (\<open>EstimatedGeometry\<close>): the same contract for the wrapped view, where heights are
    measured a block at a time and estimated elsewhere; the second interpretation of \<open>line_geometry\<close>.
    \<open>Density\<close> (\<open>DensityMap\<close>): the marks beside the scroll bar, scanned a slice at a time.
  \<^item> \<open>Decode\<close> (\<open>Decoder\<close>, \<open>Encoding.h\<close>): encodings and line ends (locale \<open>line_splitter\<close>).
    \<open>Index\<close> (\<open>Indexer\<close>): the scan, over a locale \<open>byte_source\<close>.
  \<^item> \<open>LiveAppend\<close> (\<open>LiveController\<close>): following growth without a filter.
  \<^item> \<open>Filters\<close> (\<open>Filter\<close>): text queries, the five axes, Find and its tally. \<open>Criteria\<close>
    (\<open>MatchCriteria\<close>): the portable form of the axes, its resolution against a log and its storage.
    \<open>Highlight\<close> (\<open>Highlight\<close>, \<open>Palette\<close>): the rules that colour and announce records, first match per action.
  \<^item> \<open>Visible\<close> (\<open>FilteredIndex.h\<close>): visible rows. \<open>Context\<close> (\<open>ContextEmitter.h\<close>, parts of \<open>Document.cpp\<close>
    and \<open>LiveController.cpp\<close>): context rows, a full filter pass and the resumed one after an append.
    \<open>ContextSpec\<close>: what context promises, stated without the emitter.
  \<^item> \<open>Runs\<close> (\<open>Document.cpp\<close>): runs of the logged program, their selection, baselines and counts.
  \<^item> \<open>Sources\<close> (\<open>HeadWitness.h\<close>, \<open>MappedLogSource\<close>, \<open>BufferedLogSource\<close>): local files that grow, are
    truncated, replaced or rewritten in place (locale \<open>followed_source\<close>, interpreted on both).
  \<^item> \<open>Policies\<close> (\<open>SshRetryPolicy\<close>, \<open>SshSessionHealth\<close>, \<open>AlertPolicy\<close>, \<open>RetryCountdown\<close>): small automata
    over time.
  \<^item> \<open>Telnet\<close> (\<open>TelnetProtocol\<close>), \<open>SerialProfile\<close>, \<open>Login\<close> (\<open>SerialLoginMachine\<close>), \<open>Framing\<close>
    (\<open>SerialFraming\<close>): the console stack. \<open>Bytes\<close> has the byte string functions these and the commands use.
  \<^item> \<open>Patterns\<close> (\<open>PatternCompiler\<close>, \<open>LogFormat.h\<close>, \<open>CompileError.h\<close>): the compiler of conversion patterns.
    \<open>Timestamps\<close> (\<open>TimestampParser\<close>): reading a date by the tokens of its format. \<open>Detector\<close>
    (\<open>FormatDetector\<close>, \<open>FormatPreview\<close>): the preview of a format and the guess of one.
  \<^item> \<open>QStrings\<close>: texts as UTF-16 units, and the functions of \<open>QString\<close> the addresses use. \<open>RemoteAddress\<close>
    (\<open>RemoteLocation\<close>, \<open>SerialDevices\<close>): remote addresses, their keys and their forms. \<open>LogPaths\<close>
    (\<open>ArchiveLocation\<close>, the rest of \<open>RemoteLocation\<close>): archive addresses, settings keys, shown names.
    \<open>Openings\<close> (\<open>LogSourceFactory\<close>, \<open>LogAnchor\<close>, \<open>ConfigLocation\<close>, \<open>RestartTarget\<close>): which source reads
    an address, and where the files beside a log are.
  \<^item> \<open>ExecCommands\<close> (\<open>SshExecCommands\<close>, \<open>PathTrouble.cpp\<close>), \<open>ExecProbe\<close> (\<open>ExecSizeProbe\<close>, \<open>ExecByteSafety\<close>):
    the shell commands sent to a machine, their answers, and what is learnt about it before it is read.
  \<^item> \<open>Spools\<close> (\<open>SourceSpool\<close>): who holds a spool and when its directory may go. \<open>SpoolSource\<close>
    (\<open>SpooledLogSource\<close>, \<open>SourceFetcher.h\<close>): reading what a fetcher has published (another
    \<open>followed_source\<close> in kind, over the local source of \<open>Sources\<close>).

  \<^bold>\<open>State.\<close> A class is a record with the fields of the class; a method takes the record and returns it
  updated, next to its result. Where a class keeps a pointer to something that lives elsewhere (the
  visible rows to the index, the geometry to the index) that thing, as it is at the call, is an
  argument. Signals and notifications are not modelled; what a slot does to the state is.

  \<^bold>\<open>Integers.\<close> Fields whose width matters (ids, byte lengths, line counts, telnet bytes) are words.
  File offsets and times in milliseconds are unbounded integers, counts and indices naturals or
  integers: an index of more than \<open>2 ^ 31\<close> records is outside the model unless a statement says so.

  \<^bold>\<open>Loops and fuel.\<close> Loops are recursive functions over the list they walk or with a measure, so every
  operation is total: the line walk and the read window shrink the distance to the end of the source,
  the searches halve an interval. Three iterations carry a number of rounds. \<open>negotiate\<close> in \<open>Telnet\<close> is
  the exchange of two peers, whose theorem gives the number after which it is quiet. \<open>clean_passes\<close> in
  \<open>LogPaths\<close> and \<open>peel_archives\<close> in \<open>Openings\<close> stop after four and eight rounds because the code does.

  \<^bold>\<open>Parameters.\<close> What the sources call and do not contain is an argument of the definitions: matching of
  regular expressions (records \<open>regex_engine\<close>), the character converters, the calendar and its zones
  (record \<open>calendar\<close>), the functions of \<open>QUrl\<close>, \<open>QDir\<close> and \<open>QFileInfo\<close> (records \<open>qt\<close> and \<open>files\<close>), the
  digest of a key, case folding, clocks, the random number of the login, the file system as the content
  of the file at each moment, a fetcher as the moments it publishes, and the arithmetic of \<open>double\<close>.
  Nothing is assumed of them beyond what a statement names. Percent decoding drops a byte-order mark in front of what
  it decodes (\<open>percent_laws\<close> in \<open>RemoteAddress\<close>), a wall clock may have no instant in a zone (\<open>resolve_criteria\<close> in
  \<open>Criteria\<close>), and \<open>cleanPath\<close> keeps where a path leads (\<open>cleans\<close> in \<open>Openings\<close>).

  \<^bold>\<open>What the lemmas show.\<close> Incremental work equals work from scratch: an append to the index, to the
  filtered rows, to the block sums, to the runs. Maps invert each other: rows and records, lines and
  records, ids and names, stored and loaded settings, encoded and received bytes, framed and read
  answers; a remote address its normal form, unless a part begins with a byte-order mark. Invariants hold in every
  reachable state: the wrapped geometry, with what each operation keeps of its measurements, the telnet options, the
  alert policy, the memoised counts of runs and file through appends and questions, the spools and their directories, the numbering of the fields of
  a compiled pattern. Two parts of the program agree: the preview and the index on the records of a log,
  the expression of a date and its parser, the words of a command and the path put into it. Errors and
  limits: cancellation keeps a prefix of the index, the
  password never reaches the transcript, an unresponsive device fails in bounded time, Find and its
  tally stop where they say, a pattern that does not compile names the place of the fault. Some theorems
  exhibit behaviour that differs from what the sources say they do: \<open>frame_cap_promotes_echo\<close>,
  \<open>frame_raw_cut_in_flight\<close>, \<open>login_slow_refusal_unbounded\<close>, \<open>runs_miss_completed_record\<close>,
  \<open>target_collisions\<close>, \<open>cut_address_round_trip\<close>, \<open>archive_normal_moves\<close>, \<open>display_name_separator\<close>, \<open>date_match_unread\<close>,
  \<open>spool_shared_no_more\<close> and \<open>shutdown_removes\<close>.

  \<^bold>\<open>Not modelled.\<close> Threads, sockets, \<open>libssh2\<close>, \<open>libarchive\<close>, devices, service discovery and the key
  chain: the code around these is calls to libraries and their scheduling. So the fetchers themselves, the
  sessions and the archive reader appear only as what they publish. The Qt widgets under \<open>src/src/ui\<close>:
  painting, dialogs and event handling. The stores of settings, bookmarks, secrets and sessions, which
  are groups of \<open>QSettings\<close> and JSON files, and the translated sentences of messages.
\<close>

end
